(* ===== verification/Prelude.thy ===== *)
theory Prelude
  imports Main "HOL-Library.Word" "HOL-Library.Product_Lexorder" "HOL-Library.Multiset"
    "HOL-Library.Code_Target_Nat"
begin

text \<open>
  What every component of the development shares: the machine integers of the
  Rust source as words, its checked and saturating arithmetic, results with
  errors as values, byte buffers with slices and in-place copies, and the
  little-endian encoding of integers.

  A build with overflow checks off (the release profile of the crate) wraps a
  plain \<open>+\<close>, \<open>-\<close> or \<open>*\<close>; that is what word arithmetic
  does, so plain operators of the source are plain operators here. An index or
  a length of type \<open>usize\<close> is a \<^typ>\<open>nat\<close>.
\<close>

unbundle bit_operations_syntax

type_synonym u8 = "8 word"
type_synonym u16 = "16 word"
type_synonym u32 = "32 word"
type_synonym u64 = "64 word"

section \<open>Fact collections\<close>

named_theorems word_nat \<open>rewrites that read word comparisons and arithmetic as natural numbers\<close>
named_theorems layout \<open>the byte offsets and sizes of the on-disk structures\<close>
named_theorems slicing \<open>reading a slice of a buffer after an in-place copy\<close>

declare word_le_nat_alt [word_nat] word_less_nat_alt [word_nat]
declare unat_div_distrib [word_nat] unat_mod_distrib [word_nat]

section \<open>Results\<close>

abbreviation Ok :: "'a \<Rightarrow> 'e + 'a" where
  "Ok \<equiv> Inr"

abbreviation Err :: "'e \<Rightarrow> 'e + 'a" where
  "Err \<equiv> Inl"

text \<open>The \<open>?\<close> operator: go on with the value, or return the error.\<close>

definition rbind :: "'e + 'a \<Rightarrow> ('a \<Rightarrow> 'e + 'b) \<Rightarrow> 'e + 'b" where
  "rbind r f = (case r of Inl e \<Rightarrow> Inl e | Inr x \<Rightarrow> f x)"

lemma rbind_simps [simp]:
  "rbind (Ok x) f = f x"
  "rbind (Err e) f = Err e"
  by (simp_all add: rbind_def)

lemma rbind_eq_Ok [simp]: "rbind r f = Ok y \<longleftrightarrow> (\<exists>x. r = Ok x \<and> f x = Ok y)"
  by (cases r) auto

lemma rbind_eq_Err: "rbind r f = Err e \<longleftrightarrow> r = Err e \<or> (\<exists>x. r = Ok x \<and> f x = Err e)"
  by (cases r) auto

lemma rbind_assoc: "rbind (rbind r f) g = rbind r (\<lambda>x. rbind (f x) g)"
  by (cases r) auto

lemma rbind_cong [fundef_cong]:
  assumes "r = r'" and "\<And>x. r' = Ok x \<Longrightarrow> f x = f' x"
  shows "rbind r f = rbind r' f'"
  using assms by (cases r') auto

text \<open>\<open>Option::ok_or\<close>, \<open>Result::map_err\<close> and \<open>Result::map\<close>.\<close>

definition ok_or :: "'a option \<Rightarrow> 'e \<Rightarrow> 'e + 'a" where
  "ok_or x e = (case x of None \<Rightarrow> Err e | Some v \<Rightarrow> Ok v)"

definition map_err :: "('e \<Rightarrow> 'f) \<Rightarrow> 'e + 'a \<Rightarrow> 'f + 'a" where
  "map_err h r = map_sum h id r"

definition map_ok :: "('a \<Rightarrow> 'b) \<Rightarrow> 'e + 'a \<Rightarrow> 'e + 'b" where
  "map_ok h r = map_sum id h r"

lemma ok_or_simps [simp]:
  "ok_or None e = Err e" "ok_or (Some v) e = Ok v"
  by (simp_all add: ok_or_def)

lemma ok_or_eq_Ok [simp]: "ok_or x e = Ok v \<longleftrightarrow> x = Some v"
  by (cases x) auto

lemma ok_or_eq_Err [simp]: "ok_or x e = Err e' \<longleftrightarrow> x = None \<and> e' = e"
  by (cases x) auto

lemma map_err_simps [simp]:
  "map_err h (Ok v) = Ok v" "map_err h (Err e) = Err (h e)"
  by (simp_all add: map_err_def)

lemma map_err_eq_Ok [simp]: "map_err h r = Ok v \<longleftrightarrow> r = Ok v"
  by (cases r) auto

lemma map_err_eq_Err: "map_err h r = Err e \<longleftrightarrow> (\<exists>e'. r = Err e' \<and> e = h e')"
  by (cases r) auto

lemma map_ok_simps [simp]:
  "map_ok h (Ok v) = Ok (h v)" "map_ok h (Err e) = Err e"
  by (simp_all add: map_ok_def)

lemma map_ok_eq_Ok [simp]: "map_ok h r = Ok v \<longleftrightarrow> (\<exists>u. r = Ok u \<and> v = h u)"
  by (cases r) auto

lemma map_ok_eq_Err [simp]: "map_ok h r = Err e \<longleftrightarrow> r = Err e"
  by (cases r) auto

text \<open>A loop whose body may fail: the results in order, or the first error.\<close>

fun traverse :: "('a \<Rightarrow> 'e + 'b) \<Rightarrow> 'a list \<Rightarrow> 'e + 'b list" where
  "traverse f [] = Ok []"
| "traverse f (x # xs) = rbind (f x) (\<lambda>y. rbind (traverse f xs) (\<lambda>ys. Ok (y # ys)))"

lemma traverse_eq_Ok: "traverse f xs = Ok ys \<longleftrightarrow> list_all2 (\<lambda>x y. f x = Ok y) xs ys"
  by (induction xs arbitrary: ys) (auto simp: list_all2_Cons1)

lemma traverse_Ok_map: "(\<And>x. x \<in> set xs \<Longrightarrow> f x = Ok (g x)) \<Longrightarrow> traverse f xs = Ok (map g xs)"
  by (induction xs) auto

lemma traverse_eq_Err: "traverse f xs = Err e \<Longrightarrow> \<exists>x \<in> set xs. f x = Err e"
  by (induction xs) (auto simp: rbind_eq_Err)

lemma traverse_length: "traverse f xs = Ok ys \<Longrightarrow> length ys = length xs"
  by (auto simp: traverse_eq_Ok dest: list_all2_lengthD)

lemma traverse_nth:
  "traverse f xs = Ok ys \<Longrightarrow> i < length xs \<Longrightarrow> f (xs ! i) = Ok (ys ! i)"
  by (auto simp: traverse_eq_Ok dest: list_all2_nthD)

lemma traverse_cong [fundef_cong]:
  "xs = ys \<Longrightarrow> (\<And>x. x \<in> set ys \<Longrightarrow> f x = g x) \<Longrightarrow> traverse f xs = traverse g ys"
  by (induction xs arbitrary: ys) (auto intro!: rbind_cong)

lemma set_map_filter: "y \<in> set (List.map_filter f xs) \<longleftrightarrow> (\<exists>x \<in> set xs. f x = Some y)"
  by (induction xs) (auto simp: List.map_filter_simps split: option.splits)

lemma map_filter_append: "List.map_filter f (xs @ ys) = List.map_filter f xs @ List.map_filter f ys"
  by (induction xs) (auto simp: List.map_filter_simps split: option.splits)

lemma map_filter_id_map: "List.map_filter id (map f xs) = List.map_filter f xs"
  by (induction xs) (auto simp: List.map_filter_simps split: option.splits)

lemma map_map_filter: "map g (List.map_filter f xs) = List.map_filter (\<lambda>x. map_option g (f x)) xs"
  by (induction xs) (auto simp: List.map_filter_simps split: option.splits)

lemma distinct_map_filter:
  assumes "distinct xs" and "\<And>x y v. x \<in> set xs \<Longrightarrow> y \<in> set xs \<Longrightarrow> f x = Some v \<Longrightarrow> f y = Some v \<Longrightarrow> x = y"
  shows "distinct (List.map_filter f xs)"
  using assms
proof (induction xs)
  case (Cons x xs)
  have "distinct (List.map_filter f xs)" using Cons by auto
  moreover have "v \<notin> set (List.map_filter f xs)" if "f x = Some v" for v
    using that Cons.prems by (auto simp: set_map_filter)
  ultimately show ?case by (auto simp: List.map_filter_simps split: option.splits)
qed (simp add: List.map_filter_simps)

section \<open>Checked and saturating arithmetic\<close>

definition checked_add :: "'a::len word \<Rightarrow> 'a word \<Rightarrow> 'a word option" where
  "checked_add a b = (if unat a + unat b < 2 ^ LENGTH('a) then Some (a + b) else None)"

definition checked_mul :: "'a::len word \<Rightarrow> 'a word \<Rightarrow> 'a word option" where
  "checked_mul a b = (if unat a * unat b < 2 ^ LENGTH('a) then Some (a * b) else None)"

definition checked_sub :: "'a::len word \<Rightarrow> 'a word \<Rightarrow> 'a word option" where
  "checked_sub a b = (if unat b \<le> unat a then Some (a - b) else None)"

definition saturating_add :: "'a::len word \<Rightarrow> 'a word \<Rightarrow> 'a word" where
  "saturating_add a b = (if unat a + unat b < 2 ^ LENGTH('a) then a + b else - 1)"

definition saturating_sub :: "'a::len word \<Rightarrow> 'a word \<Rightarrow> 'a word" where
  "saturating_sub a b = (if unat b \<le> unat a then a - b else 0)"

definition div_ceil :: "'a::len word \<Rightarrow> 'a word \<Rightarrow> 'a word" where
  "div_ceil a b = (if a mod b = 0 then a div b else a div b + 1)"

definition is_multiple_of :: "'a::len word \<Rightarrow> 'a word \<Rightarrow> bool" where
  "is_multiple_of a b = (if b = 0 then a = 0 else a mod b = 0)"

definition is_power_of_two :: "'a::len word \<Rightarrow> bool" where
  "is_power_of_two a \<longleftrightarrow> a \<noteq> 0 \<and> a AND (a - 1) = 0"

lemma checked_add_eq_Some:
  "checked_add a b = Some (c :: 'a::len word)
     \<longleftrightarrow> unat a + unat b < 2 ^ LENGTH('a) \<and> unat c = unat a + unat b"
  by (auto simp: checked_add_def unat_plus_if' intro!: word_unat_eq_iff [THEN iffD2])

lemma checked_mul_eq_Some:
  "checked_mul a b = Some (c :: 'a::len word)
     \<longleftrightarrow> unat a * unat b < 2 ^ LENGTH('a) \<and> unat c = unat a * unat b"
  by (auto simp: checked_mul_def unat_word_ariths intro!: word_unat_eq_iff [THEN iffD2])

lemma checked_sub_eq_Some:
  "checked_sub a b = Some c \<longleftrightarrow> unat b \<le> unat a \<and> unat c = unat a - unat b"
  by (auto simp: checked_sub_def unat_sub word_le_nat_alt intro!: word_unat_eq_iff [THEN iffD2])

lemma checked_add_eq_None:
  "checked_add a (b :: 'a::len word) = None \<longleftrightarrow> 2 ^ LENGTH('a) \<le> unat a + unat b"
  by (auto simp: checked_add_def)

lemma checked_mul_eq_None:
  "checked_mul a (b :: 'a::len word) = None \<longleftrightarrow> 2 ^ LENGTH('a) \<le> unat a * unat b"
  by (auto simp: checked_mul_def)

lemma unat_saturating_sub [word_nat]: "unat (saturating_sub a b) = unat a - unat b"
  by (auto simp: saturating_sub_def unat_sub word_le_nat_alt)

lemma unat_max_word: "unat (- 1 :: 'a::len word) = 2 ^ LENGTH('a) - 1"
  by (simp add: unat_eq_nat_uint uint_word_ariths nat_diff_distrib' nat_power_eq zmod_minus1)

lemma unat_saturating_add [word_nat]:
  "unat (saturating_add a (b :: 'a::len word)) = min (unat a + unat b) (2 ^ LENGTH('a) - 1)"
  by (auto simp: saturating_add_def unat_max_word unat_plus_if' min_def)

lemma unat_lt: "unat (w :: 'a::len word) < 2 ^ LENGTH('a)"
  by (rule unsigned_less)

lemma eq_of_nat: "unat (w :: 'a::len word) = n \<Longrightarrow> w = of_nat n"
  by (auto simp: word_unat_eq_iff)

lemma unat_ucast [word_nat]: "unat (ucast (w :: 'a::len word) :: 'b::len word) = unat w mod 2 ^ LENGTH('b)"
  by (simp add: unsigned_ucast_eq take_bit_eq_mod)

lemma unat_take_bit [word_nat]: "unat (take_bit n (w :: 'a::len word)) = unat w mod 2 ^ n"
  by (simp only: unsigned_take_bit_eq) (simp add: take_bit_eq_mod)

lemma unat_drop_bit [word_nat]: "unat (drop_bit n (w :: 'a::len word)) = unat w div 2 ^ n"
  by (simp only: unsigned_drop_bit_eq) (simp add: drop_bit_eq_div take_bit_nat_eq_self unat_lt)

lemma unat_push_bit: "unat (push_bit n (w :: 'a::len word)) = unat w * 2 ^ n mod 2 ^ LENGTH('a)"
  by (simp only: unsigned_push_bit_eq) (simp add: push_bit_eq_mult take_bit_eq_mod)

lemma and_mask_zero_bits:
  assumes "unat (s :: 'a::len word) < 2 ^ k"
  shows "s AND push_bit k c = 0"
proof (rule bit_word_eqI)
  fix n
  have "take_bit k s = s" using assms by (simp add: word_unat_eq_iff unat_take_bit)
  then have "\<not> bit s n" if "k \<le> n"
    using that by (metis bit_take_bit_iff not_le)
  then show "bit (s AND push_bit k c) n = bit 0 n"
    by (auto simp: bit_and_iff bit_push_bit_iff)
qed

lemma unat_or_push_bit:
  assumes "unat (s :: 'a::len word) < 2 ^ k" and "unat s + unat c * 2 ^ k < 2 ^ LENGTH('a)"
  shows "unat (s OR push_bit k c) = unat s + unat c * 2 ^ k"
proof -
  have "unat c * 2 ^ k < 2 ^ LENGTH('a)" using assms(2) by linarith
  then have "unat (push_bit k c) = unat c * 2 ^ k" by (simp add: unat_push_bit)
  moreover have "s OR push_bit k c = s + push_bit k c"
    using and_mask_zero_bits [OF assms(1), of c] by (simp add: disjunctive_add_eq_or)
  ultimately show ?thesis using assms by (simp add: unat_plus_if')
qed

lemma div_round_up:
  fixes a b :: nat
  assumes "0 < b"
  shows "(a + (b - 1)) div b = (if a mod b = 0 then a div b else a div b + 1)"
proof -
  define q r where "q = a div b" and "r = a mod b"
  then have a: "a = b * q + r" and r: "r < b"
    using assms by simp_all
  show ?thesis
  proof (cases "r = 0")
    case True
    have "(a + (b - 1)) div b = q"
      using a True assms by (intro div_nat_eqI) (simp_all add: algebra_simps)
    then show ?thesis using True by (simp add: q_def r_def)
  next
    case False
    have "(a + (b - 1)) div b = q + 1"
      using a r False by (intro div_nat_eqI) (simp_all add: algebra_simps)
    then show ?thesis using False by (simp add: q_def r_def)
  qed
qed

lemma unat_div_ceil [word_nat]:
  fixes a b :: "'a::len word"
  assumes "0 < unat b"
  shows "unat (div_ceil a b) = (unat a + (unat b - 1)) div unat b"
proof (cases "unat a mod unat b = 0")
  case True
  then have "a mod b = 0" by (simp add: word_unat_eq_iff unat_mod_distrib)
  with True show ?thesis
    using div_round_up [OF assms, of "unat a"] by (simp add: div_ceil_def unat_div_distrib)
next
  case False
  then have "a mod b \<noteq> 0" and "unat b \<noteq> 1" and "0 < unat a"
    by (auto simp: word_unat_eq_iff unat_mod_distrib intro: gr0I)
  then have "unat a div unat b < unat a"
    using assms by simp
  then have "unat a div unat b + 1 < 2 ^ LENGTH('a)"
    using unat_lt [of a] by linarith
  then have "unat (a div b + 1) = unat a div unat b + 1"
    by (simp add: unat_plus_if' unat_div_distrib)
  with False \<open>a mod b \<noteq> 0\<close> show ?thesis
    using div_round_up [OF assms, of "unat a"] by (simp add: div_ceil_def)
qed

lemma is_multiple_of_iff:
  "0 < unat b \<Longrightarrow> is_multiple_of a b \<longleftrightarrow> unat a mod unat b = 0"
  by (auto simp: is_multiple_of_def word_unat_eq_iff unat_mod_distrib)

section \<open>Byte buffers\<close>

text \<open>\<open>buf[at..at + n]\<close>, and \<open>buf[at..at + xs.len()].copy_from_slice(&xs)\<close>.\<close>

definition slice_of :: "nat \<Rightarrow> nat \<Rightarrow> 'a list \<Rightarrow> 'a list" where
  "slice_of at n buf = take n (drop at buf)"

definition copy_at :: "nat \<Rightarrow> 'a list \<Rightarrow> 'a list \<Rightarrow> 'a list" where
  "copy_at at xs buf = take at buf @ xs @ drop (at + length xs) buf"

lemma length_slice [simp]: "length (slice_of at n buf) = min n (length buf - at)"
  by (simp add: slice_of_def)

lemma nth_slice [simp]: "i < n \<Longrightarrow> at + i < length buf \<Longrightarrow> slice_of at n buf ! i = buf ! (at + i)"
  by (simp add: slice_of_def)

lemma length_copy_at [simp]:
  "at + length xs \<le> length buf \<Longrightarrow> length (copy_at at xs buf) = length buf"
  by (simp add: copy_at_def)

lemma nth_copy_at:
  assumes "at + length xs \<le> length buf" and "i < length buf"
  shows "copy_at at xs buf ! i = (if at \<le> i \<and> i < at + length xs then xs ! (i - at) else buf ! i)"
  using assms by (auto simp: copy_at_def nth_append min_def)

lemma slice_copy_at_same [simp, slicing]:
  assumes "at + length xs \<le> length buf" and "n = length xs"
  shows "slice_of at n (copy_at at xs buf) = xs"
  using assms by (simp add: slice_of_def copy_at_def)

lemma slice_copy_at_disjoint [slicing]:
  assumes "at + length xs \<le> length buf" and "a + n \<le> at \<or> at + length xs \<le> a"
  shows "slice_of a n (copy_at at xs buf) = slice_of a n buf"
proof (rule nth_equalityI)
  show "length (slice_of a n (copy_at at xs buf)) = length (slice_of a n buf)"
    using assms by simp
next
  fix i assume "i < length (slice_of a n (copy_at at xs buf))"
  then have i: "i < n" "a + i < length buf" using assms by auto
  then show "slice_of a n (copy_at at xs buf) ! i = slice_of a n buf ! i"
    using assms by (auto simp: nth_copy_at)
qed

lemma slice_copy_at_within [slicing]:
  assumes "at + length xs \<le> length buf" and "at \<le> a" and "a + n \<le> at + length xs"
  shows "slice_of a n (copy_at at xs buf) = slice_of (a - at) n xs"
proof (rule nth_equalityI)
  show "length (slice_of a n (copy_at at xs buf)) = length (slice_of (a - at) n xs)"
    using assms by simp
next
  fix i assume "i < length (slice_of a n (copy_at at xs buf))"
  then have i: "i < n" "a + i < length buf" using assms by auto
  then show "slice_of a n (copy_at at xs buf) ! i = slice_of (a - at) n xs ! i"
    using assms by (auto simp: nth_copy_at)
qed

lemma slice_slice [simp]:
  "b + m \<le> n \<Longrightarrow> slice_of b m (slice_of a n buf) = slice_of (a + b) m buf"
  by (rule nth_equalityI) (auto simp: add.assoc)

lemma slice_all [simp]: "n = length buf \<Longrightarrow> slice_of 0 n buf = buf"
  by (simp add: slice_of_def)

lemma copy_at_slice_id: "at + n \<le> length buf \<Longrightarrow> slice_of at n buf = e \<Longrightarrow> copy_at at e buf = buf"
  by (rule nth_equalityI) (auto simp: nth_copy_at)

lemma slice_replicate [simp]: "at + n \<le> m \<Longrightarrow> slice_of at n (replicate m x) = replicate n x"
  by (simp add: slice_of_def)

lemma slice_eq_nth_iff:
  "at + n \<le> length buf \<Longrightarrow> at + n \<le> length buf' \<Longrightarrow>
     slice_of at n buf = slice_of at n buf' \<longleftrightarrow> (\<forall>i < n. buf ! (at + i) = buf' ! (at + i))"
  by (auto simp: list_eq_iff_nth_eq)

lemma slice_append: "slice_of a m buf @ slice_of (a + m) n buf = slice_of a (m + n) buf"
  by (simp add: slice_of_def take_add add.commute)

lemma slice_singleton: "i < length buf \<Longrightarrow> slice_of i 1 buf = [buf ! i]"
  by (simp add: slice_of_def take_Suc_conv_app_nth flip: One_nat_def) (simp add: Cons_nth_drop_Suc [symmetric])

lemma copy_at_nested:
  assumes "off + length e \<le> length s" and "a + length xs \<le> length e"
  shows "copy_at (off + a) xs (copy_at off e s) = copy_at off (copy_at a xs e) s"
proof (rule nth_equalityI)
  fix i assume "i < length (copy_at (off + a) xs (copy_at off e s))"
  then have "i < length s" using assms by simp
  then show "copy_at (off + a) xs (copy_at off e s) ! i = copy_at off (copy_at a xs e) s ! i"
    using assms by (auto simp: nth_copy_at diff_diff_left)
qed (use assms in simp)

lemma copy_at_copy_at_same:
  "off + length e \<le> length s \<Longrightarrow> length e' = length e \<Longrightarrow>
     copy_at off e' (copy_at off e s) = copy_at off e' s"
  by (rule nth_equalityI) (auto simp: nth_copy_at)

lemma list_update_copy_at:
  "k < length s \<Longrightarrow> s[k := v] = copy_at k [v] s"
  by (rule nth_equalityI) (auto simp: nth_copy_at nth_list_update)

section \<open>Little-endian integers\<close>

fun to_le :: "nat \<Rightarrow> 'a::len word \<Rightarrow> u8 list" where
  "to_le 0 w = []"
| "to_le (Suc n) w = ucast w # to_le n (drop_bit 8 w)"

fun from_le :: "u8 list \<Rightarrow> 'a::len word" where
  "from_le [] = 0"
| "from_le (b # bs) = ucast b OR push_bit 8 (from_le bs)"

text \<open>\<open>to_le_bytes\<close> and \<open>from_le_bytes\<close> at the widths the source uses.\<close>

abbreviation le16_bytes :: "u16 \<Rightarrow> u8 list" where "le16_bytes \<equiv> to_le 2"
abbreviation le32_bytes :: "u32 \<Rightarrow> u8 list" where "le32_bytes \<equiv> to_le 4"
abbreviation le64_bytes :: "u64 \<Rightarrow> u8 list" where "le64_bytes \<equiv> to_le 8"

definition le16 :: "u8 list \<Rightarrow> nat \<Rightarrow> u16" where
  "le16 b at = from_le (slice_of at 2 b)"
definition le32 :: "u8 list \<Rightarrow> nat \<Rightarrow> u32" where
  "le32 b at = from_le (slice_of at 4 b)"
definition le64 :: "u8 list \<Rightarrow> nat \<Rightarrow> u64" where
  "le64 b at = from_le (slice_of at 8 b)"

lemma length_to_le [simp]: "length (to_le n w) = n"
  by (induction n arbitrary: w) auto

lemma from_le_to_le: "from_le (to_le n w) = take_bit (8 * n) (w :: 'a::len word)"
proof (induction n arbitrary: w)
  case 0
  show ?case by simp
next
  case (Suc n)
  show ?case
    by (rule bit_word_eqI)
      (auto simp: Suc bit_or_iff bit_push_bit_iff bit_ucast_iff bit_take_bit_iff bit_drop_bit_eq)
qed

lemma to_le_from_le:
  "8 * length bs \<le> LENGTH('a) \<Longrightarrow> to_le (length bs) (from_le bs :: 'a::len word) = bs"
proof (induction bs)
  case Nil
  show ?case by simp
next
  case (Cons b bs)
  let ?w = "from_le bs :: 'a word"
  have zero: "\<not> bit ?w i" if "8 * length bs \<le> i" for i
    using that
  proof (induction bs arbitrary: i)
    case (Cons c cs)
    then show ?case
      by (auto simp: bit_or_iff bit_push_bit_iff bit_ucast_iff dest: bit_imp_le_length)
  qed simp
  have "ucast (ucast b OR push_bit 8 ?w) = b"
    using Cons.prems
    by (intro bit_word_eqI) (auto simp: bit_or_iff bit_push_bit_iff bit_ucast_iff)
  moreover have "drop_bit 8 (ucast b OR push_bit 8 ?w) = ?w"
    using Cons.prems zero
    by (intro bit_word_eqI)
      (auto simp: bit_or_iff bit_push_bit_iff bit_ucast_iff bit_drop_bit_eq
        dest: bit_imp_le_length)
  ultimately show ?case using Cons by simp
qed

lemma from_le_bytes [simp]:
  "from_le (le16_bytes u) = u" "from_le (le32_bytes w) = w" "from_le (le64_bytes v) = v"
  using take_bit_length_eq [of u] take_bit_length_eq [of w] take_bit_length_eq [of v]
  by (simp_all add: from_le_to_le)

lemma le_copy_at_same [simp]:
  "at + 4 \<le> length buf \<Longrightarrow> le32 (copy_at at (le32_bytes w) buf) at = w"
  "at + 8 \<le> length buf \<Longrightarrow> le64 (copy_at at (le64_bytes v) buf) at = v"
  using take_bit_length_eq [of w] take_bit_length_eq [of v]
  by (simp_all add: le32_def le64_def from_le_to_le)

lemma le_copy_at_disjoint [slicing]:
  assumes "at + length xs \<le> length buf"
  shows "a + 4 \<le> at \<or> at + length xs \<le> a \<Longrightarrow> le32 (copy_at at xs buf) a = le32 buf a"
    and "a + 8 \<le> at \<or> at + length xs \<le> a \<Longrightarrow> le64 (copy_at at xs buf) a = le64 buf a"
  using assms by (simp_all add: le32_def le64_def slice_copy_at_disjoint)

lemma le_slice [simp]:
  "at + 4 \<le> n \<Longrightarrow> le32 (slice_of a n buf) at = le32 buf (a + at)"
  "at + 8 \<le> n \<Longrightarrow> le64 (slice_of a n buf) at = le64 buf (a + at)"
  by (simp_all add: le32_def le64_def)

lemma le32_bytes_le32: "at + 4 \<le> length buf \<Longrightarrow> le32_bytes (le32 buf at) = slice_of at 4 buf"
  using to_le_from_le [where 'a = 32, of "slice_of at 4 buf"] by (simp add: le32_def)

lemma le64_bytes_le64: "at + 8 \<le> length buf \<Longrightarrow> le64_bytes (le64 buf at) = slice_of at 8 buf"
  using to_le_from_le [where 'a = 64, of "slice_of at 8 buf"] by (simp add: le64_def)

end
