(* ===== verification/Block_Device.thy ===== *)
theory Block_Device
  imports Prelude
begin

text \<open>
  The block layer the crate reads and writes through. \<open>fs_core\<close> is another
  crate: its traits \<open>BlockRead\<close> and \<open>BlockDevice\<close> are parameters of
  the model, a record of operations over a device state \<open>'d\<close>, and what the
  crate relies on is the two locales \<open>block_reader\<close> and \<open>block_store\<close>.
  An operation that may change the device returns the device it leaves behind
  together with its result, on the error branches too.

  \<open>fs_error\<close> names the variants of \<open>fs_core::Error\<close> the source
  constructs or matches on, and one for all others. \<open>Panicked\<close> is no error
  of the block layer: it stands for a call that panics instead of returning
  (\<open>expect\<close>, \<open>unreachable!\<close>, a division by zero, a slice out of range),
  so that such a branch of the source is visible in the model.
\<close>

datatype fs_error =
    ReadOnly
  | ShortRead (sr_offset: u64) (sr_want: nat) (sr_got: nat)
  | OutOfBounds (oob_offset: u64) (oob_len: u64) (oob_size: u64)
  | Custom string
  | OtherFsError string
  | Panicked string

record 'd block_read =
  read_at :: "'d \<Rightarrow> u64 \<Rightarrow> nat \<Rightarrow> fs_error + u8 list"
  size_bytes :: "'d \<Rightarrow> u64"

record 'd block_device = "'d block_read" +
  is_writable :: "'d \<Rightarrow> bool"
  write_at :: "'d \<Rightarrow> u64 \<Rightarrow> u8 list \<Rightarrow> (fs_error + unit) \<times> 'd"
  dev_flush :: "'d \<Rightarrow> (fs_error + unit) \<times> 'd"

text \<open>The errors that say a read ran off the end of the device.\<close>

definition past_the_end :: "fs_error \<Rightarrow> bool" where
  "past_the_end e \<longleftrightarrow> (case e of ShortRead _ _ _ \<Rightarrow> True | OutOfBounds _ _ _ \<Rightarrow> True | _ \<Rightarrow> False)"

section \<open>What a reader promises\<close>

text \<open>
  \<open>read_at\<close> is all or nothing: it returns exactly the bytes asked for when
  the device holds them, and fails with an error that says so when a non-empty
  read runs past the end. \<open>size_bytes\<close> is the number of bytes held. A buffer's length is a
  \<open>usize\<close>, so below 2^64.
\<close>

locale block_reader =
  fixes rd :: "('d, 'x) block_read_scheme"
    and contents :: "'d \<Rightarrow> u8 list"
    and invar :: "'d \<Rightarrow> bool"
  assumes size_contents: "invar d \<Longrightarrow> unat (size_bytes rd d) = length (contents d)"
    and read_within: "invar d \<Longrightarrow> unat off + n \<le> length (contents d) \<Longrightarrow>
      read_at rd d off n = Ok (slice_of (unat off) n (contents d))"
    and read_past: "invar d \<Longrightarrow> 0 < n \<Longrightarrow> n < 2 ^ 64 \<Longrightarrow> length (contents d) < unat off + n \<Longrightarrow>
      \<exists>e. read_at rd d off n = Err e \<and> past_the_end e"
begin

lemma contents_fit: "invar d \<Longrightarrow> length (contents d) < 2 ^ 64"
  using size_contents [of d] unat_lt [of "size_bytes rd d"] by simp

lemma read_Ok_iff:
  assumes "invar d" and "0 < n" and "n < 2 ^ 64"
  shows "read_at rd d off n = Ok bs
    \<longleftrightarrow> unat off + n \<le> length (contents d) \<and> bs = slice_of (unat off) n (contents d)"
  using read_within [OF assms(1), of off n] read_past [OF assms, of off]
  by (metis Inl_Inr_False Inr_inject not_le)

lemma read_Ok_length:
  assumes "invar d" and "0 < n" and "n < 2 ^ 64" and "read_at rd d off n = Ok bs"
  shows "length bs = n"
  using assms read_Ok_iff [OF assms(1-3)] by auto

lemma read_same:
  assumes "invar d" and "invar d'" and "contents d = contents d'"
    and "unat off + n \<le> length (contents d)"
  shows "read_at rd d off n = read_at rd d' off n"
  using assms read_within by metis

end

section \<open>What a writable device promises\<close>

text \<open>
  On a writable device a write that fits succeeds and changes exactly the bytes
  it covers; a flush succeeds and changes none. Neither takes away writability.
\<close>

locale block_store = block_reader dv contents invar
  for dv :: "('d, 'x) block_device_scheme"
    and contents :: "'d \<Rightarrow> u8 list"
    and invar :: "'d \<Rightarrow> bool" +
  assumes write_within: "invar d \<Longrightarrow> is_writable dv d \<Longrightarrow>
      unat off + length bs \<le> length (contents d) \<Longrightarrow>
      \<exists>d'. write_at dv d off bs = (Ok (), d') \<and> contents d' = copy_at (unat off) bs (contents d)
        \<and> invar d' \<and> is_writable dv d'"
    and flush_ok: "invar d \<Longrightarrow> is_writable dv d \<Longrightarrow>
      \<exists>d'. dev_flush dv d = (Ok (), d') \<and> contents d' = contents d
        \<and> invar d' \<and> is_writable dv d'"
begin

lemma write_within_eq:
  assumes "invar d" and "is_writable dv d" and "unat off + length bs \<le> length (contents d)"
    and "write_at dv d off bs = (r, d')"
  shows "r = Ok ()" and "contents d' = copy_at (unat off) bs (contents d)"
    and "invar d'" and "is_writable dv d'" and "length (contents d') = length (contents d)"
    and "size_bytes dv d' = size_bytes dv d"
proof -
  from write_within [OF assms(1-3)] assms(4)
  show 1: "r = Ok ()" "contents d' = copy_at (unat off) bs (contents d)" "invar d'"
    "is_writable dv d'"
    by auto
  then show "length (contents d') = length (contents d)" using assms(3) by simp
  then have "unat (size_bytes dv d') = unat (size_bytes dv d)"
    using size_contents [OF 1(3)] size_contents [OF assms(1)] by simp
  then show "size_bytes dv d' = size_bytes dv d" by (simp add: word_unat_eq_iff)
qed

text \<open>A write is read back, and everything outside it is as it was.\<close>

lemma read_after_write:
  assumes "invar d" and "is_writable dv d" and "unat off + length bs \<le> length (contents d)"
    and "write_at dv d off bs = (r, d')"
  shows "read_at dv d' off (length bs) = Ok bs"
  using write_within_eq [OF assms] read_within [of d' off "length bs"] assms(3) by simp

lemma read_outside_write:
  assumes "invar d" and "is_writable dv d" and "unat off + length bs \<le> length (contents d)"
    and "write_at dv d off bs = (r, d')" and "unat at + n \<le> length (contents d)"
    and "unat at + n \<le> unat off \<or> unat off + length bs \<le> unat at"
  shows "read_at dv d' at n = read_at dv d at n"
  using write_within_eq [OF assms(1-4)] read_within [of d' at n] read_within [of d at n] assms
  by (simp add: slice_copy_at_disjoint)

end

section \<open>An in-memory device\<close>

text \<open>
  A vector of bytes behind the two traits, the device the crate's own tests
  read and write through. It keeps the promises above for every vector a
  machine can hold.
\<close>

definition memdev_read :: "u8 list \<Rightarrow> u64 \<Rightarrow> nat \<Rightarrow> fs_error + u8 list" where
  "memdev_read b off n =
     (if length b < unat off + n
      then Err (ShortRead off n (length b - unat off))
      else Ok (slice_of (unat off) n b))"

definition memdev_write :: "u8 list \<Rightarrow> u64 \<Rightarrow> u8 list \<Rightarrow> (fs_error + unit) \<times> u8 list" where
  "memdev_write b off bs =
     (if length b < unat off + length bs
      then (Err (OutOfBounds off (of_nat (length bs)) (of_nat (length b))), b)
      else (Ok (), copy_at (unat off) bs b))"

definition memdev :: "u8 list block_device" where
  "memdev = \<lparr>read_at = memdev_read, size_bytes = (\<lambda>b. of_nat (length b)),
     is_writable = (\<lambda>_. True), write_at = memdev_write, dev_flush = (\<lambda>b. (Ok (), b))\<rparr>"

definition memdev_invar :: "u8 list \<Rightarrow> bool" where
  "memdev_invar b \<longleftrightarrow> length b < 2 ^ 64"

lemma memdev_simps [simp]:
  "read_at memdev = memdev_read"
  "size_bytes memdev b = of_nat (length b)"
  "is_writable memdev b"
  "write_at memdev = memdev_write"
  "dev_flush memdev b = (Ok (), b)"
  by (simp_all add: memdev_def)

interpretation memdev: block_store memdev "\<lambda>b. b" memdev_invar
  by unfold_locales
    (auto simp: memdev_invar_def memdev_read_def memdev_write_def unat_of_nat past_the_end_def)

end
