(* ===== verification/Utf16.thy ===== *)
theory Utf16
  imports Prelude
begin

text \<open>
  Partition labels. A GPT entry stores 36 UTF-16 code units; the reader
  (\<open>parse_utf16_label\<close> of \<open>gpt.rs\<close>) stops at the first zero unit and
  decodes with a replacement character for an unpaired surrogate, the writer (in
  \<open>gpt_write.rs\<close>) stops before the first character that does not fit. A label
  is a list of Unicode scalar values, and the two conversions of the standard
  library are written out here.
\<close>

type_synonym ustring = "u32 list"

definition is_scalar :: "u32 \<Rightarrow> bool" where
  "is_scalar c \<longleftrightarrow> c < 0xD800 \<or> (0xE000 \<le> c \<and> c < 0x110000)"

section \<open>The conversions of the standard library\<close>

definition len_utf16 :: "u32 \<Rightarrow> nat" where
  "len_utf16 c = (if c < 0x10000 then 1 else 2)"

definition encode_utf16 :: "u32 \<Rightarrow> u16 list" where
  "encode_utf16 c =
     (if c < 0x10000 then [ucast c]
      else let code = c - 0x10000 in
        [0xD800 OR ucast (drop_bit 10 code), 0xDC00 OR (ucast code AND 0x3FF)])"

definition REPLACEMENT :: u32 where "REPLACEMENT = 0xFFFD"

definition join_surrogates :: "u16 \<Rightarrow> u16 \<Rightarrow> u32" where
  "join_surrogates u u2 = (push_bit 10 (ucast (u AND 0x3FF)) OR ucast (u2 AND 0x3FF)) + 0x10000"

fun from_utf16_lossy :: "u16 list \<Rightarrow> ustring" where
  "from_utf16_lossy [] = []"
| "from_utf16_lossy [u] =
     [if 0xD800 \<le> u \<and> u \<le> 0xDFFF then REPLACEMENT else ucast u]"
| "from_utf16_lossy (u # u2 # us) =
     (if \<not> (0xD800 \<le> u \<and> u \<le> 0xDFFF) then ucast u # from_utf16_lossy (u2 # us)
      else if u \<ge> 0xDC00 then REPLACEMENT # from_utf16_lossy (u2 # us)
      else if u2 < 0xDC00 \<or> u2 > 0xDFFF then REPLACEMENT # from_utf16_lossy (u2 # us)
      else join_surrogates u u2 # from_utf16_lossy us)"

section \<open>The label field\<close>

text \<open>\<open>bytes.chunks_exact(2)\<close> read as code units.\<close>

fun units_of :: "u8 list \<Rightarrow> u16 list" where
  "units_of (a # b # bs) = from_le [a, b] # units_of bs"
| "units_of _ = []"

definition parse_utf16_label :: "u8 list \<Rightarrow> ustring option" where
  "parse_utf16_label bytes =
     (let units = takeWhile (\<lambda>u. u \<noteq> 0) (units_of bytes) in
      if units = [] then None else Some (from_utf16_lossy units))"

text \<open>
  The writer's loop over the characters of the label, with the number of units
  written so far: the units it puts into the field.
\<close>

fun label_units :: "nat \<Rightarrow> ustring \<Rightarrow> u16 list" where
  "label_units w [] = []"
| "label_units w (c # cs) =
     (if (w + len_utf16 c) * 2 > 72 then []
      else encode_utf16 c @ label_units (w + len_utf16 c) cs)"

definition label_bytes :: "ustring \<Rightarrow> u8 list" where
  "label_bytes label = concat (map le16_bytes (label_units 0 label))"

section \<open>Decoding inverts encoding\<close>

lemma length_encode_utf16: "length (encode_utf16 c) = len_utf16 c"
  by (simp add: encode_utf16_def len_utf16_def Let_def)

lemma and_3FF: "w AND 0x3FF = take_bit 10 (w :: 'a::len word)"
  by (simp add: take_bit_eq_mask mask_eq_decr_exp)

lemma high_surrogate: "unat x < 1024 \<Longrightarrow> unat (0xD800 OR x :: u16) = 0xD800 + unat x"
  using unat_or_push_bit [of x 10 "0x36"] by (simp add: or.commute push_bit_eq_mult)

lemma low_surrogate: "unat x < 1024 \<Longrightarrow> unat (0xDC00 OR x :: u16) = 0xDC00 + unat x"
  using unat_or_push_bit [of x 10 "0x37"] by (simp add: or.commute push_bit_eq_mult)

lemma encode_pair:
  assumes "0x10000 \<le> unat c" and "unat c < 0x110000"
  obtains u u2 where "encode_utf16 c = [u, u2]"
    and "unat u = 0xD800 + (unat c - 0x10000) div 1024"
    and "unat u2 = 0xDC00 + (unat c - 0x10000) mod 1024"
proof -
  let ?d = "c - 0x10000"
  have d: "unat ?d = unat c - 0x10000" using assms by (simp add: unat_sub word_le_nat_alt)
  have e: "encode_utf16 c = [0xD800 OR ucast (drop_bit 10 ?d), 0xDC00 OR (ucast ?d AND 0x3FF)]"
    using assms by (simp add: encode_utf16_def Let_def word_less_nat_alt)
  have "unat (ucast (drop_bit 10 ?d) :: u16) = (unat c - 0x10000) div 1024"
    using assms by (simp add: unat_ucast unat_drop_bit d)
  moreover have "unat (ucast ?d AND 0x3FF :: u16) = (unat c - 0x10000) mod 1024"
    by (simp add: and_3FF unat_take_bit unat_ucast d mod_mod_cancel)
  ultimately show ?thesis
    using that [OF e] assms by (simp add: high_surrogate low_surrogate)
qed

lemma join_surrogates_pair:
  assumes "unat u = 0xD800 + a" and "unat u2 = 0xDC00 + b" and "a < 1024" and "b < 1024"
  shows "unat (join_surrogates u u2) = a * 1024 + b + 0x10000"
proof -
  have "(0xD800 + a) mod 1024 = a" "(0xDC00 + b) mod 1024 = b"
    using mod_mult_self3 [of 54 1024 a] mod_mult_self3 [of 55 1024 b] assms(3,4) by simp_all
  then have ua: "unat (ucast (u AND 0x3FF) :: u32) = a" "unat (ucast (u2 AND 0x3FF) :: u32) = b"
    using assms by (simp_all add: and_3FF unat_ucast unat_take_bit)
  have "a * 1024 + b < 2 ^ 20" using assms by simp
  then have "unat (ucast (u2 AND 0x3FF) OR push_bit 10 (ucast (u AND 0x3FF)) :: u32) = b + a * 1024"
    using unat_or_push_bit [of "ucast (u2 AND 0x3FF) :: u32" 10 "ucast (u AND 0x3FF)"] assms ua by simp
  then show ?thesis
    using \<open>a * 1024 + b < 2 ^ 20\<close> by (simp add: join_surrogates_def or.commute unat_plus_if')
qed

lemma from_utf16_lossy_encode:
  assumes "is_scalar c"
  shows "from_utf16_lossy (encode_utf16 c @ us) = c # from_utf16_lossy us"
proof (cases "unat c < 0x10000")
  case True
  let ?u = "ucast c :: u16"
  have u: "unat ?u = unat c" using True by (simp add: unat_ucast)
  then have "\<not> (0xD800 \<le> ?u \<and> ?u \<le> 0xDFFF)" and "ucast ?u = c"
    using assms True by (auto simp: is_scalar_def word_le_nat_alt word_less_nat_alt word_unat_eq_iff unat_ucast)
  moreover have "encode_utf16 c = [?u]" using True by (simp add: encode_utf16_def word_less_nat_alt)
  ultimately show ?thesis by (cases us) auto
next
  case False
  then have c: "0x10000 \<le> unat c" "unat c < 0x110000"
    using assms by (auto simp: is_scalar_def word_le_nat_alt word_less_nat_alt)
  let ?a = "(unat c - 0x10000) div 1024" and ?b = "(unat c - 0x10000) mod 1024"
  obtain u u2 where e: "encode_utf16 c = [u, u2]" and u: "unat u = 0xD800 + ?a" "unat u2 = 0xDC00 + ?b"
    using encode_pair [OF c] .
  have a: "?a < 1024" "?b < 1024" using c by auto
  have "unat (join_surrogates u u2) = ?a * 1024 + ?b + 0x10000"
    by (rule join_surrogates_pair [OF u a])
  also have "\<dots> = unat c" using c(1) by (simp add: div_mult_mod_eq)
  finally have "join_surrogates u u2 = c" by (simp add: word_unat_eq_iff)
  moreover have "0xD800 \<le> u" "u \<le> 0xDFFF" "\<not> u \<ge> 0xDC00" "\<not> (u2 < 0xDC00 \<or> u2 > 0xDFFF)"
    using u a by (auto simp: word_le_nat_alt word_less_nat_alt)
  ultimately show ?thesis by (simp add: e)
qed

text \<open>The characters the writer keeps: the longest prefix that fits the field.\<close>

fun label_chars :: "nat \<Rightarrow> ustring \<Rightarrow> ustring" where
  "label_chars w [] = []"
| "label_chars w (c # cs) =
     (if w + len_utf16 c > 36 then [] else c # label_chars (w + len_utf16 c) cs)"

lemma from_label_units:
  "\<forall>c \<in> set cs. is_scalar c \<Longrightarrow> from_utf16_lossy (label_units w cs) = label_chars w cs"
  by (induction w cs rule: label_units.induct) (auto simp: from_utf16_lossy_encode)

lemma label_chars_fits: "w + sum_list (map len_utf16 cs) \<le> 36 \<Longrightarrow> label_chars w cs = cs"
  by (induction w cs rule: label_chars.induct) (auto simp: add.assoc)

lemma label_chars_prefix: "\<exists>rest. cs = label_chars w cs @ rest"
  by (induction w cs rule: label_chars.induct) auto

lemma length_label_units: "w \<le> 36 \<Longrightarrow> w + length (label_units w cs) \<le> 36"
proof (induction w cs rule: label_units.induct)
  case (2 w c cs)
  then show ?case by (fastforce simp: length_encode_utf16)
qed simp

lemma encode_nonzero: "is_scalar c \<Longrightarrow> c \<noteq> 0 \<Longrightarrow> u \<in> set (encode_utf16 c) \<Longrightarrow> u \<noteq> 0"
proof (cases "unat c < 0x10000")
  case True
  assume "c \<noteq> 0" "u \<in> set (encode_utf16 c)"
  then show ?thesis
    using True by (auto simp: encode_utf16_def word_less_nat_alt word_unat_eq_iff unat_ucast)
next
  case False
  assume "is_scalar c" "u \<in> set (encode_utf16 c)"
  moreover have c: "0x10000 \<le> unat c" "unat c < 0x110000" if "is_scalar c"
    using that False by (auto simp: is_scalar_def word_le_nat_alt word_less_nat_alt)
  ultimately show ?thesis using encode_pair [of c]
    by (metis add_is_0 empty_iff insert_iff list.set(1,2) unat_0 zero_neq_numeral)
qed

lemma label_units_nonzero:
  "\<forall>c \<in> set cs. is_scalar c \<and> c \<noteq> 0 \<Longrightarrow> u \<in> set (label_units w cs) \<Longrightarrow> u \<noteq> 0"
  by (induction w cs rule: label_units.induct) (auto split: if_splits dest: encode_nonzero)

lemma units_of_append:
  "units_of (concat (map le16_bytes us) @ bs) = us @ units_of bs"
proof (induction us)
  case (Cons u us)
  have "from_le (le16_bytes u) = u"
    using take_bit_length_eq [of u] by (simp add: from_le_to_le)
  then show ?case using Cons by (simp add: numeral_2_eq_2)
qed simp

lemma units_of_zeros: "u \<in> set (units_of (replicate n 0)) \<Longrightarrow> u = 0"
  by (induction n rule: induct_nat_012) auto

lemma length_label_bytes: "length (label_bytes l) = 2 * length (label_units 0 l)"
  by (simp add: label_bytes_def length_concat comp_def sum_list_triv)

lemma length_label_bytes_le: "length (label_bytes l) \<le> 72"
  using length_label_units [of 0 l] by (simp add: length_label_bytes)

lemma parse_label_bytes:
  assumes "\<forall>c \<in> set l. is_scalar c \<and> c \<noteq> 0"
  shows "parse_utf16_label (label_bytes l @ replicate n 0) =
    (if label_chars 0 l = [] then None else Some (label_chars 0 l))"
proof -
  let ?u = "label_units 0 l"
  have t: "takeWhile (\<lambda>u. u \<noteq> 0) (?u @ units_of (replicate n 0)) = ?u"
  proof -
    have "takeWhile (\<lambda>u. u \<noteq> 0) (units_of (replicate n 0)) = []"
      using units_of_zeros [of _ n] by (cases "units_of (replicate n 0)") auto
    then show ?thesis
      using label_units_nonzero [OF assms, of _ 0] by (simp add: takeWhile_append)
  qed
  have d: "from_utf16_lossy ?u = label_chars 0 l" using assms by (simp add: from_label_units)
  then have "?u = [] \<longleftrightarrow> label_chars 0 l = []"
    by (cases l) (auto simp: encode_utf16_def Let_def)
  then show ?thesis
    by (simp add: parse_utf16_label_def label_bytes_def units_of_append t d)
qed

section \<open>Properties\<close>

text \<open>
  C31: A label survives the write and the read. The reader recovers from the
  72-byte field exactly the longest prefix of the label's characters whose code
  units fit in 36, never half of a surrogate pair, and the whole label when all
  of it fits; a label with no character left is no label.
\<close>

theorem label_roundtrip:
  assumes "\<forall>c \<in> set l. is_scalar c \<and> c \<noteq> 0"
  shows "parse_utf16_label (label_bytes l @ replicate (72 - length (label_bytes l)) 0) =
      (if label_chars 0 l = [] then None else Some (label_chars 0 l))
    \<and> (\<exists>rest. l = label_chars 0 l @ rest)
    \<and> (sum_list (map len_utf16 l) \<le> 36 \<longrightarrow> label_chars 0 l = l)"
  using parse_label_bytes [OF assms] label_chars_prefix [of l 0] label_chars_fits [of 0 l] by auto

theorem label_roundtrip_witness:
  "parse_utf16_label (label_bytes [0x45, 0x1F4BE, 0xE9] @ replicate (72 - length (label_bytes [0x45, 0x1F4BE, 0xE9])) 0)
     = Some [0x45, 0x1F4BE, 0xE9]"
  using label_roundtrip [of "[0x45, 0x1F4BE, 0xE9]"] by (simp add: is_scalar_def len_utf16_def)

end
