(* ===== verification/Partition.thy ===== *)
theory Partition
  imports Block_Device Utf16
begin

text \<open>
  The types the readers and writers of both table formats share: the crate's
  error type (\<open>error.rs\<close>), its layout constants (\<open>lib.rs\<close>), and the
  partition itself (\<open>probe.rs\<close>) with the functions that read its range:
  \<open>sector_span\<close>, \<open>available_on_device\<close> and \<open>is_bootable\<close>.

  A label is a Rust \<open>String\<close>: a list of Unicode scalar values.
\<close>

section \<open>Errors\<close>

datatype error =
    Block fs_error
  | Io string
  | NoPartitionTable
  | GptHeaderCrc
  | GptEntriesCrc
  | GptCorrupt string
  | MbrCorrupt string
  | GptBackupMismatch string
  | Invalid string
  | DeviceTooSmall
  | UnsupportedSectorSize string

text \<open>A \<open>?\<close> on a block-layer result lifts its error.\<close>

abbreviation lift_fs :: "fs_error + 'a \<Rightarrow> error + 'a" where
  "lift_fs \<equiv> map_err Block"

section \<open>Layout constants\<close>

definition SECTOR_SIZE :: u64 where [simp]: "SECTOR_SIZE = 512"
definition SECTOR_SIZE_USIZE :: nat where [simp]: "SECTOR_SIZE_USIZE = 512"

definition NUM_ENTRIES :: u32 where [simp]: "NUM_ENTRIES = 128"
definition ENTRY_SIZE :: u32 where [simp]: "ENTRY_SIZE = 128"
definition ENTRY_ARRAY_SECTORS :: u64 where
  "ENTRY_ARRAY_SECTORS = ucast NUM_ENTRIES * ucast ENTRY_SIZE div SECTOR_SIZE"
definition FIRST_USABLE_LBA :: u64 where
  "FIRST_USABLE_LBA = 2 + ENTRY_ARRAY_SECTORS"
definition BACKUP_RESERVE_SECTORS :: u64 where
  "BACKUP_RESERVE_SECTORS = ENTRY_ARRAY_SECTORS + 1"
definition HEADER_SIZE :: u32 where [simp]: "HEADER_SIZE = 92"
definition MBR_LBA_MAX :: u64 where [simp]: "MBR_LBA_MAX = 0xFFFFFFFF"

text \<open>A sector of zeros.\<close>

definition zero_sector :: "u8 list" where
  "zero_sector = replicate 512 0"

lemma length_zero_sector [simp]: "length zero_sector = 512"
  by (simp add: zero_sector_def)

lemma slice_zero_sector [simp]: "at + n \<le> 512 \<Longrightarrow> slice_of at n zero_sector = replicate n 0"
  by (simp add: zero_sector_def)

section \<open>Partitions\<close>

datatype table_kind = TkGpt | TkMbr

datatype partition_kind =
    Gpt (type_guid: "u8 list") (attributes: u64)
  | Mbr (type_byte: u8) (active: bool)
  | Whole

record partition =
  p_start :: u64
  p_length :: u64
  p_kind :: partition_kind
  p_label :: "ustring option"
  p_uuid :: "u8 list option"
  p_slot :: "u32 option"
  p_issues :: u32
  p_available_length :: u64

definition available_on_device :: "u64 \<Rightarrow> u64 \<Rightarrow> u64 \<Rightarrow> u64" where
  "available_on_device start len device_size =
     (if device_size = 0 then len
      else min len (saturating_sub device_size start))"

definition sector_span :: "partition \<Rightarrow> error + (u64 \<times> u64)" where
  "sector_span p =
     (if p_length p = 0 then Err (Invalid ''a partition has no last sector'')
      else rbind (ok_or (checked_add (p_start p) (p_length p))
             (Invalid ''a partition's start and length overflow a u64''))
        (\<lambda>e. let last = (e - 1) div SECTOR_SIZE in
           Ok (p_start p div SECTOR_SIZE, last)))"

definition EFI_SYSTEM :: "u8 list" where
  "EFI_SYSTEM = [0x28, 0x73, 0x2A, 0xC1, 0x1F, 0xF8, 0xD2, 0x11, 0xBA, 0x4B, 0x00, 0xA0,
     0xC9, 0x3E, 0xC9, 0x3B]"

definition LEGACY_BIOS_BOOTABLE :: u64 where
  "LEGACY_BIOS_BOOTABLE = push_bit 2 1"

definition is_bootable :: "partition \<Rightarrow> bool" where
  "is_bootable p = (case p_kind p of
     Mbr tb act \<Rightarrow> act
   | Gpt guid attrs \<Rightarrow> guid = EFI_SYSTEM \<or> (attrs AND LEGACY_BIOS_BOOTABLE) \<noteq> 0
   | Whole \<Rightarrow> False)"

section \<open>The range of a partition\<close>

text \<open>
  In natural numbers: the partition covers the bytes from \<open>start\<close> up to,
  not including, \<open>start + length\<close>; its span is the first and the last
  sector holding one of them.
\<close>

lemma sector_span_eq_Ok:
  "sector_span p = Ok (a, b) \<longleftrightarrow>
     0 < unat (p_length p) \<and> unat (p_start p) + unat (p_length p) < 2 ^ 64 \<and>
     unat a = unat (p_start p) div 512 \<and>
     unat b = (unat (p_start p) + unat (p_length p) - 1) div 512"
proof -
  have z: "p_length p = 0 \<longleftrightarrow> unat (p_length p) = 0"
    by (simp add: word_unat_eq_iff)
  have last: "unat ((p_start p + p_length p - 1) div 512)
      = (unat (p_start p) + unat (p_length p) - 1) div 512"
    if "0 < unat (p_length p)" "unat (p_start p) + unat (p_length p) < 2 ^ 64"
  proof -
    from that have s: "unat (p_start p + p_length p) = unat (p_start p) + unat (p_length p)"
      by (simp add: unat_add_lem [symmetric])
    then have "unat (p_start p + p_length p - 1) = unat (p_start p) + unat (p_length p) - 1"
      using that by (subst unat_sub) (auto simp: word_le_nat_alt)
    then show ?thesis by (simp add: unat_div_distrib)
  qed
  show ?thesis
  proof (cases "0 < unat (p_length p) \<and> unat (p_start p) + unat (p_length p) < 2 ^ 64")
    case True
    then have "sector_span p = Ok (p_start p div 512, (p_start p + p_length p - 1) div 512)"
      by (simp add: sector_span_def checked_add_def z)
    with True last show ?thesis by (auto simp: word_unat_eq_iff unat_div_distrib)
  next
    case False
    then have "\<exists>e. sector_span p = Err e"
      by (auto simp: sector_span_def checked_add_def z)
    with False show ?thesis by auto
  qed
qed

lemma sector_span_ordered: "sector_span p = Ok (a, b) \<Longrightarrow> a \<le> b"
  by (auto simp: sector_span_eq_Ok word_le_nat_alt intro: div_le_mono)

lemma sector_span_bound: "sector_span p = Ok (a, b) \<Longrightarrow> unat b < 2 ^ 55"
  by (auto simp: sector_span_eq_Ok)

text \<open>For a sector-aligned partition the span is exact at both ends.\<close>

lemma sector_span_aligned:
  assumes "sector_span p = Ok (a, b)" and "unat (p_start p) mod 512 = 0"
    and "unat (p_length p) mod 512 = 0"
  shows "unat (p_start p) = 512 * unat a" and "unat (p_length p) = 512 * (unat b - unat a + 1)"
proof -
  obtain s l where s: "unat (p_start p) = 512 * s" and l: "unat (p_length p) = 512 * l"
    using assms(2,3) by (auto elim!: dvdE simp: mod_eq_0_iff_dvd)
  have "0 < l" and a: "unat a = s" and b: "unat b = (512 * s + 512 * l - 1) div 512"
    using assms(1) by (auto simp: sector_span_eq_Ok s l)
  moreover have "(512 * s + 512 * l - 1) div 512 = s + l - 1"
    using \<open>0 < l\<close> by (intro div_nat_eqI) auto
  ultimately show "unat (p_start p) = 512 * unat a"
    and "unat (p_length p) = 512 * (unat b - unat a + 1)"
    using s l by auto
qed

section \<open>Ranges of sectors\<close>

text \<open>Two inclusive ranges share a sector.\<close>

definition overlapping :: "u64 \<times> u64 \<Rightarrow> u64 \<times> u64 \<Rightarrow> bool" where
  "overlapping x y \<longleftrightarrow> fst x \<le> snd y \<and> fst y \<le> snd x"

lemma overlapping_commute: "overlapping x y \<longleftrightarrow> overlapping y x"
  by (auto simp: overlapping_def)

lemma overlapping_iff_shared:
  assumes "fst x \<le> snd x" and "fst y \<le> snd y"
  shows "overlapping x y \<longleftrightarrow> {fst x..snd x} \<inter> {fst y..snd y} \<noteq> {}"
  using assms by (auto simp: overlapping_def)

text \<open>No two of a list of ranges share a sector.\<close>

definition disjoint_spans :: "(u64 \<times> u64) list \<Rightarrow> bool" where
  "disjoint_spans xs \<longleftrightarrow> sorted_wrt (\<lambda>x y. \<not> overlapping x y) xs"

lemma disjoint_spans_nth:
  "disjoint_spans xs \<longleftrightarrow>
     (\<forall>i < length xs. \<forall>j < length xs. i \<noteq> j \<longrightarrow> \<not> overlapping (xs ! i) (xs ! j))"
  by (auto simp: disjoint_spans_def sorted_wrt_iff_nth_less)
    (metis linorder_neqE_nat overlapping_commute)

lemma disjoint_spans_append:
  "disjoint_spans (xs @ ys) \<longleftrightarrow> disjoint_spans xs \<and> disjoint_spans ys \<and>
     (\<forall>x \<in> set xs. \<forall>y \<in> set ys. \<not> overlapping x y)"
  by (simp add: disjoint_spans_def sorted_wrt_append)

text \<open>\<open>spans.windows(2)\<close> with \<open>pair[1].0 <= pair[0].1\<close> somewhere.\<close>

fun neighbours_overlap :: "(u64 \<times> u64) list \<Rightarrow> bool" where
  "neighbours_overlap (a # b # xs) \<longleftrightarrow> fst b \<le> snd a \<or> neighbours_overlap (b # xs)"
| "neighbours_overlap _ \<longleftrightarrow> False"

lemma disjoint_spans_mset:
  assumes "mset xs = mset ys"
  shows "disjoint_spans xs \<longleftrightarrow> disjoint_spans ys"
proof -
  have *: "disjoint_spans xs \<longleftrightarrow> (\<forall>x \<in># mset xs. \<forall>y \<in># mset xs - {#x#}. \<not> overlapping x y)" for xs
  proof (induction xs)
    case Nil
    show ?case by (simp add: disjoint_spans_def)
  next
    case (Cons a xs)
    have "disjoint_spans (a # xs) \<longleftrightarrow> (\<forall>x \<in> set xs. \<not> overlapping a x) \<and> disjoint_spans xs"
      by (simp add: disjoint_spans_def)
    also have "\<dots> \<longleftrightarrow> (\<forall>x \<in># mset (a # xs). \<forall>y \<in># mset (a # xs) - {#x#}. \<not> overlapping x y)"
      unfolding Cons
      by (auto simp: overlapping_commute [of _ a] dest: in_diffD)
    finally show ?case .
  qed
  show ?thesis by (simp only: * assms)
qed

lemma sorted_disjoint:
  assumes "sorted xs" and "\<not> neighbours_overlap xs" and "\<forall>x \<in> set xs. fst x \<le> snd x"
  shows "disjoint_spans xs"
  using assms
proof (induction xs rule: neighbours_overlap.induct)
  case (1 a b xs)
  then have b: "snd a < fst b" and IH: "disjoint_spans (b # xs)" by auto
  have "snd a < fst x" if "x \<in> set (b # xs)" for x
  proof -
    have "b \<le> x" using 1(2) that by auto
    then have "fst b \<le> fst x" by (auto simp: less_eq_prod_def)
    then show ?thesis using b by simp
  qed
  then show ?case using IH
    by (auto simp: disjoint_spans_def overlapping_def not_le)
qed (simp_all add: disjoint_spans_def)

lemma disjoint_not_neighbours: "disjoint_spans xs \<Longrightarrow> sorted xs \<Longrightarrow> \<forall>x \<in> set xs. fst x \<le> snd x \<Longrightarrow>
    \<not> neighbours_overlap xs"
proof (induction xs rule: neighbours_overlap.induct)
  case (1 a b xs)
  have "fst a \<le> fst b" using 1(3) by (auto simp: less_eq_prod_def)
  then have "fst a \<le> snd b" using 1(4) by force
  then have "snd a < fst b" using 1(2) by (auto simp: disjoint_spans_def overlapping_def)
  then show ?case using 1 by (auto simp: disjoint_spans_def)
qed simp_all

definition span_of :: "partition \<Rightarrow> u64 \<times> u64" where
  "span_of p = (case sector_span p of Inr x \<Rightarrow> x | Inl e \<Rightarrow> (0, 0))"

lemma span_of_eq: "sector_span p = Ok x \<Longrightarrow> span_of p = x"
  by (simp add: span_of_def)

end
