(* ===== verification/Slots.thy ===== *)
theory Slots
  imports Partition
begin

text \<open>
  Slot assignment (\<open>gpt_write.rs\<close>, \<open>assign_slots\<close> and
  \<open>assign_slots_with_taken\<close>), used by both table writers: a partition with
  a recorded slot keeps it, one without takes the lowest free seat, and a
  collision, a seat past the table or a full table is refused.

  The lemmas give the complete behaviour: exactly when an assignment exists, and
  what it is.
\<close>

section \<open>The operations\<close>

text \<open>\<open>taken.get_mut(slot)\<close>, the check that the seat is free, and taking it.\<close>

definition claim_seat :: "string \<Rightarrow> bool list \<Rightarrow> u32 \<Rightarrow> error + bool list" where
  "claim_seat past taken slot =
     (if length taken \<le> unat slot then Err (Invalid past)
      else if taken ! unat slot then Err (Invalid ''two entries claim the same table slot'')
      else Ok (taken[unat slot := True]))"

fun claim_seats :: "string \<Rightarrow> bool list \<Rightarrow> u32 list \<Rightarrow> error + bool list" where
  "claim_seats past taken [] = Ok taken"
| "claim_seats past taken (s # ss) =
     rbind (claim_seat past taken s) (\<lambda>taken'. claim_seats past taken' ss)"

text \<open>\<open>while next_free < taken.len() && taken[next_free] { next_free += 1; }\<close>\<close>

function skip_taken :: "bool list \<Rightarrow> nat \<Rightarrow> nat" where
  "skip_taken taken next_free =
     (if next_free < length taken \<and> taken ! next_free
      then skip_taken taken (Suc next_free) else next_free)"
  by pat_completeness auto
termination
  by (relation "measure (\<lambda>(taken, next_free). length taken - next_free)") auto

declare skip_taken.simps [simp del]

fun place_all :: "bool list \<Rightarrow> nat \<Rightarrow> u32 option list \<Rightarrow> error + u32 list" where
  "place_all taken next_free [] = Ok []"
| "place_all taken next_free (Some slot # ps) =
     rbind (place_all taken next_free ps) (\<lambda>out. Ok (slot # out))"
| "place_all taken next_free (None # ps) =
     (let nf = skip_taken taken next_free in
      if nf = length taken then Err (Invalid ''no free slot left in the table'')
      else rbind (place_all (taken[nf := True]) nf ps) (\<lambda>out. Ok (of_nat nf # out)))"

definition assign_slots_with_taken ::
    "partition list \<Rightarrow> u32 \<Rightarrow> u32 list \<Rightarrow> error + u32 list" where
  "assign_slots_with_taken partitions num_entries pre_taken =
     rbind (claim_seats ''reserved entry slot past the end of the table''
              (replicate (unat num_entries) False) pre_taken)
       (\<lambda>taken. rbind (claim_seats ''partition slot past the end of the table'' taken
                        (List.map_filter p_slot partitions))
         (\<lambda>taken'. place_all taken' 0 (map p_slot partitions)))"

definition assign_slots :: "partition list \<Rightarrow> u32 \<Rightarrow> error + u32 list" where
  "assign_slots partitions num_entries = assign_slots_with_taken partitions num_entries []"

section \<open>Seats as a set\<close>

definition seats :: "bool list \<Rightarrow> nat set" where
  "seats taken = {i. i < length taken \<and> taken ! i}"

lemma seats_update [simp]: "n < length t \<Longrightarrow> seats (t[n := True]) = insert n (seats t)"
  by (auto simp: seats_def nth_list_update)

lemma seats_empty [simp]: "seats (replicate n False) = {}"
  by (auto simp: seats_def)

lemma finite_seats [simp]: "finite (seats t)"
  by (simp add: seats_def)

lemma seats_subset: "seats t \<subseteq> {..<length t}"
  by (auto simp: seats_def)

lemma seats_inject: "length t = length t' \<Longrightarrow> seats t = seats t' \<longleftrightarrow> t = t'"
proof
  assume l: "length t = length t'" and s: "seats t = seats t'"
  have "t ! i = t' ! i" if "i < length t" for i
  proof -
    have "t ! i \<longleftrightarrow> i \<in> seats t" and "t' ! i \<longleftrightarrow> i \<in> seats t'"
      using that l by (simp_all add: seats_def)
    then show ?thesis by (simp add: s)
  qed
  with l show "t = t'" by (rule nth_equalityI)
qed simp

lemma claim_seats_Ok:
  "claim_seats past t ss = Ok t' \<longleftrightarrow>
     length t' = length t \<and> seats t' = seats t \<union> unat ` set ss \<and>
     distinct ss \<and> (\<forall>s \<in> set ss. unat s < length t \<and> unat s \<notin> seats t)"
proof (induction ss arbitrary: t)
  case Nil
  show ?case using seats_inject [of t t'] by auto
next
  case (Cons s ss)
  have inj: "unat x = unat s \<longleftrightarrow> x = s" for x :: u32
    by (simp add: word_unat_eq_iff)
  show ?case
  proof (cases "unat s < length t \<and> unat s \<notin> seats t")
    case True
    then have "claim_seat past t s = Ok (t[unat s := True])"
      by (simp add: claim_seat_def seats_def)
    then show ?thesis using True by (auto simp: Cons.IH inj)
  next
    case False
    then have "\<exists>e. claim_seat past t s = Err e"
      by (auto simp: claim_seat_def seats_def)
    then show ?thesis using False by auto
  qed
qed

lemma skip_taken_spec:
  "n \<le> length t \<Longrightarrow>
     n \<le> skip_taken t n \<and> skip_taken t n \<le> length t \<and> {n..<skip_taken t n} \<subseteq> seats t \<and>
     (skip_taken t n < length t \<longrightarrow> skip_taken t n \<notin> seats t)"
proof (induction t n rule: skip_taken.induct)
  case (1 t n)
  show ?case
  proof (cases "n < length t \<and> t ! n")
    case True
    have "{n..<skip_taken t (Suc n)} \<subseteq> insert n {Suc n..<skip_taken t (Suc n)}"
      by auto
    with True 1 show ?thesis
      by (auto simp: skip_taken.simps [of t n] seats_def)
  next
    case False
    with 1 show ?thesis by (auto simp: skip_taken.simps [of t n] seats_def)
  qed
qed

section \<open>What an assignment is\<close>

text \<open>
  \<open>lowest_free used ps out\<close>: reading \<open>ps\<close> from left to right, each
  partition with a slot keeps it and each without takes the least seat not in use.
\<close>

fun lowest_free :: "nat set \<Rightarrow> u32 option list \<Rightarrow> nat list \<Rightarrow> bool" where
  "lowest_free used [] out \<longleftrightarrow> out = []"
| "lowest_free used (Some s # ps) out \<longleftrightarrow>
     (\<exists>out'. out = unat s # out' \<and> lowest_free used ps out')"
| "lowest_free used (None # ps) out \<longleftrightarrow>
     (\<exists>n out'. out = n # out' \<and> n \<notin> used \<and> {..<n} \<subseteq> used \<and> lowest_free (insert n used) ps out')"

lemma lowest_free_fresh:
  assumes "lowest_free used ps out" and "\<forall>s. Some s \<in> set ps \<longrightarrow> unat s \<in> used"
    and "distinct [s. Some s \<leftarrow> ps]"
  shows "distinct out \<and> set out \<inter> used \<subseteq> {unat s |s. Some s \<in> set ps}"
  using assms
proof (induction used ps out rule: lowest_free.induct)
  case (2 used s ps out)
  then obtain out' where o: "out = unat s # out'" and l: "lowest_free used ps out'" by auto
  have ns: "Some s \<notin> set ps"
    using 2(4) by (auto simp: image_iff)
  have "distinct out' \<and> set out' \<inter> used \<subseteq> {unat s |s. Some s \<in> set ps}"
    using 2(1) [OF l] 2(3,4) by auto
  moreover have "unat s \<notin> {unat t |t. Some t \<in> set ps}"
    using ns by (auto simp: word_unat_eq_iff [symmetric])
  ultimately show ?case using 2(3) o by auto
next
  case (3 used ps out)
  then obtain n out' where o: "out = n # out'" and n: "n \<notin> used"
    and l: "lowest_free (insert n used) ps out'" by auto
  have "distinct out' \<and> set out' \<inter> insert n used \<subseteq> {unat s |s. Some s \<in> set ps}"
    using 3(1) [OF l] 3(3,4) by auto
  moreover have "n \<notin> {unat s |s. Some s \<in> set ps}" using n 3(3) by auto
  ultimately show ?case using o n by auto
qed simp

lemma place_all_lowest_free:
  assumes "place_all t n ps = Ok out" and "n \<le> length t" and "{..<n} \<subseteq> seats t"
    and "length t < 2 ^ 32" and "\<forall>s. Some s \<in> set ps \<longrightarrow> unat s < length t"
  shows "lowest_free (seats t) ps (map unat out) \<and> (\<forall>s \<in> set out. unat s < length t)"
  using assms
proof (induction t n ps arbitrary: out rule: place_all.induct)
  case (3 t n ps)
  let ?nf = "skip_taken t n"
  have nf: "?nf \<le> length t" "{n..<?nf} \<subseteq> seats t" "?nf < length t \<longrightarrow> ?nf \<notin> seats t"
    using skip_taken_spec [OF 3(3)] by auto
  from 3(2) obtain out' where lt: "?nf < length t" and o: "out = of_nat ?nf # out'"
    and r: "place_all (t[?nf := True]) ?nf ps = Ok out'"
    using nf(1) by (auto simp: Let_def split: if_splits)
  have below: "{..<?nf} \<subseteq> seats t"
  proof
    fix x assume "x \<in> {..<?nf}"
    then show "x \<in> seats t" using 3(4) nf(2) by (cases "x < n") auto
  qed
  have u: "unat (of_nat ?nf :: u32) = ?nf"
    using lt 3(5) by (simp add: unat_of_nat)
  have "lowest_free (seats (t[?nf := True])) ps (map unat out')
      \<and> (\<forall>s \<in> set out'. unat s < length (t[?nf := True]))"
    using 3(1) [OF refl _ r] lt below 3(5,6) by auto
  then show ?case using o u lt nf(3) below by auto
qed auto

lemma place_all_total:
  assumes "n \<le> length t" and "{..<n} \<subseteq> seats t"
  shows "(\<exists>out. place_all t n ps = Ok out)
    \<longleftrightarrow> card (seats t) + length (filter (\<lambda>x. x = None) ps) \<le> length t"
  using assms
proof (induction t n ps rule: place_all.induct)
  case (1 t n)
  have "card (seats t) \<le> card {..<length t}"
    by (rule card_mono) (simp_all add: seats_subset)
  then show ?case by simp
next
  case (3 t n ps)
  let ?nf = "skip_taken t n"
  have nf: "?nf \<le> length t" "{n..<?nf} \<subseteq> seats t" "?nf < length t \<longrightarrow> ?nf \<notin> seats t"
    using skip_taken_spec [OF 3(2)] by auto
  have below: "{..<?nf} \<subseteq> seats t"
  proof
    fix x assume "x \<in> {..<?nf}"
    then show "x \<in> seats t" using 3(3) nf(2) by (cases "x < n") auto
  qed
  show ?case
  proof (cases "?nf = length t")
    case True
    then have "seats t = {..<length t}" using below seats_subset [of t] by auto
    then show ?thesis using True by (simp add: Let_def)
  next
    case False
    then have "?nf < length t" using nf(1) by simp
    then show ?thesis
      using 3(1) [OF refl False] below nf by (auto simp: Let_def)
  qed
qed auto

section \<open>When an assignment exists, and what it is\<close>

abbreviation recorded :: "partition list \<Rightarrow> u32 list" where
  "recorded parts \<equiv> List.map_filter p_slot parts"

lemma recorded_eq: "recorded parts = [s. Some s \<leftarrow> map p_slot parts]"
  by (induction parts) (auto simp: List.map_filter_simps split: option.splits)

lemma set_recorded: "s \<in> set (recorded parts) \<longleftrightarrow> Some s \<in> p_slot ` set parts"
  by (induction parts) (auto simp: List.map_filter_simps split: option.splits)

lemma length_recorded:
  "length (recorded parts) + length (filter (\<lambda>x. x = None) (map p_slot parts)) = length parts"
  by (induction parts) (auto simp: List.map_filter_simps split: option.splits)

definition slots_available :: "partition list \<Rightarrow> u32 \<Rightarrow> u32 list \<Rightarrow> bool" where
  "slots_available parts n pre \<longleftrightarrow>
     distinct (pre @ recorded parts) \<and> (\<forall>s \<in> set (pre @ recorded parts). s < n) \<and>
     length pre + length parts \<le> unat n"

lemma claims_seats_Ok:
  "claim_seats p1 (replicate (unat n) False) pre = Ok t \<and> claim_seats p2 t rec = Ok t' \<longleftrightarrow>
     length t = unat n \<and> length t' = unat n \<and> seats t = unat ` set pre \<and>
     seats t' = unat ` set (pre @ rec) \<and> distinct (pre @ rec) \<and> (\<forall>s \<in> set (pre @ rec). s < n)"
proof -
  have "unat s \<notin> unat ` set pre \<longleftrightarrow> s \<notin> set pre" for s :: u32
    by (auto simp: word_unat_eq_iff [symmetric])
  then show ?thesis by (auto simp: claim_seats_Ok image_Un word_less_nat_alt)
qed

lemma card_seats_claimed:
  "distinct (xs :: u32 list) \<Longrightarrow> card (unat ` set xs) = length xs"
  by (simp add: card_image distinct_card inj_on_def word_unat_eq_iff [symmetric])

lemma assign_slots_total:
  "(\<exists>out. assign_slots_with_taken parts n pre = Ok out) \<longleftrightarrow> slots_available parts n pre"
proof
  assume "\<exists>out. assign_slots_with_taken parts n pre = Ok out"
  then obtain t t' out where c: "claim_seats ''reserved entry slot past the end of the table''
        (replicate (unat n) False) pre = Ok t
      \<and> claim_seats ''partition slot past the end of the table'' t (recorded parts) = Ok t'"
    and p: "place_all t' 0 (map p_slot parts) = Ok out"
    by (auto simp: assign_slots_with_taken_def)
  from c have t': "length t' = unat n" "seats t' = unat ` set (pre @ recorded parts)"
    and ok: "distinct (pre @ recorded parts)" "\<forall>s \<in> set (pre @ recorded parts). s < n"
    unfolding claims_seats_Ok by auto
  have "card (seats t') = length pre + length (recorded parts)"
    using ok(1) by (simp only: t'(2) card_seats_claimed length_append)
  then show "slots_available parts n pre"
    using p place_all_total [of 0 t' "map p_slot parts"] length_recorded [of parts] ok t'(1)
    by (auto simp: slots_available_def)
next
  assume av: "slots_available parts n pre"
  let ?t = "map (\<lambda>i. i \<in> unat ` set pre) [0..<unat n]"
  let ?t' = "map (\<lambda>i. i \<in> unat ` set (pre @ recorded parts)) [0..<unat n]"
  have lt: "unat ` set (pre @ recorded parts) \<subseteq> {..<unat n}"
    using av by (auto simp: slots_available_def word_less_nat_alt)
  have c: "claim_seats p1 (replicate (unat n) False) pre = Ok ?t
      \<and> claim_seats p2 ?t (recorded parts) = Ok ?t'" for p1 p2
    unfolding claims_seats_Ok using av lt by (auto simp: slots_available_def seats_def)
  have s: "seats ?t' = unat ` set (pre @ recorded parts)"
    using lt by (auto simp: seats_def)
  have "card (seats ?t') = length pre + length (recorded parts)"
    using av by (simp only: s card_seats_claimed slots_available_def length_append)
  then have "\<exists>out. place_all ?t' 0 (map p_slot parts) = Ok out"
    using av length_recorded [of parts]
    by (simp add: place_all_total slots_available_def)
  then show "\<exists>out. assign_slots_with_taken parts n pre = Ok out"
    using c by (auto simp: assign_slots_with_taken_def)
qed

lemma assign_slots_spec:
  assumes "assign_slots_with_taken parts n pre = Ok out"
  shows "lowest_free (unat ` set (pre @ recorded parts)) (map p_slot parts) (map unat out)"
    and "\<forall>s \<in> set out. s < n"
proof -
  from assms obtain t t' where c: "claim_seats ''reserved entry slot past the end of the table''
        (replicate (unat n) False) pre = Ok t
      \<and> claim_seats ''partition slot past the end of the table'' t (recorded parts) = Ok t'"
    and p: "place_all t' 0 (map p_slot parts) = Ok out"
    by (auto simp: assign_slots_with_taken_def)
  from c have t': "length t' = unat n" "seats t' = unat ` set (pre @ recorded parts)"
    and ok: "\<forall>s \<in> set (pre @ recorded parts). s < n"
    unfolding claims_seats_Ok by auto
  have "\<forall>s. Some s \<in> set (map p_slot parts) \<longrightarrow> unat s < length t'"
    using ok set_recorded [of _ parts] t'(1) by (auto simp: word_less_nat_alt)
  then show "lowest_free (unat ` set (pre @ recorded parts)) (map p_slot parts) (map unat out)"
    and "\<forall>s \<in> set out. s < n"
    using place_all_lowest_free [OF p] t' unat_lt [of n] by (auto simp: word_less_nat_alt)
qed

lemma lowest_free_length: "lowest_free used ps out \<Longrightarrow> length out = length ps"
  by (induction used ps out rule: lowest_free.induct) auto

lemma lowest_free_keeps:
  "lowest_free used ps out \<Longrightarrow> i < length ps \<Longrightarrow> ps ! i = Some s \<Longrightarrow> out ! i = unat s"
  by (induction used ps out arbitrary: i rule: lowest_free.induct)
    (auto simp: nth_Cons split: nat.splits)

lemma lowest_free_least:
  "lowest_free used ps out \<Longrightarrow> i < length ps \<Longrightarrow> ps ! i = None \<Longrightarrow>
     out ! i \<notin> used \<and> {..<out ! i} \<subseteq> used \<union> set (take i out)"
  by (induction used ps out arbitrary: i rule: lowest_free.induct)
    (fastforce simp: nth_Cons split: nat.splits)+

lemma recorded_all: "map p_slot qs = map Some out \<Longrightarrow> recorded qs = out"
  by (induction qs arbitrary: out) (auto simp: List.map_filter_simps)

section \<open>What an assignment promises\<close>

text \<open>
  The contract the table writers and the editor rely on: when there is an assignment, and that
  it is the one from left to right that keeps recorded slots and takes the lowest free seats.
\<close>

locale slot_assignment =
  fixes assign :: "partition list \<Rightarrow> u32 \<Rightarrow> u32 list \<Rightarrow> error + u32 list"
  assumes assign_exists: "(\<exists>out. assign parts n pre = Ok out) \<longleftrightarrow> slots_available parts n pre"
    and assign_lowest: "assign parts n pre = Ok out \<Longrightarrow>
      lowest_free (unat ` set (pre @ recorded parts)) (map p_slot parts) (map unat out)"
    and assign_bound: "assign parts n pre = Ok out \<Longrightarrow> s \<in> set out \<Longrightarrow> s < n"
begin

lemma assigned:
  assumes "assign parts n pre = Ok out"
  shows "length out = length parts"
    and "distinct out"
    and "set out \<inter> set pre = {}"
    and "\<And>s. s \<in> set out \<Longrightarrow> s < n"
    and "\<And>i s. i < length parts \<Longrightarrow> p_slot (parts ! i) = Some s \<Longrightarrow> out ! i = s"
proof -
  have av: "slots_available parts n pre"
    using assms assign_exists by blast
  note lf = assign_lowest [OF assms]
  show len: "length out = length parts"
    using lowest_free_length [OF lf] by simp
  show "\<And>s. s \<in> set out \<Longrightarrow> s < n"
    using assign_bound [OF assms] .
  have fresh: "distinct (map unat out) \<and> set (map unat out) \<inter> unat ` set (pre @ recorded parts)
      \<subseteq> {unat s |s. Some s \<in> set (map p_slot parts)}"
  proof (rule lowest_free_fresh [OF lf])
    show "\<forall>s. Some s \<in> set (map p_slot parts) \<longrightarrow> unat s \<in> unat ` set (pre @ recorded parts)"
      using set_recorded [of _ parts] by auto
    show "distinct [s. Some s \<leftarrow> map p_slot parts]"
      using av unfolding recorded_eq [symmetric] by (simp add: slots_available_def)
  qed
  then show "distinct out" by (simp add: distinct_map)
  show "out ! i = s" if "i < length parts" "p_slot (parts ! i) = Some s" for i s
    using lowest_free_keeps [OF lf, of i s] that len by (simp add: word_unat_eq_iff [symmetric])
  show "set out \<inter> set pre = {}"
  proof (rule ccontr)
    assume "set out \<inter> set pre \<noteq> {}"
    then obtain s where s: "s \<in> set out" "s \<in> set pre" by auto
    then have "unat s \<in> {unat s |s. Some s \<in> set (map p_slot parts)}"
      using fresh by auto
    then have "s \<in> set (recorded parts)"
      by (auto simp: word_unat_eq_iff [symmetric] set_recorded)
    with s av show False by (auto simp: slots_available_def)
  qed
qed

text \<open>Once the slots are recorded, assigning again gives the same ones.\<close>

lemma assign_again:
  assumes "assign parts n pre = Ok out" and "map p_slot qs = map Some out"
  shows "slots_available qs n pre" and "assign qs n pre = Ok out"
proof -
  note f = assigned [OF assms(1)]
  have "slots_available parts n pre" using assms(1) assign_exists by blast
  moreover have len: "length qs = length out" using assms(2) by (metis length_map)
  ultimately show av: "slots_available qs n pre"
    using f(1-4) recorded_all [OF assms(2)] by (auto simp: slots_available_def)
  then obtain out' where o: "assign qs n pre = Ok out'" using assign_exists by blast
  have "out' ! i = out ! i" if "i < length qs" for i
    using assigned(5) [OF o that] nth_map [of i qs p_slot] that len assms(2) by simp
  then have "out' = out" using assigned(1) [OF o] len by (intro nth_equalityI) simp_all
  then show "assign qs n pre = Ok out" using o by simp
qed

end

interpretation taken_slots: slot_assignment assign_slots_with_taken
  by unfold_locales (use assign_slots_total assign_slots_spec in blast)+

lemmas assign_slots_facts = taken_slots.assigned

end
