(* ===== verification/Gpt.thy ===== *)
theory Gpt
  imports Slots
begin

text \<open>
  The GPT reader (\<open>gpt.rs\<close>): the header and its checks, the entry array, the
  rules an entry may break, the backup copy at the end of the disk and its
  comparison with the primary, and the bytes past the standard part of an entry.

  \<open>crc32fast::hash\<close> is a parameter \<open>crc\<close> of the definitions that call it.
\<close>

section \<open>Constants\<close>

definition SIGNATURE :: "u8 list" where
  "SIGNATURE = [0x45, 0x46, 0x49, 0x20, 0x50, 0x41, 0x52, 0x54]"

definition HDR_SIGNATURE :: nat where [simp]: "HDR_SIGNATURE = 0"
definition HDR_REVISION :: nat where [simp]: "HDR_REVISION = 8"
definition HDR_HEADER_SIZE :: nat where [simp]: "HDR_HEADER_SIZE = 12"
definition HDR_HEADER_CRC32 :: nat where [simp]: "HDR_HEADER_CRC32 = 16"
definition HDR_MY_LBA :: nat where [simp]: "HDR_MY_LBA = 24"
definition HDR_ALTERNATE_LBA :: nat where [simp]: "HDR_ALTERNATE_LBA = 32"
definition HDR_FIRST_USABLE_LBA :: nat where [simp]: "HDR_FIRST_USABLE_LBA = 40"
definition HDR_LAST_USABLE_LBA :: nat where [simp]: "HDR_LAST_USABLE_LBA = 48"
definition HDR_DISK_GUID :: nat where [simp]: "HDR_DISK_GUID = 56"
definition HDR_PARTITION_ENTRY_LBA :: nat where [simp]: "HDR_PARTITION_ENTRY_LBA = 72"
definition HDR_NUM_PARTITION_ENTRIES :: nat where [simp]: "HDR_NUM_PARTITION_ENTRIES = 80"
definition HDR_PARTITION_ENTRY_SIZE :: nat where [simp]: "HDR_PARTITION_ENTRY_SIZE = 84"
definition HDR_PARTITION_ENTRY_ARRAY_CRC32 :: nat where [simp]: "HDR_PARTITION_ENTRY_ARRAY_CRC32 = 88"

definition UNUSED :: "u8 list" where "UNUSED = replicate 16 0"
definition MICROSOFT_BASIC_DATA :: "u8 list" where
  "MICROSOFT_BASIC_DATA = [0xA2, 0xA0, 0xD0, 0xEB, 0xE5, 0xB9, 0x33, 0x44, 0x87, 0xC0, 0x68, 0xB6,
     0xB7, 0x26, 0x99, 0xC7]"
definition LINUX_FILESYSTEM :: "u8 list" where
  "LINUX_FILESYSTEM = [0xAF, 0x3D, 0xC6, 0x0F, 0x83, 0x84, 0x72, 0x47, 0x8E, 0x79, 0x3D, 0x69,
     0xD8, 0x47, 0x7D, 0xE4]"
definition LINUX_SWAP :: "u8 list" where
  "LINUX_SWAP = [0x6D, 0xFD, 0x57, 0x06, 0xAB, 0xA4, 0xC4, 0x43, 0x84, 0xE5, 0x09, 0x33, 0xC8,
     0x4B, 0x4F, 0x4F]"
definition APPLE_HFS_PLUS :: "u8 list" where
  "APPLE_HFS_PLUS = [0x00, 0x53, 0x46, 0x48, 0x00, 0x00, 0xAA, 0x11, 0xAA, 0x11, 0x00, 0x30,
     0x65, 0x43, 0xEC, 0xAC]"
definition APPLE_APFS :: "u8 list" where
  "APPLE_APFS = [0xEF, 0x57, 0x34, 0x7C, 0x00, 0x00, 0xAA, 0x11, 0xAA, 0x11, 0x00, 0x30, 0x65,
     0x43, 0xEC, 0xAC]"

section \<open>The rules an entry may break\<close>

definition ISSUE_NONE :: u32 where [simp]: "ISSUE_NONE = 0"
definition BEFORE_FIRST_USABLE :: u32 where [simp]: "BEFORE_FIRST_USABLE = 1"
definition PAST_LAST_USABLE :: u32 where [simp]: "PAST_LAST_USABLE = 2"
definition OVERLAPS_ANOTHER :: u32 where [simp]: "OVERLAPS_ANOTHER = 4"
definition ALL_ISSUES :: u32 where
  "ALL_ISSUES = BEFORE_FIRST_USABLE OR PAST_LAST_USABLE OR OVERLAPS_ANOTHER"

fun join_strings :: "string \<Rightarrow> string list \<Rightarrow> string" where
  "join_strings sep [] = ''''"
| "join_strings sep [x] = x"
| "join_strings sep (x # y # ys) = x @ sep @ join_strings sep (y # ys)"

definition describe :: "u32 \<Rightarrow> string" where
  "describe issues =
     (let parts = (if issues AND BEFORE_FIRST_USABLE \<noteq> 0 then [''starts before the first usable LBA''] else [])
            @ (if issues AND PAST_LAST_USABLE \<noteq> 0 then [''ends past the last usable LBA''] else [])
            @ (if issues AND OVERLAPS_ANOTHER \<noteq> 0 then [''overlaps another partition''] else [])
      in if parts = [] then ''no issues'' else join_strings '', '' parts)"

definition range_issues :: "u64 \<Rightarrow> u64 \<Rightarrow> u64 \<Rightarrow> u64 \<Rightarrow> u32" where
  "range_issues start_lba end_lba first_usable last_usable =
     (if start_lba < first_usable then BEFORE_FIRST_USABLE else ISSUE_NONE)
     OR (if start_lba > last_usable \<or> end_lba > last_usable then PAST_LAST_USABLE else 0)"

type_synonym mark_state = "bool list \<times> (nat \<times> u64) option"

definition mark_step :: "(u64 \<times> u64) list \<Rightarrow> nat \<Rightarrow> mark_state \<Rightarrow> mark_state" where
  "mark_step spans i = (\<lambda>(flags, highest_end).
     ((case highest_end of
         Some (j, e) \<Rightarrow> if fst (spans ! i) \<le> e then flags[i := True, j := True] else flags
       | None \<Rightarrow> flags),
      (case highest_end of
         Some (j, e) \<Rightarrow> if e \<ge> snd (spans ! i) then highest_end else Some (i, snd (spans ! i))
       | None \<Rightarrow> Some (i, snd (spans ! i)))))"

definition mark_overlaps :: "(u64 \<times> u64) list \<Rightarrow> bool list" where
  "mark_overlaps spans =
     (let order = sort_key (\<lambda>i. fst (spans ! i)) [0..<length spans]
      in fst (fold (mark_step spans) order (replicate (length spans) False, None)))"

section \<open>The header\<close>

record header =
  my_lba :: u64
  alternate_lba :: u64
  first_usable_lba :: u64
  last_usable_lba :: u64
  disk_guid :: "u8 list"
  partition_entry_lba :: u64
  num_partition_entries :: u32
  partition_entry_size :: u32
  partition_entry_array_crc32 :: u32
  header_crc32 :: u32
  header_size :: u32

definition parse_header_block :: "(u8 list \<Rightarrow> u32) \<Rightarrow> u8 list \<Rightarrow> error + header" where
  "parse_header_block crc sector =
     (if length sector < 512 then Err (GptCorrupt ''header block shorter than a sector'')
      else if slice_of HDR_SIGNATURE 8 sector \<noteq> SIGNATURE
      then Err (GptCorrupt ''missing EFI PART signature'')
      else let hsize = le32 sector HDR_HEADER_SIZE in
        if \<not> (92 \<le> unat hsize \<and> unat hsize \<le> length sector)
        then Err (GptCorrupt ''header_size out of range'')
        else let stored = le32 sector HDR_HEADER_CRC32;
                 for_crc = copy_at HDR_HEADER_CRC32 [0, 0, 0, 0] (take (unat hsize) sector)
             in if crc for_crc \<noteq> stored then Err GptHeaderCrc
        else if drop_bit 16 (le32 sector HDR_REVISION) \<noteq> 1
        then Err (GptCorrupt ''unsupported GPT header revision'')
        else let esize = le32 sector HDR_PARTITION_ENTRY_SIZE;
                 entries = le32 sector HDR_NUM_PARTITION_ENTRIES
             in if \<not> (128 \<le> esize \<and> esize \<le> 4096)
                then Err (GptCorrupt ''partition_entry_size out of range'')
                else if \<not> is_multiple_of esize 128 \<or> \<not> is_power_of_two (esize div 128)
                then Err (GptCorrupt ''partition_entry_size is not 128 times a power of two'')
                else if entries > 4096 then Err (GptCorrupt ''num_partition_entries > 4096'')
                else Ok \<lparr>my_lba = le64 sector HDR_MY_LBA,
                       alternate_lba = le64 sector HDR_ALTERNATE_LBA,
                       first_usable_lba = le64 sector HDR_FIRST_USABLE_LBA,
                       last_usable_lba = le64 sector HDR_LAST_USABLE_LBA,
                       disk_guid = slice_of HDR_DISK_GUID 16 sector,
                       partition_entry_lba = le64 sector HDR_PARTITION_ENTRY_LBA,
                       num_partition_entries = entries,
                       partition_entry_size = esize,
                       partition_entry_array_crc32 = le32 sector HDR_PARTITION_ENTRY_ARRAY_CRC32,
                       header_crc32 = stored,
                       header_size = hsize\<rparr>)"

definition parse_header :: "(u8 list \<Rightarrow> u32) \<Rightarrow> u8 list \<Rightarrow> error + header" where
  "parse_header crc sector = parse_header_block crc sector"

section \<open>The entry array\<close>

definition ENTRY_STANDARD_BYTES :: nat where [simp]: "ENTRY_STANDARD_BYTES = 128"

text \<open>
  One round of the loop over the entries: nothing for an unused one, otherwise
  the partition, with its issues still to be filled in, and its sectors.
\<close>

definition parse_gpt_entry ::
    "u8 list \<Rightarrow> nat \<Rightarrow> u64 \<Rightarrow> nat \<Rightarrow> error + (partition \<times> u64 \<times> u64) option" where
  "parse_gpt_entry arr entry_size dev_size i =
     (let off = i * entry_size;
          guid = slice_of off 16 arr
      in if guid = UNUSED then Ok None
         else let unique_guid = slice_of (off + 16) 16 arr;
                  start_lba = le64 arr (off + 32);
                  end_lba = le64 arr (off + 40)
              in if end_lba < start_lba then Err (GptCorrupt ''ending_lba < starting_lba'')
                 else let attrs = le64 arr (off + 48) in
                   rbind (ok_or (checked_mul start_lba SECTOR_SIZE)
                       (GptCorrupt ''starting_lba overflows a byte offset'')) (\<lambda>start.
                   rbind (ok_or (Option.bind (checked_sub end_lba start_lba) (\<lambda>n. checked_add n 1))
                       (GptCorrupt ''partition sector count overflows'')) (\<lambda>sectors.
                   rbind (ok_or (checked_mul sectors SECTOR_SIZE)
                       (GptCorrupt ''partition length overflows a byte count'')) (\<lambda>len.
                   Ok (Some (\<lparr>p_start = start, p_length = len, p_kind = Gpt guid attrs,
                      p_label = parse_utf16_label (slice_of (off + 56) 72 arr),
                      p_uuid = Some unique_guid, p_slot = Some (of_nat i), p_issues = ISSUE_NONE,
                      p_available_length = available_on_device start len dev_size\<rparr>,
                      start_lba, end_lba))))))"

definition flag_ranges :: "header \<Rightarrow> (partition \<times> u64 \<times> u64) list \<Rightarrow> partition list" where
  "flag_ranges h = map (\<lambda>(p, a, b).
     p\<lparr>p_issues := range_issues a b (first_usable_lba h) (last_usable_lba h)\<rparr>)"

definition flag_overlaps :: "bool list \<Rightarrow> partition list \<Rightarrow> partition list" where
  "flag_overlaps marks ps = map2 (\<lambda>p overlaps.
     if overlaps then p\<lparr>p_issues := p_issues p OR OVERLAPS_ANOTHER\<rparr> else p) ps marks"

definition parse_entry_array ::
    "(u8 list \<Rightarrow> u32) \<Rightarrow> ('d, 'x) block_read_scheme \<Rightarrow> 'd \<Rightarrow> header \<Rightarrow> error + (partition list \<times> u8 list)" where
  "parse_entry_array crc rd d h =
     (let array_bytes = ucast (num_partition_entries h) * ucast (partition_entry_size h) :: u64 in
      rbind (ok_or (checked_mul (partition_entry_lba h) SECTOR_SIZE)
        (GptCorrupt ''partition_entry_lba overflows a byte offset'')) (\<lambda>array_offset.
      rbind (ok_or (checked_add array_offset array_bytes)
        (GptCorrupt ''partition entry array overflows'')) (\<lambda>array_end.
      let dev_size = size_bytes rd d in
      if dev_size \<noteq> 0 \<and> array_end > dev_size
      then Err (GptCorrupt ''partition entry array reaches past the end of the device'')
      else rbind (lift_fs (read_at rd d array_offset (unat array_bytes))) (\<lambda>arr.
        if crc arr \<noteq> partition_entry_array_crc32 h then Err GptEntriesCrc
        else rbind (traverse (parse_gpt_entry arr (unat (partition_entry_size h)) dev_size)
               [0..<unat (num_partition_entries h)]) (\<lambda>entries.
          let found = List.map_filter id entries
          in Ok (flag_overlaps (mark_overlaps (map snd found)) (flag_ranges h found), arr))))))"

definition gpt_parse ::
    "(u8 list \<Rightarrow> u32) \<Rightarrow> ('d, 'x) block_read_scheme \<Rightarrow> 'd \<Rightarrow> u8 list \<Rightarrow> error + partition list" where
  "gpt_parse crc rd d lba1 =
     rbind (parse_header crc lba1) (\<lambda>h.
       if my_lba h \<noteq> 1 then Err (GptCorrupt ''primary header my_lba != 1'')
       else rbind (parse_entry_array crc rd d h) (\<lambda>(parts, _). Ok parts))"

section \<open>Entry tails\<close>

type_synonym entry_tail_map = "u8 list \<rightharpoonup> u8 list"

fun collect_tails :: "u8 list \<Rightarrow> nat \<Rightarrow> entry_tail_map \<Rightarrow> partition list \<Rightarrow> error + entry_tail_map" where
  "collect_tails arr entry_size out [] = Ok out"
| "collect_tails arr entry_size out (p # ps) =
     (case (p_uuid p, p_slot p) of
        (Some uuid, Some slot) \<Rightarrow>
          (let off = unat slot * entry_size;
               tail = slice_of (off + ENTRY_STANDARD_BYTES) (entry_size - ENTRY_STANDARD_BYTES) arr
           in case out uuid of
                Some kept \<Rightarrow>
                  if kept \<noteq> tail
                  then Err (GptCorrupt ''two entries share a unique partition GUID and carry different entry tails, which a rewrite cannot keep apart'')
                  else collect_tails arr entry_size out ps
              | None \<Rightarrow> collect_tails arr entry_size (out(uuid \<mapsto> tail)) ps)
      | _ \<Rightarrow> collect_tails arr entry_size out ps)"

definition entry_tails ::
    "(u8 list \<Rightarrow> u32) \<Rightarrow> ('d, 'x) block_read_scheme \<Rightarrow> 'd \<Rightarrow> header \<Rightarrow> error + entry_tail_map" where
  "entry_tails crc rd d h =
     (let entry_size = unat (partition_entry_size h) in
      if entry_size \<le> ENTRY_STANDARD_BYTES then Ok Map.empty
      else rbind (parse_entry_array crc rd d h)
        (\<lambda>(parts, arr). collect_tails arr entry_size Map.empty parts))"

section \<open>The backup copy\<close>

datatype backup_status = BackupOk | Mismatch string

definition parse_backup :: "(u8 list \<Rightarrow> u32) \<Rightarrow> ('d, 'x) block_read_scheme \<Rightarrow> 'd \<Rightarrow> error + partition list" where
  "parse_backup crc rd d =
     (let total_bytes = size_bytes rd d in
      if total_bytes < 2 * SECTOR_SIZE then Err (GptCorrupt ''device too small for GPT backup'')
      else let last_lba = total_bytes div SECTOR_SIZE - 1 in
        rbind (lift_fs (read_at rd d (last_lba * SECTOR_SIZE) SECTOR_SIZE_USIZE)) (\<lambda>sector.
        rbind (parse_header crc sector) (\<lambda>h.
        if my_lba h \<noteq> last_lba then Err (GptCorrupt ''backup my_lba != last LBA'')
        else rbind (parse_entry_array crc rd d h) (\<lambda>(parts, _). Ok parts))))"

fun compare_backup :: "(partition \<times> partition) list \<Rightarrow> backup_status" where
  "compare_backup [] = BackupOk"
| "compare_backup ((pa, pb) # rest) =
     (if p_start pa \<noteq> p_start pb \<or> p_length pa \<noteq> p_length pb then Mismatch ''partition range differs''
      else if p_uuid pa \<noteq> p_uuid pb then Mismatch ''partition uuid differs''
      else if p_kind pa \<noteq> p_kind pb then Mismatch ''partition type differs''
      else if p_slot pa \<noteq> p_slot pb then Mismatch ''partition slot differs''
      else if p_label pa \<noteq> p_label pb then Mismatch ''partition label differs''
      else compare_backup rest)"

definition validate_backup ::
    "(u8 list \<Rightarrow> u32) \<Rightarrow> ('d, 'x) block_read_scheme \<Rightarrow> 'd \<Rightarrow> partition list \<Rightarrow> backup_status" where
  "validate_backup crc rd d primary =
     (case parse_backup crc rd d of
        Inl (GptCorrupt _) \<Rightarrow> Mismatch ''backup header corrupt''
      | Inl GptHeaderCrc \<Rightarrow> Mismatch ''backup header CRC''
      | Inl GptEntriesCrc \<Rightarrow> Mismatch ''backup entries CRC''
      | Inl _ \<Rightarrow> Mismatch ''backup unreadable''
      | Inr backup \<Rightarrow>
          if length backup \<noteq> length primary then Mismatch ''partition count differs''
          else compare_backup (zip (sort_key p_start primary) (sort_key p_start backup)))"

section \<open>The overlap marks are the definition of overlap\<close>

text \<open>
  What holds after the entries \<open>seen\<close>, visited in the order of their first
  sectors: the marks are right among them, and the pair carried along is the one
  with the highest last sector.
\<close>

definition mark_inv :: "(u64 \<times> u64) list \<Rightarrow> nat list \<Rightarrow> mark_state \<Rightarrow> bool" where
  "mark_inv spans seen = (\<lambda>(flags, highest).
     length flags = length spans \<and>
     (\<forall>k < length spans. flags ! k \<longleftrightarrow>
        k \<in> set seen \<and> (\<exists>j \<in> set seen. j \<noteq> k \<and> overlapping (spans ! k) (spans ! j))) \<and>
     (case highest of
        None \<Rightarrow> seen = []
      | Some (j, e) \<Rightarrow> j \<in> set seen \<and> e = snd (spans ! j) \<and> (\<forall>k \<in> set seen. snd (spans ! k) \<le> e)))"

text \<open>
  One step of the sweep: the span \<open>i\<close>, which starts last so far, meets a span seen before just
  when it meets the one that reaches highest, and then both are marked.
\<close>

lemma mark_flags_step:
  assumes len: "length flags = length spans"
    and fl: "\<And>k. k < length spans \<Longrightarrow> flags ! k \<longleftrightarrow>
        k \<in> set seen \<and> (\<exists>j \<in> set seen. j \<noteq> k \<and> overlapping (spans ! k) (spans ! j))"
    and i: "i < length spans" "i \<notin> set seen" and oi: "fst (spans ! i) \<le> snd (spans ! i)"
    and seen: "\<forall>k \<in> set seen. k < length spans \<and> fst (spans ! k) \<le> fst (spans ! i)"
    and j: "j \<in> set seen" and top: "\<forall>k \<in> set seen. snd (spans ! k) \<le> snd (spans ! j)" and k: "k < length spans"
  shows "(if fst (spans ! i) \<le> snd (spans ! j) then flags[i := True, j := True] else flags) ! k \<longleftrightarrow>
    k \<in> set (seen @ [i]) \<and> (\<exists>j \<in> set (seen @ [i]). j \<noteq> k \<and> overlapping (spans ! k) (spans ! j))"
proof -
  have ov: "overlapping (spans ! i) (spans ! k) \<longleftrightarrow> fst (spans ! i) \<le> snd (spans ! k)" if "k \<in> set seen" for k
    using that seen oi by (auto simp: overlapping_def)
  have hit: "(\<exists>k \<in> set seen. fst (spans ! i) \<le> snd (spans ! k)) \<longleftrightarrow> fst (spans ! i) \<le> snd (spans ! j)"
    using j top order_trans by blast
  have jn: "j < length spans" "j \<noteq> i" using j seen i(2) by auto
  have new: "(\<exists>j \<in> set (seen @ [i]). j \<noteq> k \<and> overlapping (spans ! k) (spans ! j)) \<longleftrightarrow>
      (\<exists>j \<in> set seen. j \<noteq> k \<and> overlapping (spans ! k) (spans ! j)) \<or> fst (spans ! i) \<le> snd (spans ! k)"
    if "k \<in> set seen" for k
    using that ov [OF that] i(2) by (auto simp: overlapping_commute [of "spans ! k"])
  consider "k = i" | "k = j" | "k \<in> set seen" "k \<noteq> j" | "k \<notin> set seen" "k \<noteq> i" by blast
  then show ?thesis
  proof cases
    case 1
    have "(\<exists>j \<in> set (seen @ [i]). j \<noteq> i \<and> overlapping (spans ! i) (spans ! j)) \<longleftrightarrow> fst (spans ! i) \<le> snd (spans ! j)"
      unfolding hit [symmetric] using ov i(2) by fastforce
    then show ?thesis using 1 i fl [OF i(1)] len jn by (simp add: nth_list_update)
  next
    case 2
    then show ?thesis unfolding 2 new [OF j] using j fl [OF jn(1)] len jn by (simp add: nth_list_update)
  next
    case 3
    have "overlapping (spans ! k) (spans ! j)" if "fst (spans ! i) \<le> snd (spans ! k)"
      using that 3 j top seen by (meson order_trans overlapping_def)
    moreover have "k \<noteq> i" using 3 i(2) by blast
    ultimately show ?thesis unfolding new [OF 3(1)] using 3 fl [OF k] len j by (auto simp: nth_list_update)
  next
    case 4
    then have "k \<noteq> j" using j by blast
    then show ?thesis using 4 fl [OF k] by simp
  qed
qed

lemma mark_step_inv:
  assumes inv: "mark_inv spans seen st" and i: "i < length spans" "i \<notin> set seen"
    and seen: "\<forall>k \<in> set seen. k < length spans \<and> fst (spans ! k) \<le> fst (spans ! i)"
    and ord: "\<forall>x \<in> set spans. fst x \<le> snd x"
  shows "mark_inv spans (seen @ [i]) (mark_step spans i st)"
proof -
  obtain flags highest where st: "st = (flags, highest)" by (cases st)
  note inv = inv [unfolded st mark_inv_def, simplified]
  have oi: "fst (spans ! i) \<le> snd (spans ! i)" using ord i(1) by simp
  show ?thesis
  proof (cases highest)
    case None
    then have "seen = []" using inv by simp
    then show ?thesis using inv None i by (auto simp: st mark_inv_def mark_step_def)
  next
    case (Some je)
    then obtain j e where h: "highest = Some (j, e)" by (cases je) auto
    then have j: "j \<in> set seen" and e: "e = snd (spans ! j)" and top: "\<forall>k \<in> set seen. snd (spans ! k) \<le> e"
      and len: "length flags = length spans"
      and fl: "\<And>k. k < length spans \<Longrightarrow> flags ! k \<longleftrightarrow>
        k \<in> set seen \<and> (\<exists>j \<in> set seen. j \<noteq> k \<and> overlapping (spans ! k) (spans ! j))"
      using inv by auto
    let ?f = "if fst (spans ! i) \<le> e then flags[i := True, j := True] else flags"
    note flags = mark_flags_step [OF len fl i oi seen j top [unfolded e], folded e]
    define hi where "hi = (if e \<ge> snd (spans ! i) then (j, e) else (i, snd (spans ! i)))"
    have "fst hi \<in> set (seen @ [i])" "snd hi = snd (spans ! fst hi)"
      "\<forall>k \<in> set (seen @ [i]). snd (spans ! k) \<le> snd hi"
      using j e top by (auto simp: hi_def intro: order_trans)
    moreover have "mark_step spans i st = (?f, Some hi)"
      by (simp add: st h mark_step_def hi_def)
    ultimately show ?thesis
      using len flags by (cases hi) (simp add: mark_inv_def)
  qed
qed

lemma mark_fold_inv:
  assumes "sorted (map (\<lambda>i. fst (spans ! i)) (seen @ todo))" and "distinct (seen @ todo)"
    and "set (seen @ todo) \<subseteq> {..<length spans}" and "\<forall>x \<in> set spans. fst x \<le> snd x"
    and "mark_inv spans seen st"
  shows "mark_inv spans (seen @ todo) (fold (mark_step spans) todo st)"
  using assms
proof (induction todo arbitrary: seen st)
  case (Cons i todo)
  have "mark_inv spans (seen @ [i]) (mark_step spans i st)"
    using Cons.prems by (intro mark_step_inv) (auto simp: sorted_append)
  then show ?case using Cons.IH [of "seen @ [i]"] Cons.prems by simp
qed simp

lemma mark_overlaps_inv:
  assumes "\<forall>x \<in> set spans. fst x \<le> snd x"
  shows "length (mark_overlaps spans) = length spans"
    and "\<And>k. k < length spans \<Longrightarrow> mark_overlaps spans ! k \<longleftrightarrow>
      (\<exists>j < length spans. j \<noteq> k \<and> overlapping (spans ! k) (spans ! j))"
proof -
  let ?order = "sort_key (\<lambda>i. fst (spans ! i)) [0..<length spans]"
  have "mark_inv spans [] (replicate (length spans) False, None)"
    by (simp add: mark_inv_def)
  then have "mark_inv spans ([] @ ?order) (fold (mark_step spans) ?order (replicate (length spans) False, None))"
    using assms by (intro mark_fold_inv) auto
  then show "length (mark_overlaps spans) = length spans"
    and "\<And>k. k < length spans \<Longrightarrow> mark_overlaps spans ! k \<longleftrightarrow>
      (\<exists>j < length spans. j \<noteq> k \<and> overlapping (spans ! k) (spans ! j))"
    by (auto simp: mark_inv_def mark_overlaps_def Let_def split: prod.splits)
qed

lemma no_marks_iff_disjoint:
  assumes "\<forall>x \<in> set spans. fst x \<le> snd x"
  shows "True \<notin> set (mark_overlaps spans) \<longleftrightarrow> disjoint_spans spans"
  using mark_overlaps_inv [OF assms]
  by (auto simp: in_set_conv_nth disjoint_spans_nth)

section \<open>The usable range\<close>

lemma issue_bits:
  "range_issues a b f l AND BEFORE_FIRST_USABLE \<noteq> 0 \<longleftrightarrow> a < f"
  "range_issues a b f l AND PAST_LAST_USABLE \<noteq> 0 \<longleftrightarrow> l < a \<or> l < b"
  "range_issues a b f l AND OVERLAPS_ANOTHER = 0"
  "(range_issues a b f l OR OVERLAPS_ANOTHER) AND BEFORE_FIRST_USABLE \<noteq> 0 \<longleftrightarrow> a < f"
  "(range_issues a b f l OR OVERLAPS_ANOTHER) AND PAST_LAST_USABLE \<noteq> 0 \<longleftrightarrow> l < a \<or> l < b"
  "(range_issues a b f l OR OVERLAPS_ANOTHER) AND OVERLAPS_ANOTHER \<noteq> 0"
  by (simp_all add: range_issues_def)

section \<open>What the reader returns\<close>

lemma parse_header_block_Ok:
  assumes "parse_header_block crc s = Ok h"
  shows "512 \<le> length s" and "slice_of 0 8 s = SIGNATURE"
    and "92 \<le> unat (header_size h)" and "unat (header_size h) \<le> length s"
    and "crc (copy_at 16 [0, 0, 0, 0] (take (unat (header_size h)) s)) = header_crc32 h"
    and "128 \<le> unat (partition_entry_size h)" and "unat (partition_entry_size h) \<le> 4096"
    and "unat (num_partition_entries h) \<le> 4096"
  using assms
  by (auto simp: parse_header_block_def Let_def word_le_nat_alt word_less_nat_alt split: if_splits)

lemma parse_gpt_entry_Ok:
  assumes "parse_gpt_entry arr es dev i = Ok (Some (p, a, b))"
  shows "a \<le> b" and "unat (p_start p) = 512 * unat a"
    and "unat (p_length p) = 512 * (unat b - unat a + 1)"
    and "p_slot p = Some (of_nat i)" and "p_issues p = 0"
    and "p_kind p = Gpt (slice_of (i * es) 16 arr) (le64 arr (i * es + 48))"
    and "slice_of (i * es) 16 arr \<noteq> UNUSED"
    and "p_available_length p = available_on_device (p_start p) (p_length p) dev"
  using assms
  by (auto simp: parse_gpt_entry_def Let_def checked_mul_eq_Some checked_sub_eq_Some
      checked_add_eq_Some bind_eq_Some_conv word_le_nat_alt word_less_nat_alt split: if_splits)

lemma parse_entry_array_Ok:
  assumes "parse_entry_array crc rd d h = Ok (parts, arr)"
  obtains found where
    "\<And>p a b. (p, a, b) \<in> set found \<Longrightarrow> \<exists>i < unat (num_partition_entries h).
       parse_gpt_entry arr (unat (partition_entry_size h)) (size_bytes rd d) i = Ok (Some (p, a, b))"
    and "distinct (map (\<lambda>x. p_slot (fst x)) found)"
    and "parts = flag_overlaps (mark_overlaps (map snd found)) (flag_ranges h found)"
    and "crc arr = partition_entry_array_crc32 h"
proof -
  obtain es where crc: "crc arr = partition_entry_array_crc32 h"
    and tr: "traverse (parse_gpt_entry arr (unat (partition_entry_size h)) (size_bytes rd d))
      [0..<unat (num_partition_entries h)] = Ok es"
    and parts: "parts = flag_overlaps (mark_overlaps (map snd (List.map_filter id es)))
      (flag_ranges h (List.map_filter id es))"
    using assms by (auto simp: parse_entry_array_def Let_def split: if_splits)
  let ?g = "parse_gpt_entry arr (unat (partition_entry_size h)) (size_bytes rd d)"
  let ?n = "unat (num_partition_entries h)"
  have len: "length es = ?n" using traverse_length [OF tr] by simp
  have at: "?g i = Ok (es ! i)" if "i < ?n" for i
    using traverse_nth [OF tr, of i] that by simp
  have mf: "List.map_filter id es = List.map_filter (\<lambda>i. es ! i) [0..<?n]"
    using map_filter_id_map [of "(!) es" "[0..<?n]"] map_nth [of es] len by simp
  show ?thesis
  proof (rule that [OF _ _ parts crc])
    fix p a b assume "(p, a, b) \<in> set (List.map_filter id es)"
    then show "\<exists>i < ?n. ?g i = Ok (Some (p, a, b))"
      using at by (auto simp: mf set_map_filter)
  next
    have "distinct (List.map_filter (\<lambda>i. map_option (\<lambda>x. p_slot (fst x)) (es ! i)) [0..<?n])"
    proof (rule distinct_map_filter)
      fix i j v assume ij: "i \<in> set [0..<?n]" "j \<in> set [0..<?n]"
        and "map_option (\<lambda>x. p_slot (fst x)) (es ! i) = Some v" "map_option (\<lambda>x. p_slot (fst x)) (es ! j) = Some v"
      then obtain x y where "?g i = Ok (Some x)" "?g j = Ok (Some y)" "p_slot (fst x) = p_slot (fst y)"
        using at by auto
      then have "(of_nat i :: u32) = of_nat j"
        by (cases x, cases y) (auto dest!: parse_gpt_entry_Ok(4))
      then show "i = j"
        using ij unat_lt [of "num_partition_entries h"] by (simp add: word_unat_eq_iff unat_of_nat)
    qed simp
    moreover have "map (\<lambda>x. p_slot (fst x)) (List.map_filter id es)
        = List.map_filter (\<lambda>i. map_option (\<lambda>x. p_slot (fst x)) (es ! i)) [0..<?n]"
      unfolding mf by (rule map_map_filter)
    ultimately show "distinct (map (\<lambda>x. p_slot (fst x)) (List.map_filter id es))" by simp
  qed
qed

section \<open>Properties\<close>

text \<open>
  C21: The overlap pass is right. For entries whose sectors run forward, the one
  sort and one pass of \<open>mark_overlaps\<close> marks exactly the entries that share a
  sector with another entry, whatever their order in the table.
\<close>

theorem mark_overlaps_correct:
  assumes "\<forall>x \<in> set spans. fst x \<le> snd x" and "k < length spans"
  shows "mark_overlaps spans ! k \<longleftrightarrow>
    (\<exists>j < length spans. j \<noteq> k \<and>
       {fst (spans ! k)..snd (spans ! k)} \<inter> {fst (spans ! j)..snd (spans ! j)} \<noteq> {})"
  using mark_overlaps_inv(2) [OF assms] assms overlapping_iff_shared by (metis nth_mem)

theorem mark_overlaps_correct_witness:
  "mark_overlaps [(10, 90), (200, 300), (20, 30)] ! 2 \<longleftrightarrow>
    (\<exists>j < length [(10, 90), (200, 300), (20 :: u64, 30 :: u64)]. j \<noteq> 2 \<and>
       {fst ([(10, 90), (200, 300), (20 :: u64, 30 :: u64)] ! 2)..snd ([(10, 90), (200, 300), (20 :: u64, 30 :: u64)] ! 2)}
       \<inter> {fst ([(10, 90), (200, 300), (20 :: u64, 30 :: u64)] ! j)..snd ([(10, 90), (200, 300), (20 :: u64, 30 :: u64)] ! j)} \<noteq> {})"
  by (rule mark_overlaps_correct) simp_all

text \<open>
  C22: The issues reported are exactly the rules broken. A table that parses gives
  partitions whose byte ranges are their entries' sectors, whose slots are
  distinct, and whose three issue bits say precisely: it starts before the first
  usable LBA; it starts or ends past the last one; it shares a sector with another
  entry of the table.
\<close>

theorem gpt_issues_exact:
  assumes "parse_entry_array crc rd d h = Ok (parts, arr)"
  shows "\<exists>spans. length spans = length parts \<and> distinct (map p_slot parts) \<and>
    (\<forall>k < length parts.
       unat (p_start (parts ! k)) = 512 * unat (fst (spans ! k)) \<and>
       unat (p_length (parts ! k)) = 512 * (unat (snd (spans ! k)) - unat (fst (spans ! k)) + 1) \<and>
       (p_issues (parts ! k) AND BEFORE_FIRST_USABLE \<noteq> 0 \<longleftrightarrow> fst (spans ! k) < first_usable_lba h) \<and>
       (p_issues (parts ! k) AND PAST_LAST_USABLE \<noteq> 0 \<longleftrightarrow>
          last_usable_lba h < fst (spans ! k) \<or> last_usable_lba h < snd (spans ! k)) \<and>
       (p_issues (parts ! k) AND OVERLAPS_ANOTHER \<noteq> 0 \<longleftrightarrow>
          (\<exists>j < length parts. j \<noteq> k \<and> overlapping (spans ! k) (spans ! j))))"
proof -
  obtain found where found: "\<And>p a b. (p, a, b) \<in> set found \<Longrightarrow> \<exists>i < unat (num_partition_entries h).
       parse_gpt_entry arr (unat (partition_entry_size h)) (size_bytes rd d) i = Ok (Some (p, a, b))"
    and dist: "distinct (map (\<lambda>x. p_slot (fst x)) found)"
    and parts: "parts = flag_overlaps (mark_overlaps (map snd found)) (flag_ranges h found)"
    using parse_entry_array_Ok [OF assms] by blast
  let ?spans = "map snd found"
  have ord: "\<forall>x \<in> set ?spans. fst x \<le> snd x"
    using found parse_gpt_entry_Ok(1) by fastforce
  note mark = mark_overlaps_inv [OF ord]
  have len: "length parts = length found"
    using mark(1) by (simp add: parts flag_overlaps_def flag_ranges_def)
  have at: "parts ! k = (let (p, a, b) = found ! k; r = range_issues a b (first_usable_lba h) (last_usable_lba h)
      in p\<lparr>p_issues := if mark_overlaps ?spans ! k then r OR OVERLAPS_ANOTHER else r\<rparr>)"
    if "k < length found" for k
    using that mark(1) by (auto simp: parts flag_overlaps_def flag_ranges_def Let_def split: prod.splits)
  have "map p_slot parts = map (\<lambda>x. p_slot (fst x)) found"
    using len at by (intro nth_equalityI) (auto simp: Let_def split: prod.splits)
  then have "distinct (map p_slot parts)" using dist by simp
  moreover have "unat (p_start (parts ! k)) = 512 * unat (fst (?spans ! k)) \<and>
       unat (p_length (parts ! k)) = 512 * (unat (snd (?spans ! k)) - unat (fst (?spans ! k)) + 1) \<and>
       (p_issues (parts ! k) AND BEFORE_FIRST_USABLE \<noteq> 0 \<longleftrightarrow> fst (?spans ! k) < first_usable_lba h) \<and>
       (p_issues (parts ! k) AND PAST_LAST_USABLE \<noteq> 0 \<longleftrightarrow>
          last_usable_lba h < fst (?spans ! k) \<or> last_usable_lba h < snd (?spans ! k)) \<and>
       (p_issues (parts ! k) AND OVERLAPS_ANOTHER \<noteq> 0 \<longleftrightarrow>
          (\<exists>j < length parts. j \<noteq> k \<and> overlapping (?spans ! k) (?spans ! j)))"
    if k: "k < length parts" for k
  proof -
    obtain p a b where f: "found ! k = (p, a, b)" by (cases "found ! k") auto
    then have "(p, a, b) \<in> set found" using k len by (metis nth_mem)
    then obtain i where i: "parse_gpt_entry arr (unat (partition_entry_size h)) (size_bytes rd d) i = Ok (Some (p, a, b))"
      using found by blast
    have m: "mark_overlaps ?spans ! k \<longleftrightarrow> (\<exists>j < length parts. j \<noteq> k \<and> overlapping (?spans ! k) (?spans ! j))"
      using mark(2) [of k] k len by simp
    have sk: "?spans ! k = (a, b)" using f k len by simp
    show ?thesis
      unfolding m [symmetric] unfolding sk using at [of k] k len f parse_gpt_entry_Ok(2,3) [OF i] issue_bits
      by (simp add: Let_def del: BEFORE_FIRST_USABLE_def PAST_LAST_USABLE_def OVERLAPS_ANOTHER_def)
  qed
  ultimately show ?thesis using len by (intro exI [of _ ?spans]) simp
qed

definition wit_header :: header where
  "wit_header = \<lparr>my_lba = 1, alternate_lba = 63, first_usable_lba = 34, last_usable_lba = 30,
     disk_guid = replicate 16 9, partition_entry_lba = 0, num_partition_entries = 1,
     partition_entry_size = 128, partition_entry_array_crc32 = 0, header_crc32 = 0, header_size = 92\<rparr>"

definition wit_array :: "u8 list" where
  "wit_array = replicate 16 1 @ replicate 16 2 @ le64_bytes 20 @ le64_bytes 39 @ le64_bytes 0
     @ label_bytes [0x45] @ replicate 70 0"

lemma wit_label: "length (label_bytes [0x45]) = 2" "parse_utf16_label (label_bytes [0x45] @ replicate 70 0) = Some [0x45]"
  using parse_label_bytes [of "[0x45]" 70]
  by (simp_all add: length_label_bytes len_utf16_def is_scalar_def encode_utf16_def)

lemma wit_array_reads:
  "length wit_array = 128" "slice_of 0 16 wit_array = replicate 16 1" "slice_of 16 16 wit_array = replicate 16 2"
  "le64 wit_array 32 = 20" "le64 wit_array 40 = 39" "le64 wit_array 48 = 0"
  "parse_utf16_label (slice_of 56 72 wit_array) = Some [0x45]"
  using wit_label by (simp_all add: wit_array_def slice_of_def le64_def)

definition wit_entry :: partition where
  "wit_entry = \<lparr>p_start = 10240, p_length = 10240,
    p_kind = Gpt (replicate 16 1) 0, p_label = Some [0x45], p_uuid = Some (replicate 16 2),
    p_slot = Some 0, p_issues = 0, p_available_length = 0\<rparr>"

lemma wit_entry_parse: "parse_gpt_entry wit_array 128 128 0 = Ok (Some (wit_entry, 20, 39))"
proof -
  have "checked_mul (20 :: u64) 512 = Some 10240" "checked_sub (39 :: u64) 20 = Some 19"
    "checked_add (19 :: u64) 1 = Some 20" "available_on_device 10240 10240 128 = 0"
    by code_simp+
  then show ?thesis
    by (simp add: parse_gpt_entry_def wit_array_reads UNUSED_def wit_entry_def Let_def replicate_eq_replicate)
qed

lemma wit_array_parse: "parse_entry_array (\<lambda>_. 0) memdev wit_array wit_header
    = Ok ([wit_entry\<lparr>p_issues := 3\<rparr>], wit_array)"
proof -
  have "range_issues 20 39 34 30 = 3" "mark_overlaps [(20, 39)] = [False]"
    "checked_mul (0 :: u64) 512 = Some 0" "checked_add (0 :: u64) 128 = Some 128"
    by code_simp+
  then show ?thesis
    using wit_entry_parse
    by (simp add: parse_entry_array_def wit_header_def Let_def wit_array_reads memdev_read_def
        List.map_filter_simps flag_ranges_def flag_overlaps_def)
qed

theorem gpt_issues_exact_witness:
  "\<exists>parts. parse_entry_array (\<lambda>_. 0) memdev wit_array wit_header = Ok (parts, wit_array) \<and>
     length parts = 1 \<and> p_issues (parts ! 0) AND BEFORE_FIRST_USABLE \<noteq> 0 \<and>
     p_issues (parts ! 0) AND OVERLAPS_ANOTHER = 0 \<and> distinct (map p_slot parts)"
  using gpt_issues_exact [OF wit_array_parse] wit_array_parse by auto

end
