(* ===== verification/Mbr.thy ===== *)
theory Mbr
  imports Slots
begin

text \<open>
  The MBR reader and writer (\<open>mbr.rs\<close>): the four primary entries of LBA 0,
  the CHS address of an LBA, the split of the table into volumes and reserved
  entries, and the writer that rebuilds the table while keeping the boot code,
  the reserved entries and the CHS bytes of an unchanged range.
\<close>

section \<open>Layout\<close>

definition TABLE_START :: nat where [simp]: "TABLE_START = 446"
definition ENTRY_SIZE_MBR :: nat where [simp]: "ENTRY_SIZE_MBR = 16"
definition ENTRY_COUNT :: nat where [simp]: "ENTRY_COUNT = 4"
definition entry_at :: "nat \<Rightarrow> nat" where
  "entry_at i = TABLE_START + i * ENTRY_SIZE_MBR"
definition TYPE_BYTE :: nat where [simp]: "TYPE_BYTE = 4"
definition START_LBA :: nat where [simp]: "START_LBA = 8"
definition SECTOR_COUNT :: nat where [simp]: "SECTOR_COUNT = 12"

definition EMPTY :: u8 where [simp]: "EMPTY = 0x00"
definition EXTENDED_CHS :: u8 where [simp]: "EXTENDED_CHS = 0x05"
definition NTFS_OR_EXFAT :: u8 where [simp]: "NTFS_OR_EXFAT = 0x07"
definition EXTENDED_LBA :: u8 where [simp]: "EXTENDED_LBA = 0x0F"
definition LINUX_SWAP_MBR :: u8 where [simp]: "LINUX_SWAP_MBR = 0x82"
definition LINUX :: u8 where [simp]: "LINUX = 0x83"
definition LINUX_EXTENDED :: u8 where [simp]: "LINUX_EXTENDED = 0x85"
definition HFS_PLUS_MBR :: u8 where [simp]: "HFS_PLUS_MBR = 0xAF"
definition GPT_PROTECTIVE :: u8 where [simp]: "GPT_PROTECTIVE = 0xEE"
definition EFI_SYSTEM_MBR :: u8 where [simp]: "EFI_SYSTEM_MBR = 0xEF"
definition STATUS_ACTIVE :: u8 where [simp]: "STATUS_ACTIVE = 0x80"

section \<open>CHS addresses\<close>

definition CHS_HEADS :: u64 where [simp]: "CHS_HEADS = 255"
definition CHS_SECTORS :: u64 where [simp]: "CHS_SECTORS = 63"
definition CHS_MAX_CYLINDER :: u64 where [simp]: "CHS_MAX_CYLINDER = 1023"

definition chs_for_lba :: "u64 \<Rightarrow> u8 list" where
  "chs_for_lba lba =
     (let per_cylinder = CHS_HEADS * CHS_SECTORS;
          cylinder = lba div per_cylinder
      in if cylinder > CHS_MAX_CYLINDER then [0xFF, 0xFF, 0xFF]
         else let within = lba mod per_cylinder;
                  head = within div CHS_SECTORS;
                  sector = within mod CHS_SECTORS + 1
              in [ucast head,
                  ucast sector OR push_bit 6 (ucast (drop_bit 8 cylinder)),
                  ucast (cylinder AND 0xFF)])"

section \<open>Reading the table\<close>

definition entry_type :: "u8 list \<Rightarrow> nat \<Rightarrow> u8" where
  "entry_type lba0 i = lba0 ! (entry_at i + TYPE_BYTE)"

definition is_protective :: "u8 list \<Rightarrow> bool" where
  "is_protective lba0 =
     (let nonempty = filter (\<lambda>t. t \<noteq> EMPTY) (map (entry_type lba0) [0..<ENTRY_COUNT])
      in length nonempty = 1 \<and> list_all (\<lambda>t. t = GPT_PROTECTIVE) nonempty)"

definition has_gpt_marker :: "u8 list \<Rightarrow> bool" where
  "has_gpt_marker lba0 = list_ex (\<lambda>i. entry_type lba0 i = GPT_PROTECTIVE) [0..<ENTRY_COUNT]"

datatype entry_role_kind = Volume | ExtendedContainer | GptProtective

definition entry_role :: "u8 \<Rightarrow> entry_role_kind" where
  "entry_role tb =
     (if tb = EXTENDED_CHS \<or> tb = EXTENDED_LBA \<or> tb = LINUX_EXTENDED then ExtendedContainer
      else if tb = GPT_PROTECTIVE then GptProtective
      else Volume)"

text \<open>The body of the loop of \<open>parse_all_entries\<close>: what slot \<open>i\<close> pushes.\<close>

definition parse_slot :: "u8 list \<Rightarrow> u64 \<Rightarrow> nat \<Rightarrow> partition option" where
  "parse_slot lba0 device_size i =
     (let off = entry_at i;
          status = lba0 ! off;
          tb = lba0 ! (off + TYPE_BYTE)
      in if tb = EMPTY then None
         else let starting_lba = le32 lba0 (off + 8);
                  sectors = le32 lba0 (off + 12)
              in if sectors = 0 then None
                 else let start = ucast starting_lba * SECTOR_SIZE;
                          len = ucast sectors * SECTOR_SIZE;
                          act = (status AND STATUS_ACTIVE) \<noteq> 0
                      in Some \<lparr>p_start = start, p_length = len, p_kind = Mbr tb act,
                           p_label = None, p_uuid = None, p_slot = Some (of_nat i), p_issues = 0,
                           p_available_length = available_on_device start len device_size\<rparr>)"

definition parse_all_entries :: "u8 list \<Rightarrow> u64 \<Rightarrow> error + partition list" where
  "parse_all_entries lba0 device_size =
     Ok (List.map_filter (parse_slot lba0 device_size) [0..<ENTRY_COUNT])"

definition is_volume :: "partition \<Rightarrow> bool" where
  "is_volume p = (case p_kind p of Mbr tb act \<Rightarrow> entry_role tb = Volume | _ \<Rightarrow> True)"

definition mbr_parse :: "u8 list \<Rightarrow> u64 \<Rightarrow> error + partition list" where
  "mbr_parse lba0 device_size =
     rbind (parse_all_entries lba0 device_size) (\<lambda>all. Ok (filter is_volume all))"

record reserved_entry =
  r_slot :: u32
  r_bytes :: "u8 list"

definition reserved_span :: "reserved_entry \<Rightarrow> (u64 \<times> u64) option" where
  "reserved_span r =
     (if r_bytes r ! TYPE_BYTE = GPT_PROTECTIVE then None
      else let start = ucast (le32 (r_bytes r) START_LBA) :: u64;
               count = ucast (le32 (r_bytes r) SECTOR_COUNT) :: u64
           in if count \<noteq> 0 then Some (start, start + count - 1) else None)"

definition entry_bytes :: "u8 list \<Rightarrow> nat \<Rightarrow> u8 list" where
  "entry_bytes lba0 i = slice_of (entry_at i) ENTRY_SIZE_MBR lba0"

definition reserved_entries :: "u8 list \<Rightarrow> reserved_entry list" where
  "reserved_entries lba0 = List.map_filter (\<lambda>i.
     let off = entry_at i; tb = lba0 ! (off + TYPE_BYTE) in
     if tb = EMPTY then None
     else let sectors = le32 lba0 (off + SECTOR_COUNT) in
          if entry_role tb = Volume \<and> sectors \<noteq> 0 then None
          else Some \<lparr>r_slot = of_nat i, r_bytes = entry_bytes lba0 i\<rparr>) [0..<ENTRY_COUNT]"

definition lba0_entries :: "u8 list \<Rightarrow> reserved_entry list" where
  "lba0_entries lba0 =
     (if slice_of 510 2 lba0 \<noteq> [0x55, 0xAA] then []
      else List.map_filter (\<lambda>i.
        let off = entry_at i in
        if lba0 ! (off + TYPE_BYTE) = EMPTY then None
        else Some \<lparr>r_slot = of_nat i, r_bytes = entry_bytes lba0 i\<rparr>) [0..<ENTRY_COUNT])"

section \<open>Writing the table\<close>

definition validate_mbr_partition :: "partition \<Rightarrow> u64 \<Rightarrow> error + unit" where
  "validate_mbr_partition p total_bytes =
     (case p_kind p of
        Mbr tb act \<Rightarrow>
          if p_length p = 0 then Err (Invalid ''partition has zero length'')
          else if \<not> is_multiple_of (p_start p) SECTOR_SIZE
               \<or> \<not> is_multiple_of (p_length p) SECTOR_SIZE
          then Err (Invalid ''partition not sector-aligned'')
          else rbind (sector_span p) (\<lambda>(start_lba, _).
            let sectors = p_length p div SECTOR_SIZE in
            if start_lba > MBR_LBA_MAX \<or> sectors > MBR_LBA_MAX
            then Err (Invalid ''partition exceeds MBR 32-bit LBA range'')
            else if start_lba < 1 then Err (Invalid ''MBR partition cannot start at LBA 0'')
            else rbind (ok_or (checked_add (p_start p) (p_length p))
                   (Invalid ''a partition's start and length overflow a u64''))
              (\<lambda>e. if e > total_bytes
                 then Err (Invalid ''partition extends past device end'') else Ok ()))
      | _ \<Rightarrow> Err (Invalid ''non-MBR partition kind in MBR write''))"

text \<open>
  The refusals of \<open>write_mbr_assigning_slots\<close>, in the order the code makes
  them, up to the slot assignment: nothing has been read or written yet.
\<close>

definition plan_mbr :: "bool \<Rightarrow> u64 \<Rightarrow> partition list \<Rightarrow> reserved_entry list \<Rightarrow> error + u32 list" where
  "plan_mbr writable total_bytes partitions reserved =
     (if \<not> writable then Err (Block ReadOnly)
      else if length partitions + length reserved > ENTRY_COUNT
      then Err (Invalid ''MBR supports at most 4 primary partitions'')
      else if total_bytes < SECTOR_SIZE then Err DeviceTooSmall
      else rbind (traverse (\<lambda>p. rbind (validate_mbr_partition p total_bytes)
                                   (\<lambda>_. sector_span p)) partitions)
        (\<lambda>spans. if neighbours_overlap (sort (spans @ List.map_filter reserved_span reserved))
           then Err (Invalid ''partitions overlap'')
           else assign_slots_with_taken partitions (of_nat ENTRY_COUNT) (map r_slot reserved)))"

text \<open>
  The entry \<open>old\<close> that is on disk describes the sectors about to be written:
  then its CHS bytes are still right.
\<close>

definition same_range :: "u8 list \<Rightarrow> u32 \<Rightarrow> u32 \<Rightarrow> bool" where
  "same_range old start_lba sectors \<longleftrightarrow>
     old ! TYPE_BYTE \<noteq> EMPTY
     \<and> slice_of START_LBA 4 old = le32_bytes start_lba
     \<and> slice_of SECTOR_COUNT 4 old = le32_bytes sectors"

text \<open>One partition written into its slot of the sector being built.\<close>

definition put_entry :: "u8 list \<Rightarrow> partition \<times> u32 \<Rightarrow> u8 list \<Rightarrow> error + u8 list" where
  "put_entry existing = (\<lambda>(p, slot) sector.
     let off = entry_at (unat slot) in
     case p_kind p of
       Mbr tb act \<Rightarrow>
         let start_lba = ucast (p_start p div SECTOR_SIZE) :: u32;
             sectors = ucast (p_length p div SECTOR_SIZE) :: u32;
             sector = sector[off := (if act then STATUS_ACTIVE else 0x00)];
             old = entry_bytes existing (unat slot);
             sector = (if same_range old start_lba sectors
               then copy_at (off + 5) (slice_of 5 3 old) (copy_at (off + 1) (slice_of 1 3 old) sector)
               else sector);
             sector = sector[off + TYPE_BYTE := tb];
             sector = copy_at (off + START_LBA) (le32_bytes start_lba) sector
         in Ok (copy_at (off + SECTOR_COUNT) (le32_bytes sectors) sector)
     | _ \<Rightarrow> Err (Invalid ''non-MBR partition kind in MBR write''))"

fun put_entries :: "u8 list \<Rightarrow> (partition \<times> u32) list \<Rightarrow> u8 list \<Rightarrow> error + u8 list" where
  "put_entries existing [] sector = Ok sector"
| "put_entries existing (e # es) sector =
     rbind (put_entry existing e sector) (put_entries existing es)"

definition put_reserved :: "reserved_entry list \<Rightarrow> u8 list \<Rightarrow> u8 list" where
  "put_reserved reserved sector =
     fold (\<lambda>r s. copy_at (entry_at (unat (r_slot r))) (r_bytes r) s) reserved sector"

definition build_mbr_sector ::
    "u8 list \<Rightarrow> partition list \<Rightarrow> u32 list \<Rightarrow> reserved_entry list \<Rightarrow> error + u8 list" where
  "build_mbr_sector existing partitions slots reserved =
     (let sector = copy_at TABLE_START (replicate (ENTRY_COUNT * ENTRY_SIZE_MBR) 0) existing;
          sector = put_reserved reserved sector
      in rbind (put_entries existing (zip partitions slots) sector)
           (\<lambda>sector. Ok (sector[510 := 0x55, 511 := 0xAA])))"

definition write_mbr_assigning_slots ::
    "('d, 'x) block_device_scheme \<Rightarrow> 'd \<Rightarrow> partition list \<Rightarrow> reserved_entry list
      \<Rightarrow> (error + u32 list) \<times> 'd" where
  "write_mbr_assigning_slots dv d partitions reserved =
     (case plan_mbr (is_writable dv d) (size_bytes dv d) partitions reserved of
        Inl e \<Rightarrow> (Err e, d)
      | Inr slots \<Rightarrow>
          (case lift_fs (read_at dv d 0 SECTOR_SIZE_USIZE) of
             Inl e \<Rightarrow> (Err e, d)
           | Inr existing \<Rightarrow>
               (case build_mbr_sector existing partitions slots reserved of
                  Inl e \<Rightarrow> (Err e, d)
                | Inr sector \<Rightarrow>
                    (case write_at dv d 0 sector of
                       (Inl e, d') \<Rightarrow> (Err (Block e), d')
                     | (Inr _, d') \<Rightarrow> (Ok slots, d')))))"

definition write_mbr_preserving ::
    "('d, 'x) block_device_scheme \<Rightarrow> 'd \<Rightarrow> partition list \<Rightarrow> reserved_entry list
      \<Rightarrow> (error + unit) \<times> 'd" where
  "write_mbr_preserving dv d partitions reserved =
     map_prod (map_ok (\<lambda>_. ())) id (write_mbr_assigning_slots dv d partitions reserved)"

definition write_mbr :: "('d, 'x) block_device_scheme \<Rightarrow> 'd \<Rightarrow> partition list \<Rightarrow> (error + unit) \<times> 'd" where
  "write_mbr dv d partitions = write_mbr_preserving dv d partitions []"

section \<open>CHS addresses decode to the LBA they encode\<close>

definition chs_decode :: "u8 list \<Rightarrow> nat" where
  "chs_decode b =
     ((unat (b ! 2) + 256 * (unat (b ! 1) div 64)) * 255 + unat (b ! 0)) * 63
       + (unat (b ! 1) mod 64 - 1)"

lemma chs_for_lba_fits:
  assumes "unat lba < 1024 * 255 * 63"
  shows "chs_decode (chs_for_lba lba) = unat lba \<and> chs_for_lba lba \<noteq> [0xFF, 0xFF, 0xFF]"
proof -
  let ?l = "unat lba"
  let ?c = "?l div 16065" and ?h = "?l mod 16065 div 63" and ?s = "?l mod 16065 mod 63 + 1"
  have c: "?c < 1024" and h: "?h < 255" and s: "?s < 64" using assms by auto
  have uc: "unat (lba div 16065) = ?c" by (simp add: unat_div_distrib)
  have cyl: "\<not> lba div 16065 > 1023" using c by (simp add: word_less_nat_alt uc)
  have b0: "unat (ucast (lba mod 16065 div 63) :: u8) = ?h"
    using h by (simp add: unat_ucast unat_div_distrib unat_mod_distrib)
  have us: "unat (ucast (lba mod 16065 mod 63 + 1) :: u8) = ?s"
    using s by (simp add: unat_ucast unat_plus_if' unat_mod_distrib)
  have dc: "unat (ucast (drop_bit 8 (lba div 16065)) :: u8) = ?c div 256"
    using c by (simp add: unat_ucast unat_drop_bit uc)
  have b1: "unat (ucast (lba mod 16065 mod 63 + 1) OR push_bit 6 (ucast (drop_bit 8 (lba div 16065))) :: u8)
      = ?s + 64 * (?c div 256)"
  proof -
    have "?c div 256 < 4" using c by simp
    then have "?s + ?c div 256 * 64 < 256" using s by linarith
    then show ?thesis
      using s unat_or_push_bit [where k = 6 and s = "ucast (lba mod 16065 mod 63 + 1) :: u8"
          and c = "ucast (drop_bit 8 (lba div 16065))"]
      by (simp only: us dc) simp
  qed
  have "lba div 16065 AND 255 = take_bit 8 (lba div 16065)"
    by (simp add: take_bit_eq_mask mask_eq_decr_exp)
  then have b2: "unat (ucast (lba div 16065 AND 255) :: u8) = ?c mod 256"
    by (simp add: unat_ucast uc unat_take_bit)
  have e: "chs_for_lba lba = [ucast (lba mod 16065 div 63),
      ucast (lba mod 16065 mod 63 + 1) OR push_bit 6 (ucast (drop_bit 8 (lba div 16065))),
      ucast (lba div 16065 AND 255)]"
    using cyl by (simp add: chs_for_lba_def Let_def)
  have d1: "(?s + 64 * (?c div 256)) div 64 = ?c div 256"
    and m1: "(?s + 64 * (?c div 256)) mod 64 = ?s"
    using s by (simp_all add: div_add1_eq mod_add_eq del: add_Suc)
  have c2: "?c mod 256 + 256 * (?c div 256) = ?c" by presburger
  have "chs_decode (chs_for_lba lba) = (?c * 255 + ?h) * 63 + (?s - 1)"
    unfolding e chs_decode_def nth_Cons_0 nth_Cons_numeral nth_Cons_Suc One_nat_def numeral_2_eq_2
    by (simp only: b0 b1 b2 d1 m1 c2 nth_Cons_0 nth_Cons_Suc flip: One_nat_def)
  also have "\<dots> = ?c * 16065 + (?h * 63 + ?l mod 16065 mod 63)" by simp
  also have "\<dots> = ?l" by (simp only: div_mult_mod_eq)
  finally have "chs_decode (chs_for_lba lba) = ?l" .
  moreover have "chs_for_lba lba ! 0 \<noteq> 0xFF"
    unfolding e using b0 h by (auto simp: word_unat_eq_iff)
  ultimately show ?thesis by auto
qed

lemma chs_for_lba_too_big:
  assumes "1024 * 255 * 63 \<le> unat lba"
  shows "chs_for_lba lba = [0xFF, 0xFF, 0xFF]"
proof -
  have "1023 < unat lba div 16065" using assms by simp
  then show ?thesis by (simp add: chs_for_lba_def Let_def word_less_nat_alt unat_div_distrib)
qed

section \<open>The table entry by entry\<close>

text \<open>
  Everything the reader takes from slot \<open>i\<close> is in its sixteen bytes, and the
  writer changes one slot at a time; so the lemmas below follow the bytes of each
  slot.
\<close>

lemma entry_at_le: "i < 4 \<Longrightarrow> entry_at i + 16 \<le> 510"
  by (simp add: entry_at_def)

lemma entry_bytes_copy_at:
  assumes "length s = 512" and "length e = 16" and "i < 4" and "j < 4"
  shows "entry_bytes (copy_at (entry_at i) e s) j = (if i = j then e else entry_bytes s j)"
proof (cases "i = j")
  case True
  then show ?thesis using assms entry_at_le [of i] by (simp add: entry_bytes_def)
next
  case False
  then have "entry_at j + 16 \<le> entry_at i \<or> entry_at i + 16 \<le> entry_at j"
    by (auto simp: entry_at_def)
  then show ?thesis
    using False assms entry_at_le [of i] by (simp add: entry_bytes_def slice_copy_at_disjoint)
qed

lemma length_entry_bytes [simp]: "length s = 512 \<Longrightarrow> i < 4 \<Longrightarrow> length (entry_bytes s i) = 16"
  using entry_at_le [of i] by (simp add: entry_bytes_def)

lemma entry_bytes_nth:
  "length s = 512 \<Longrightarrow> i < 4 \<Longrightarrow> k < 16 \<Longrightarrow> s ! (entry_at i + k) = entry_bytes s i ! k"
  using entry_at_le [of i] by (simp add: entry_bytes_def)

lemma entry_bytes_le32:
  "length s = 512 \<Longrightarrow> i < 4 \<Longrightarrow> k + 4 \<le> 16 \<Longrightarrow> le32 s (entry_at i + k) = le32 (entry_bytes s i) k"
  by (simp add: entry_bytes_def)

text \<open>The sixteen bytes the writer puts into a slot that held \<open>old\<close>.\<close>

definition encode_entry :: "u8 list \<Rightarrow> u8 \<Rightarrow> bool \<Rightarrow> u32 \<Rightarrow> u32 \<Rightarrow> u8 list" where
  "encode_entry old tb act start_lba sectors =
     [if act then 0x80 else 0]
     @ (if same_range old start_lba sectors then slice_of 1 3 old else [0, 0, 0])
     @ [tb]
     @ (if same_range old start_lba sectors then slice_of 5 3 old else [0, 0, 0])
     @ le32_bytes start_lba @ le32_bytes sectors"

lemma length_encode_entry [simp]:
  "length old = 16 \<Longrightarrow> length (encode_entry old tb act st n) = 16"
  by (simp add: encode_entry_def)

lemma length_3_conv: "length xs = 3 \<longleftrightarrow> (\<exists>a b c. xs = [a, b, c])"
  by (auto simp: eval_nat_numeral length_Suc_conv)

lemma length_4_conv: "length xs = 4 \<longleftrightarrow> (\<exists>a b c d. xs = [a, b, c, d])"
  by (auto simp: eval_nat_numeral length_Suc_conv)

lemma put_entry_eq:
  assumes "length existing = 512" and "length s = 512" and "unat slot < 4"
    and "entry_bytes s (unat slot) = replicate 16 0" and "p_kind p = Mbr tb act"
  shows "put_entry existing (p, slot) s =
    Ok (copy_at (entry_at (unat slot))
      (encode_entry (entry_bytes existing (unat slot)) tb act
        (ucast (p_start p div 512)) (ucast (p_length p div 512))) s)"
proof -
  let ?o = "entry_at (unat slot)" and ?old = "entry_bytes existing (unat slot)"
  let ?st = "ucast (p_start p div 512) :: u32" and ?n = "ucast (p_length p div 512) :: u32"
  have o: "?o + 16 \<le> 510" using assms(3) by (rule entry_at_le)
  have old: "length ?old = 16" using assms by simp
  obtain s0 where s0: "length s0 = 512" and z: "s = copy_at ?o (replicate 16 0) s0"
    using copy_at_slice_id [of ?o 16 s "replicate 16 0"] assms o by (auto simp: entry_bytes_def)
  obtain a b c d e f g h where le: "le32_bytes ?st = [a, b, c, d]" "le32_bytes ?n = [e, f, g, h]"
    using length_to_le [of 4 ?st] length_to_le [of 4 ?n] unfolding length_4_conv by blast
  have "length (slice_of 1 3 ?old) = 3" and "length (slice_of 5 3 ?old) = 3"
    by (simp_all add: old)
  then obtain i j k l m q where sl: "slice_of 1 3 ?old = [i, j, k]" "slice_of 5 3 ?old = [l, m, q]"
    unfolding length_3_conv by blast
  have up0: "(copy_at ?o e s0)[?o := v] = copy_at ?o (e[0 := v]) s0" if "length e = 16" for e v
    using that o s0 copy_at_nested [of ?o e s0 0 "[v]"] by (simp add: list_update_copy_at)
  have up: "(copy_at ?o e s0)[?o + n := v] = copy_at ?o (e[n := v]) s0"
    if "length e = 16" "n < 16" for e n v
    using that o s0 copy_at_nested [of ?o e s0 n "[v]"] by (simp add: list_update_copy_at)
  have cp: "copy_at (?o + n) xs (copy_at ?o e s0) = copy_at ?o (copy_at n xs e) s0"
    if "length e = 16" "n + length xs \<le> 16" for e n xs
    using that o s0 by (intro copy_at_nested) auto
  have cs: "copy_at ?o e' (copy_at ?o (replicate 16 0) s0) = copy_at ?o e' s0"
    if "length e' = 16" for e'
    using that o s0 by (intro copy_at_copy_at_same) auto
  have z16: "replicate 16 (0::u8) = [0,0,0,0,0,0,0,0,0,0,0,0,0,0,0,0]"
    by (simp add: eval_nat_numeral)
  let ?same = "same_range ?old ?st ?n" and ?v = "if act then 0x80 else 0 :: u8"
  have put: "put_entry existing (p, slot) s =
      Ok (copy_at (?o + 12) (le32_bytes ?n) (copy_at (?o + 8) (le32_bytes ?st)
        ((if ?same then copy_at (?o + 5) (slice_of 5 3 ?old) (copy_at (?o + 1) (slice_of 1 3 ?old)
            (s[?o := ?v])) else s[?o := ?v])[?o + 4 := tb])))"
    by (simp add: put_entry_def assms(5) Let_def)
  let ?z = "replicate 16 (0::u8)"
  have enc: "copy_at 12 [e, f, g, h] (copy_at 8 [a, b, c, d]
          ((if ?same then copy_at 5 [l, m, q] (copy_at 1 [i, j, k] (?z[0 := ?v])) else ?z[0 := ?v])
            [4 := tb])) = encode_entry ?old tb act ?st ?n"
    unfolding encode_entry_def le sl z16 by (simp add: copy_at_def)
  have "copy_at (?o + 12) [e, f, g, h] (copy_at (?o + 8) [a, b, c, d]
        ((if ?same then copy_at (?o + 5) [l, m, q] (copy_at (?o + 1) [i, j, k]
            (s[?o := ?v])) else s[?o := ?v])[?o + 4 := tb]))
      = copy_at ?o (encode_entry ?old tb act ?st ?n) s0"
    unfolding enc [symmetric] z 
    using cp [of _ 1] by (cases ?same) (simp_all add: up0 up cp)
  then show ?thesis
    unfolding put le sl by (simp only: z cs [OF length_encode_entry [OF old]])
qed

section \<open>The sector the writer builds\<close>

definition encode_part :: "u8 list \<Rightarrow> partition \<Rightarrow> u32 \<Rightarrow> u8 list" where
  "encode_part existing p slot = encode_entry (entry_bytes existing (unat slot))
     (type_byte (p_kind p)) (active (p_kind p))
     (ucast (p_start p div 512)) (ucast (p_length p div 512))"

lemma length_encode_part [simp]:
  "length existing = 512 \<Longrightarrow> unat slot < 4 \<Longrightarrow> length (encode_part existing p slot) = 16"
  by (simp add: encode_part_def)

text \<open>Outside the table a sector is the boot code and the signature.\<close>

definition same_outside :: "u8 list \<Rightarrow> u8 list \<Rightarrow> bool" where
  "same_outside s s' \<longleftrightarrow> length s' = length s \<and> (\<forall>i < length s. i < 446 \<or> 510 \<le> i \<longrightarrow> s' ! i = s ! i)"

lemma same_outside_refl [simp]: "same_outside s s"
  by (simp add: same_outside_def)

lemma same_outside_trans: "same_outside s s' \<Longrightarrow> same_outside s' s'' \<Longrightarrow> same_outside s s''"
  by (simp add: same_outside_def)

lemma same_outside_copy_at:
  "length s = 512 \<Longrightarrow> length e = 16 \<Longrightarrow> i < 4 \<Longrightarrow> same_outside s (copy_at (entry_at i) e s)"
  using entry_at_le [of i] by (auto simp: same_outside_def nth_copy_at entry_at_def)

lemma put_entries_spec:
  assumes "length existing = 512" and "length s = 512" and "length slots = length ps"
    and "distinct slots" and "\<forall>x \<in> set slots. unat x < 4 \<and> entry_bytes s (unat x) = replicate 16 0"
    and "\<forall>p \<in> set ps. \<exists>tb act. p_kind p = Mbr tb act"
  shows "\<exists>s'. put_entries existing (zip ps slots) s = Ok s' \<and> same_outside s s' \<and>
     (\<forall>k < length ps. entry_bytes s' (unat (slots ! k)) = encode_part existing (ps ! k) (slots ! k)) \<and>
     (\<forall>j < 4. j \<notin> unat ` set slots \<longrightarrow> entry_bytes s' j = entry_bytes s j)"
  using assms
proof (induction ps arbitrary: slots s)
  case Nil
  then show ?case by simp
next
  case (Cons p ps)
  from Cons.prems(3) obtain x xs where x: "slots = x # xs" by (cases slots) auto
  obtain tb act where k: "p_kind p = Mbr tb act" using Cons.prems(6) by auto
  let ?s = "copy_at (entry_at (unat x)) (encode_part existing p x) s"
  have x4: "unat x < 4" and xz: "entry_bytes s (unat x) = replicate 16 0"
    using Cons.prems(5) x by auto
  have put: "put_entry existing (p, x) s = Ok ?s"
    using put_entry_eq [OF Cons.prems(1,2) x4 xz k] by (simp add: encode_part_def k)
  have len: "length ?s = 512"
    using Cons.prems(1,2) x4 entry_at_le [OF x4] by simp
  have eb: "entry_bytes ?s j = (if unat x = j then encode_part existing p x else entry_bytes s j)"
    if "j < 4" for j
    using that x4 Cons.prems(1,2) by (simp add: entry_bytes_copy_at)
  have rest: "\<forall>y \<in> set xs. unat y < 4 \<and> entry_bytes ?s (unat y) = replicate 16 0"
    using Cons.prems(4,5) x by (auto simp: eb word_unat_eq_iff [symmetric])
  obtain s' where s': "put_entries existing (zip ps xs) ?s = Ok s'" "same_outside ?s s'"
    "\<forall>k < length ps. entry_bytes s' (unat (xs ! k)) = encode_part existing (ps ! k) (xs ! k)"
    "\<forall>j < 4. j \<notin> unat ` set xs \<longrightarrow> entry_bytes s' j = entry_bytes ?s j"
    using Cons.IH [OF Cons.prems(1) len _ _ rest] Cons.prems(3,4,6) x by auto
  have ox: "same_outside s s'"
    using same_outside_trans [OF same_outside_copy_at s'(2)] Cons.prems(1,2) x4 by simp
  have xx: "unat x \<notin> unat ` set xs"
    using Cons.prems(4) x by (auto simp: word_unat_eq_iff [symmetric])
  have "entry_bytes s' (unat (slots ! k)) = encode_part existing ((p # ps) ! k) (slots ! k)"
    if "k < length (p # ps)" for k
    using that s'(3,4) x xx x4 eb by (cases k) auto
  moreover have "entry_bytes s' j = entry_bytes s j" if "j < 4" "j \<notin> unat ` set slots" for j
    using that s'(4) x eb by auto
  ultimately show ?case using s'(1) ox put x by auto
qed

lemma put_reserved_spec:
  assumes "length s = 512" and "distinct (map r_slot rs)"
    and "\<forall>r \<in> set rs. unat (r_slot r) < 4 \<and> length (r_bytes r) = 16"
  shows "same_outside s (put_reserved rs s) \<and>
     (\<forall>r \<in> set rs. entry_bytes (put_reserved rs s) (unat (r_slot r)) = r_bytes r) \<and>
     (\<forall>j < 4. j \<notin> (\<lambda>r. unat (r_slot r)) ` set rs \<longrightarrow>
        entry_bytes (put_reserved rs s) j = entry_bytes s j)"
  using assms
proof (induction rs arbitrary: s)
  case Nil
  then show ?case by (simp add: put_reserved_def)
next
  case (Cons r rs)
  let ?s = "copy_at (entry_at (unat (r_slot r))) (r_bytes r) s"
  have r: "unat (r_slot r) < 4" "length (r_bytes r) = 16" using Cons.prems(3) by auto
  have len: "length ?s = 512" using Cons.prems(1) r entry_at_le [OF r(1)] by simp
  have eb: "entry_bytes ?s j = (if unat (r_slot r) = j then r_bytes r else entry_bytes s j)"
    if "j < 4" for j
    using that r Cons.prems(1) by (simp add: entry_bytes_copy_at)
  have step: "put_reserved (r # rs) s = put_reserved rs ?s" by (simp add: put_reserved_def)
  have nr: "unat (r_slot r) \<notin> (\<lambda>r. unat (r_slot r)) ` set rs"
    using Cons.prems(2) by (auto simp: word_unat_eq_iff [symmetric])
  have "same_outside s ?s" using Cons.prems(1) r by (simp add: same_outside_copy_at)
  then show ?case
    using Cons.IH [OF len] Cons.prems(2,3) eb nr r unfolding step
    by (auto intro: same_outside_trans)
qed

section \<open>What the plan guarantees\<close>

lemma reserved_span_ordered: "reserved_span r = Some (a, b) \<Longrightarrow> a \<le> b"
proof -
  assume r: "reserved_span r = Some (a, b)"
  let ?n = "ucast (le32 (r_bytes r) 12) :: u64"
  from r have a: "a = ucast (le32 (r_bytes r) 8)" and b: "b = a + ?n - 1" and n: "?n \<noteq> 0"
    by (auto simp: reserved_span_def Let_def split: if_splits)
  have "unat a < 2 ^ 32" "unat ?n < 2 ^ 32" "0 < unat ?n"
    using n unat_lt [of "le32 (r_bytes r) 8"] unat_lt [of "le32 (r_bytes r) 12"]
    by (auto simp: a unat_ucast word_unat_eq_iff)
  then have "unat (a + ?n) = unat a + unat ?n"
    by (simp add: unat_plus_if')
  then show "a \<le> b"
    using \<open>0 < unat ?n\<close> unfolding b by (simp add: word_le_nat_alt unat_sub_if')
qed

lemma validate_mbr_partition_Ok:
  assumes "validate_mbr_partition p bytes = Ok u"
  shows "\<exists>tb act. p_kind p = Mbr tb act"
    and "unat (p_start p) mod 512 = 0" and "unat (p_length p) mod 512 = 0"
    and "0 < unat (p_length p)" and "512 \<le> unat (p_start p)"
    and "unat (p_start p) div 512 < 2 ^ 32" and "unat (p_length p) div 512 < 2 ^ 32"
    and "unat (p_start p) + unat (p_length p) \<le> unat bytes"
proof -
  obtain tb act where k: "p_kind p = Mbr tb act"
    using assms by (auto simp: validate_mbr_partition_def split: partition_kind.splits)
  obtain a b where nz: "p_length p \<noteq> 0" and m: "is_multiple_of (p_start p) 512"
      "is_multiple_of (p_length p) 512"
    and sp: "sector_span p = Ok (a, b)" and a: "a \<le> 0xFFFFFFFF" "p_length p div 512 \<le> 0xFFFFFFFF" "a \<noteq> 0"
    and e: "\<exists>e. checked_add (p_start p) (p_length p) = Some e \<and> e \<le> bytes"
    using assms by (auto simp: validate_mbr_partition_def k Let_def not_less split: if_splits)
  have ua: "unat a = unat (p_start p) div 512" using sp by (simp add: sector_span_eq_Ok)
  show "\<exists>tb act. p_kind p = Mbr tb act" using k by blast
  show "unat (p_start p) mod 512 = 0" "unat (p_length p) mod 512 = 0"
    using m by (simp_all add: is_multiple_of_iff)
  show "0 < unat (p_length p)" using nz by (simp add: word_unat_eq_iff)
  show "512 \<le> unat (p_start p)" using a(3) ua by (simp add: word_unat_eq_iff)
  show "unat (p_start p) div 512 < 2 ^ 32" "unat (p_length p) div 512 < 2 ^ 32"
    using a(1,2) by (simp_all add: word_le_nat_alt ua unat_div_distrib)
  show "unat (p_start p) + unat (p_length p) \<le> unat bytes"
    using e by (auto simp: checked_add_eq_Some word_le_nat_alt)
qed

lemma plan_mbr_Ok:
  assumes "plan_mbr w bytes ps rs = Ok slots"
  shows "w" and "length ps + length rs \<le> 4" and "512 \<le> unat bytes"
    and "\<And>p. p \<in> set ps \<Longrightarrow> validate_mbr_partition p bytes = Ok ()"
    and "assign_slots_with_taken ps 4 (map r_slot rs) = Ok slots"
    and "\<exists>spans. list_all2 (\<lambda>p x. sector_span p = Ok x) ps spans
      \<and> disjoint_spans (spans @ List.map_filter reserved_span rs)"
proof -
  obtain spans where w: w and len: "length ps + length rs \<le> 4" and t: "\<not> bytes < 512"
    and tr: "traverse (\<lambda>p. rbind (validate_mbr_partition p bytes) (\<lambda>_. sector_span p)) ps = Ok spans"
    and no: "\<not> neighbours_overlap (sort (spans @ List.map_filter reserved_span rs))"
    and as: "assign_slots_with_taken ps 4 (map r_slot rs) = Ok slots"
    using assms by (auto simp: plan_mbr_def split: if_splits)
  show w "length ps + length rs \<le> 4" "assign_slots_with_taken ps 4 (map r_slot rs) = Ok slots"
    by fact+
  show "512 \<le> unat bytes" using t by (simp add: word_less_nat_alt)
  have l2: "list_all2 (\<lambda>p x. validate_mbr_partition p bytes = Ok () \<and> sector_span p = Ok x) ps spans"
    using tr unfolding traverse_eq_Ok by (rule list_all2_mono) auto
  then show "validate_mbr_partition p bytes = Ok ()" if "p \<in> set ps" for p
    using that by (auto simp: list_all2_conv_all_nth in_set_conv_nth)
  have l3: "list_all2 (\<lambda>p x. sector_span p = Ok x) ps spans"
    using l2 by (rule list_all2_mono) auto
  let ?all = "spans @ List.map_filter reserved_span rs"
  have "fst x \<le> snd x" if x: "x \<in> set ?all" for x
  proof (cases "x \<in> set spans")
    case True
    then obtain i where "i < length spans" "x = spans ! i" by (auto simp: in_set_conv_nth)
    then have "sector_span (ps ! i) = Ok x" using l3 by (auto simp: list_all2_conv_all_nth)
    then show ?thesis by (cases x) (auto dest: sector_span_ordered)
  next
    case False
    then obtain r where "reserved_span r = Some x"
      using x by (auto simp: set_map_filter)
    then show ?thesis by (cases x) (auto dest: reserved_span_ordered)
  qed
  then have "disjoint_spans (sort ?all)"
    using no by (intro sorted_disjoint) auto
  then have "disjoint_spans ?all" using disjoint_spans_mset [of "sort ?all" ?all] by simp
  with l3 show "\<exists>spans. list_all2 (\<lambda>p x. sector_span p = Ok x) ps spans
      \<and> disjoint_spans (spans @ List.map_filter reserved_span rs)" by blast
qed

section \<open>The whole sector\<close>

text \<open>What \<open>plan_mbr\<close> and the type \<open>[u8; 16]\<close> of a reserved entry's bytes guarantee.\<close>

definition placed :: "partition list \<Rightarrow> u32 list \<Rightarrow> reserved_entry list \<Rightarrow> bool" where
  "placed ps slots rs \<longleftrightarrow>
     length slots = length ps \<and> distinct (slots @ map r_slot rs) \<and>
     (\<forall>x \<in> set slots \<union> r_slot ` set rs. unat x < 4) \<and>
     (\<forall>r \<in> set rs. length (r_bytes r) = 16) \<and>
     (\<forall>p \<in> set ps. \<exists>tb act. p_kind p = Mbr tb act)"

lemma plan_mbr_placed:
  assumes "plan_mbr w bytes ps rs = Ok slots" and "\<forall>r \<in> set rs. length (r_bytes r) = 16"
  shows "placed ps slots rs"
proof -
  note a = plan_mbr_Ok(5) [OF assms(1)]
  have av: "slots_available ps 4 (map r_slot rs)" using a assign_slots_total by blast
  then have "distinct (map r_slot rs)" "\<forall>x \<in> r_slot ` set rs. x < 4"
    by (auto simp: slots_available_def)
  moreover have "\<forall>p \<in> set ps. \<exists>tb act. p_kind p = Mbr tb act"
    using plan_mbr_Ok(4) [OF assms(1)] validate_mbr_partition_Ok(1) by blast
  ultimately show ?thesis
    using assign_slots_facts(1-4) [OF a] assms(2)
    by (auto simp: placed_def word_less_nat_alt)
qed

lemma entry_bytes_list_update:
  "length s = 512 \<Longrightarrow> j < 4 \<Longrightarrow> 510 \<le> k \<Longrightarrow> k < 512 \<Longrightarrow> entry_bytes (s[k := v]) j = entry_bytes s j"
  using entry_at_le [of j]
  by (simp add: entry_bytes_def list_update_copy_at slice_copy_at_disjoint)

lemma build_mbr_sector_spec:
  assumes "length existing = 512" and "placed ps slots rs"
  obtains s where "build_mbr_sector existing ps slots rs = Ok s" and "length s = 512"
    and "\<forall>i < 446. s ! i = existing ! i" and "s ! 510 = 0x55" and "s ! 511 = 0xAA"
    and "\<forall>k < length ps. entry_bytes s (unat (slots ! k)) = encode_part existing (ps ! k) (slots ! k)"
    and "\<forall>r \<in> set rs. entry_bytes s (unat (r_slot r)) = r_bytes r"
    and "\<forall>j < 4. j \<notin> unat ` (set slots \<union> r_slot ` set rs) \<longrightarrow> entry_bytes s j = replicate 16 0"
proof -
  let ?z = "copy_at 446 (replicate 64 0) existing"
  let ?r = "put_reserved rs ?z"
  have zl: "length ?z = 512" using assms(1) by simp
  have z: "entry_bytes ?z j = replicate 16 0" if "j < 4" for j
    using assms(1) that entry_at_le [OF that]
    by (simp add: entry_bytes_def slice_copy_at_within entry_at_def)
  note pl = assms(2) [unfolded placed_def]
  have apart: "unat (r_slot r) \<noteq> unat x" if "r \<in> set rs" "x \<in> set slots" for r x
    using that pl by (auto simp: word_unat_eq_iff [symmetric] image_iff disjoint_iff)
  have rsp: "same_outside ?z ?r" "\<forall>r \<in> set rs. entry_bytes ?r (unat (r_slot r)) = r_bytes r"
    "\<forall>j < 4. j \<notin> (\<lambda>r. unat (r_slot r)) ` set rs \<longrightarrow> entry_bytes ?r j = entry_bytes ?z j"
    using put_reserved_spec [OF zl, of rs] pl by auto
  have rl: "length ?r = 512" using rsp(1) zl by (simp add: same_outside_def)
  have free: "\<forall>x \<in> set slots. unat x < 4 \<and> entry_bytes ?r (unat x) = replicate 16 0"
  proof
    fix x assume x: "x \<in> set slots"
    then have x4: "unat x < 4" using pl by blast
    have "unat x \<notin> (\<lambda>r. unat (r_slot r)) ` set rs" using apart x by fastforce
    then show "unat x < 4 \<and> entry_bytes ?r (unat x) = replicate 16 0"
      using x4 rsp(3) z by simp
  qed
  obtain s where s: "put_entries existing (zip ps slots) ?r = Ok s" "same_outside ?r s"
    "\<forall>k < length ps. entry_bytes s (unat (slots ! k)) = encode_part existing (ps ! k) (slots ! k)"
    "\<forall>j < 4. j \<notin> unat ` set slots \<longrightarrow> entry_bytes s j = entry_bytes ?r j"
    using put_entries_spec [OF assms(1) rl _ _ free, of ps] pl by auto
  have sl: "length s = 512" using s(2) rl by (simp add: same_outside_def)
  let ?s = "s[510 := 0x55, 511 := 0xAA]"
  have eb: "entry_bytes ?s j = entry_bytes s j" if "j < 4" for j
    using that sl by (simp add: entry_bytes_list_update)
  show ?thesis
  proof (rule that [of ?s])
    show "build_mbr_sector existing ps slots rs = Ok ?s"
      using s(1) by (simp add: build_mbr_sector_def Let_def)
    show "length ?s = 512" "?s ! 510 = 0x55" "?s ! 511 = 0xAA" using sl by simp_all
    show "\<forall>i < 446. ?s ! i = existing ! i"
      using s(2) rsp(1) assms(1) sl rl by (auto simp: same_outside_def nth_copy_at)
    show "\<forall>k < length ps. entry_bytes ?s (unat (slots ! k)) = encode_part existing (ps ! k) (slots ! k)"
      using s(3) pl by (simp add: eb)
    show "\<forall>r \<in> set rs. entry_bytes ?s (unat (r_slot r)) = r_bytes r"
    proof
      fix r assume r: "r \<in> set rs"
      then have r4: "unat (r_slot r) < 4" using pl by blast
      have "unat (r_slot r) \<notin> unat ` set slots" using apart r by fastforce
      then show "entry_bytes ?s (unat (r_slot r)) = r_bytes r"
        using s(4) rsp(2) r r4 by (simp add: eb)
    qed
    show "\<forall>j < 4. j \<notin> unat ` (set slots \<union> r_slot ` set rs) \<longrightarrow> entry_bytes ?s j = replicate 16 0"
      using s(4) rsp(3) z by (auto simp: eb image_Un image_image)
  qed
qed

section \<open>What the reader sees in a slot\<close>

text \<open>The reader as a function of the sixteen bytes of the slot.\<close>

lemma parse_slot_bytes:
  assumes "length s = 512" and "i < 4"
  shows "parse_slot s dev i =
    (let e = entry_bytes s i in
     if e ! 4 = 0 \<or> le32 e 12 = 0 then None
     else Some \<lparr>p_start = ucast (le32 e 8) * 512, p_length = ucast (le32 e 12) * 512,
       p_kind = Mbr (e ! 4) ((e ! 0 AND 0x80) \<noteq> 0), p_label = None, p_uuid = None,
       p_slot = Some (of_nat i), p_issues = 0,
       p_available_length = available_on_device (ucast (le32 e 8) * 512) (ucast (le32 e 12) * 512) dev\<rparr>)"
proof -
  have "s ! entry_at i = entry_bytes s i ! 0"
    using entry_bytes_nth [OF assms, of 0] by simp
  then show ?thesis
    using assms by (simp add: parse_slot_def Let_def entry_bytes_nth entry_bytes_le32)
qed

lemma encode_entry_reads:
  assumes "length old = 16"
  shows "encode_entry old tb act st n ! 0 = (if act then 0x80 else 0)"
    and "encode_entry old tb act st n ! 4 = tb"
    and "le32 (encode_entry old tb act st n) 8 = st"
    and "le32 (encode_entry old tb act st n) 12 = n"
proof -
  let ?e = "encode_entry old tb act st n"
  define a b where "a = (if same_range old st n then slice_of 1 3 old else [0,0,0])"
    and "b = (if same_range old st n then slice_of 5 3 old else [0,0,0])"
  have e: "?e = [if act then 0x80 else 0] @ a @ [tb] @ b @ le32_bytes st @ le32_bytes n"
    by (simp add: encode_entry_def a_def b_def)
  have l: "length a = 3" "length b = 3" using assms by (simp_all add: a_def b_def)
  then show "?e ! 0 = (if act then 0x80 else 0)" "?e ! 4 = tb"
    unfolding e by (simp_all add: nth_append)
  have "slice_of 8 4 ?e = le32_bytes st" "slice_of 12 4 ?e = le32_bytes n"
    unfolding e using l by (simp_all add: slice_of_def)
  then show "le32 ?e 8 = st" "le32 ?e 12 = n"
    using take_bit_length_eq [of st] take_bit_length_eq [of n] by (simp_all add: le32_def from_le_to_le)
qed

section \<open>Round trips\<close>

text \<open>A partition as the next probe of the table reports it.\<close>

definition as_read :: "partition \<Rightarrow> u32 \<Rightarrow> partition" where
  "as_read p slot = p\<lparr>p_label := None, p_uuid := None, p_slot := Some slot, p_issues := 0,
     p_available_length := p_length p\<rparr>"

lemma available_within:
  "unat start + unat len \<le> unat dev \<Longrightarrow> available_on_device start len dev = len"
  by (auto simp: available_on_device_def word_le_nat_alt unat_saturating_sub min_def
      word_unat_eq_iff)

lemma sectors_of_bytes:
  fixes w :: u64
  assumes "unat w mod 512 = 0" and "unat w div 512 < 2 ^ 32"
  shows "ucast (ucast (w div 512) :: u32) * 512 = w"
proof -
  have "unat (ucast (ucast (w div 512) :: u32) :: u64) = unat w div 512"
    using assms(2) by (simp add: unat_ucast unat_div_distrib)
  then have "unat (ucast (ucast (w div 512) :: u32) * (512 :: u64)) = unat w div 512 * 512 mod 2 ^ 64"
    by (simp add: unat_word_ariths)
  also have "\<dots> = unat w" using assms(1) unat_lt [of w]
    by (simp add: minus_mod_eq_div_mult [symmetric])
  finally show ?thesis by (simp add: word_unat_eq_iff)
qed

lemma parse_encoded:
  assumes "length s = 512" and "unat slot < 4" and "length existing = 512"
    and "entry_bytes s (unat slot) = encode_part existing p slot"
    and "validate_mbr_partition p bytes = Ok u" and "type_byte (p_kind p) \<noteq> EMPTY"
  shows "parse_slot s bytes (unat slot) = Some (as_read p slot)"
proof -
  note v = validate_mbr_partition_Ok [OF assms(5)]
  obtain tb act where k: "p_kind p = Mbr tb act" using v(1) by blast
  have st: "ucast (ucast (p_start p div 512) :: u32) * 512 = p_start p"
    and ln: "ucast (ucast (p_length p div 512) :: u32) * 512 = p_length p"
    using v by (simp_all add: sectors_of_bytes)
  have nz: "(ucast (p_length p div 512) :: u32) \<noteq> 0"
    using v(4) ln by force
  have e16: "length (entry_bytes existing (unat slot)) = 16" using assms(2,3) by simp
  show ?thesis
    unfolding parse_slot_bytes [OF assms(1,2)] assms(4)
    using assms(6) nz
    by (simp add: encode_part_def encode_entry_reads [OF e16] st ln k Let_def as_read_def
        available_within [OF v(8)])
qed

text \<open>
  An entry that a probe does not report as a volume: what \<open>reserved_entries\<close>
  collects, and what a caller may hand to the writer to be put back.
\<close>

definition keeps_out :: "reserved_entry \<Rightarrow> bool" where
  "keeps_out r \<longleftrightarrow> length (r_bytes r) = 16 \<and> r_bytes r ! 4 \<noteq> EMPTY \<and>
     (entry_role (r_bytes r ! 4) \<noteq> Volume \<or> le32 (r_bytes r) 12 = 0)"

lemma reserved_entries_mem:
  assumes "length s = 512"
  shows "r \<in> set (reserved_entries s) \<longleftrightarrow>
     unat (r_slot r) < 4 \<and> r_bytes r = entry_bytes s (unat (r_slot r)) \<and> keeps_out r"
    (is "_ \<longleftrightarrow> ?R")
proof
  assume "r \<in> set (reserved_entries s)"
  then obtain i where "i < 4" and "r = \<lparr>r_slot = of_nat i, r_bytes = entry_bytes s i\<rparr>"
    and "s ! (entry_at i + 4) \<noteq> 0" and "\<not> (entry_role (s ! (entry_at i + 4)) = Volume \<and> le32 s (entry_at i + 12) \<noteq> 0)"
    by (auto simp: reserved_entries_def set_map_filter Let_def split: if_splits)
  then show ?R
    using assms by (auto simp: keeps_out_def entry_bytes_nth entry_bytes_le32 unat_of_nat)
next
  assume r: ?R
  let ?i = "unat (r_slot r)"
  have e: "r = \<lparr>r_slot = of_nat ?i, r_bytes = entry_bytes s ?i\<rparr>" using r by simp
  have "s ! (entry_at ?i + 4) \<noteq> 0"
    and "\<not> (entry_role (s ! (entry_at ?i + 4)) = Volume \<and> le32 s (entry_at ?i + 12) \<noteq> 0)"
    using r assms by (auto simp: keeps_out_def entry_bytes_nth entry_bytes_le32)
  then show "r \<in> set (reserved_entries s)"
    using r e by (auto simp: reserved_entries_def set_map_filter Let_def intro!: bexI [of _ ?i])
qed

lemma mbr_parse_mem:
  assumes "length s = 512"
  shows "\<exists>vs. mbr_parse s dev = Ok vs \<and>
    (\<forall>v. v \<in> set vs \<longleftrightarrow> (\<exists>i < 4. parse_slot s dev i = Some v \<and> entry_role (entry_bytes s i ! 4) = Volume))"
proof -
  let ?vs = "filter is_volume (List.map_filter (parse_slot s dev) [0..<4])"
  have k: "is_volume v \<longleftrightarrow> entry_role (entry_bytes s i ! 4) = Volume"
    if "parse_slot s dev i = Some v" "i < 4" for i v
    using that assms by (auto simp: parse_slot_bytes is_volume_def Let_def split: if_splits)
  have "mbr_parse s dev = Ok ?vs" by (simp add: mbr_parse_def parse_all_entries_def)
  moreover have "v \<in> set ?vs \<longleftrightarrow>
      (\<exists>i < 4. parse_slot s dev i = Some v \<and> entry_role (entry_bytes s i ! 4) = Volume)" for v
    using k by (auto simp: set_map_filter)
  ultimately show ?thesis by blast
qed

text \<open>What the finished sector holds.\<close>

definition written :: "u8 list \<Rightarrow> partition list \<Rightarrow> u32 list \<Rightarrow> reserved_entry list \<Rightarrow> u8 list \<Rightarrow> bool" where
  "written existing ps slots rs s \<longleftrightarrow> length s = 512 \<and>
     (\<forall>i < 446. s ! i = existing ! i) \<and> s ! 510 = 0x55 \<and> s ! 511 = 0xAA \<and>
     (\<forall>k < length ps. entry_bytes s (unat (slots ! k)) = encode_part existing (ps ! k) (slots ! k)) \<and>
     (\<forall>r \<in> set rs. entry_bytes s (unat (r_slot r)) = r_bytes r) \<and>
     (\<forall>j < 4. j \<notin> unat ` (set slots \<union> r_slot ` set rs) \<longrightarrow> entry_bytes s j = replicate 16 0)"

lemma build_mbr_sector_written:
  assumes "length existing = 512" and "placed ps slots rs"
  shows "\<exists>s. build_mbr_sector existing ps slots rs = Ok s \<and> written existing ps slots rs s"
  by (rule build_mbr_sector_spec [OF assms]) (simp add: written_def)

lemma placedD:
  assumes "placed ps slots rs"
  shows "length slots = length ps" and "distinct slots" and "distinct (map r_slot rs)"
    and "\<And>k. k < length ps \<Longrightarrow> unat (slots ! k) < 4" and "\<And>r. r \<in> set rs \<Longrightarrow> unat (r_slot r) < 4"
  using assms by (auto simp: placed_def)

lemma written_cases:
  assumes "written existing ps slots rs s" and "placed ps slots rs" and "i < 4"
  obtains (part) k where "k < length ps" and "i = unat (slots ! k)"
    | (kept) r where "r \<in> set rs" and "i = unat (r_slot r)" and "entry_bytes s i = r_bytes r"
    | (free) "entry_bytes s i = replicate 16 0"
proof -
  consider (a) x where "x \<in> set slots" "i = unat x" | (b) r where "r \<in> set rs" "i = unat (r_slot r)"
    | (c) "i \<notin> unat ` (set slots \<union> r_slot ` set rs)" by auto
  then show ?thesis
  proof cases
    case a
    then show ?thesis using part placedD(1) [OF assms(2)] by (auto simp: in_set_conv_nth)
  next
    case b
    then show ?thesis using kept assms(1) by (auto simp: written_def)
  next
    case c
    then show ?thesis using free assms(1,3) by (simp add: written_def)
  qed
qed

abbreviation volume_type :: "u8 \<Rightarrow> bool" where
  "volume_type tb \<equiv> tb \<noteq> EMPTY \<and> entry_role tb = Volume"

text \<open>
  A partition with the type of a volume, and one with the type of an extended container or of the
  protective entry. A partition of type 0 is neither.
\<close>

definition volume_part :: "partition \<Rightarrow> bool" where
  "volume_part p \<longleftrightarrow> volume_type (type_byte (p_kind p))"

definition hidden_part :: "partition \<Rightarrow> bool" where
  "hidden_part p \<longleftrightarrow> type_byte (p_kind p) \<noteq> EMPTY \<and> entry_role (type_byte (p_kind p)) \<noteq> Volume"

lemma written_entry:
  assumes "written existing ps slots rs s" and "placed ps slots rs" and "length existing = 512"
    and "k < length ps" and "validate_mbr_partition (ps ! k) bytes = Ok u"
  shows "entry_bytes s (unat (slots ! k)) ! 4 = type_byte (p_kind (ps ! k))"
    and "type_byte (p_kind (ps ! k)) \<noteq> EMPTY \<Longrightarrow>
      parse_slot s bytes (unat (slots ! k)) = Some (as_read (ps ! k) (slots ! k)) \<and> le32 (entry_bytes s (unat (slots ! k))) 12 \<noteq> 0"
    and "type_byte (p_kind (ps ! k)) = EMPTY \<Longrightarrow> parse_slot s bytes (unat (slots ! k)) = None"
proof -
  have s: "length s = 512"
    and e: "entry_bytes s (unat (slots ! k)) = encode_part existing (ps ! k) (slots ! k)"
    using assms(1,4) by (simp_all add: written_def)
  note x = placedD(4) [OF assms(2,4)]
  show t: "entry_bytes s (unat (slots ! k)) ! 4 = type_byte (p_kind (ps ! k))"
    unfolding e using assms(3) x by (simp add: encode_part_def encode_entry_reads)
  show "parse_slot s bytes (unat (slots ! k)) = Some (as_read (ps ! k) (slots ! k)) \<and> le32 (entry_bytes s (unat (slots ! k))) 12 \<noteq> 0"
    if "type_byte (p_kind (ps ! k)) \<noteq> EMPTY"
  proof
    show "parse_slot s bytes (unat (slots ! k)) = Some (as_read (ps ! k) (slots ! k))"
      by (rule parse_encoded [OF s x assms(3) e assms(5) that])
    then show "le32 (entry_bytes s (unat (slots ! k))) 12 \<noteq> 0"
      by (auto simp: parse_slot_bytes [OF s x] Let_def split: if_splits)
  qed
  show "parse_slot s bytes (unat (slots ! k)) = None" if "type_byte (p_kind (ps ! k)) = EMPTY"
    using t that by (simp add: parse_slot_bytes [OF s x] Let_def)
qed

lemma parse_slot_slot: "parse_slot s dev i = Some p \<Longrightarrow> p_slot p = Some (of_nat i)"
  by (auto simp: parse_slot_def Let_def split: if_splits)

lemma of_nat_slot_eq: "i < 4 \<Longrightarrow> j < 4 \<Longrightarrow> (of_nat i :: u32) = of_nat j \<longleftrightarrow> i = j"
  by (simp add: word_unat_eq_iff unat_of_nat)

lemma mbr_parse_distinct: "mbr_parse s dev = Ok vs \<Longrightarrow> distinct vs"
  by (auto simp: mbr_parse_def parse_all_entries_def of_nat_slot_eq
      intro!: distinct_filter distinct_map_filter dest!: parse_slot_slot)

lemma reserved_entries_distinct: "distinct (reserved_entries s)"
  unfolding reserved_entries_def
  by (rule distinct_map_filter) (auto simp: Let_def of_nat_slot_eq split: if_splits)

text \<open>
  The volumes read back are the partitions of a volume type, and the reserved entries those kept
  and the partitions of the other types.
\<close>

lemma zip_filter_nth:
  "length slots = length ps \<Longrightarrow>
   x \<in> set (filter (\<lambda>(p, s). P p) (zip ps slots)) \<longleftrightarrow> (\<exists>k < length ps. P (ps ! k) \<and> x = (ps ! k, slots ! k))"
  by (auto simp: set_zip)

lemma distinct_zip_filter:
  assumes "distinct slots"
  shows "distinct (map snd (filter (\<lambda>(p, s). P p) (zip ps slots)))"
proof -
  have "distinct (map snd (zip ps slots))" using assms by (simp add: map_snd_zip_take)
  then show ?thesis by (rule List.distinct_map_filter)
qed

lemma written_parse:
  assumes w: "written existing ps slots rs s" and pl: "placed ps slots rs" and ex: "length existing = 512"
    and v: "\<forall>p \<in> set ps. validate_mbr_partition p bytes = Ok ()" and ko: "\<forall>r \<in> set rs. keeps_out r"
  shows "\<exists>vs. mbr_parse s bytes = Ok vs \<and>
    mset vs = mset (map (\<lambda>(p, s). as_read p s) (filter (\<lambda>(p, s). volume_part p) (zip ps slots)))"
proof -
  let ?xs = "filter (\<lambda>(p, s). volume_part p) (zip ps slots)"
  have s: "length s = 512" using w by (simp add: written_def)
  obtain vs where vs: "mbr_parse s bytes = Ok vs"
    and mem: "\<And>v. v \<in> set vs \<longleftrightarrow> (\<exists>i < 4. parse_slot s bytes i = Some v \<and> entry_role (entry_bytes s i ! 4) = Volume)"
    using mbr_parse_mem [OF s, of bytes] by blast
  note ent = written_entry [OF w pl ex _ v [rule_format, OF nth_mem]]
  have "v \<in> set vs \<longleftrightarrow> (\<exists>k < length ps. volume_part (ps ! k) \<and> v = as_read (ps ! k) (slots ! k))" for v
  proof
    assume "v \<in> set vs"
    then obtain i where i: "i < 4" "parse_slot s bytes i = Some v" "entry_role (entry_bytes s i ! 4) = Volume"
      unfolding mem by blast
    from w pl i(1) show "\<exists>k < length ps. volume_part (ps ! k) \<and> v = as_read (ps ! k) (slots ! k)"
    proof (cases rule: written_cases)
      case (part k)
      then show ?thesis using ent [of k] i(2,3) by (cases "type_byte (p_kind (ps ! k)) = EMPTY") (auto simp: volume_part_def)
    qed (use i ko in \<open>auto simp: parse_slot_bytes [OF s] keeps_out_def Let_def split: if_splits\<close>)
  next
    assume "\<exists>k < length ps. volume_part (ps ! k) \<and> v = as_read (ps ! k) (slots ! k)"
    then obtain k where k: "k < length ps" "volume_part (ps ! k)" "v = as_read (ps ! k) (slots ! k)" by blast
    show "v \<in> set vs" unfolding mem
      using k ent [OF k(1) k(1)] placedD(4) [OF pl k(1)] by (intro exI [of _ "unat (slots ! k)"]) (simp add: volume_part_def)
  qed
  then have "set vs = set (map (\<lambda>(p, s). as_read p s) ?xs)"
    unfolding set_map using zip_filter_nth [OF placedD(1) [OF pl], of _ volume_part] by (auto simp: image_iff) blast
  moreover have "map p_slot (map (\<lambda>(p, s). as_read p s) ?xs) = map Some (map snd ?xs)" by (auto simp: as_read_def)
  then have "distinct (map p_slot (map (\<lambda>(p, s). as_read p s) ?xs))"
    using distinct_zip_filter [OF placedD(2) [OF pl], of volume_part ps] by (simp only: distinct_map) simp
  then have "distinct (map (\<lambda>(p, s). as_read p s) ?xs)" by (simp only: distinct_map)
  ultimately have "mset vs = mset (map (\<lambda>(p, s). as_read p s) ?xs)"
    using mbr_parse_distinct [OF vs] set_eq_iff_mset_eq_distinct by blast
  with vs show ?thesis by blast
qed

definition entry_of :: "u8 list \<Rightarrow> u32 \<Rightarrow> reserved_entry" where
  "entry_of s slot = \<lparr>r_slot = slot, r_bytes = entry_bytes s (unat slot)\<rparr>"

lemma written_reserved:
  assumes w: "written existing ps slots rs s" and pl: "placed ps slots rs" and ex: "length existing = 512"
    and v: "\<forall>p \<in> set ps. validate_mbr_partition p bytes = Ok ()" and ko: "\<forall>r \<in> set rs. keeps_out r"
  shows "mset (reserved_entries s) = mset rs + mset (map (\<lambda>(p, slot). entry_of s slot) (filter (\<lambda>(p, s). hidden_part p) (zip ps slots)))"
proof -
  let ?xs = "filter (\<lambda>(p, s). hidden_part p) (zip ps slots)"
  let ?hs = "map (\<lambda>(p, slot). entry_of s slot) ?xs"
  have s: "length s = 512" and re: "\<forall>r \<in> set rs. entry_bytes s (unat (r_slot r)) = r_bytes r"
    using w by (auto simp: written_def)
  note ent = written_entry [OF w pl ex _ v [rule_format, OF nth_mem]]
  have hs: "x \<in> set ?hs \<longleftrightarrow> (\<exists>k < length ps. hidden_part (ps ! k) \<and> x = entry_of s (slots ! k))" for x
    unfolding set_map using zip_filter_nth [OF placedD(1) [OF pl], of _ hidden_part] by (auto simp: image_iff)
  have "r \<in> set (reserved_entries s) \<longleftrightarrow> r \<in> set (rs @ ?hs)" for r
  proof
    assume "r \<in> set (reserved_entries s)"
    then have r: "unat (r_slot r) < 4" "r_bytes r = entry_bytes s (unat (r_slot r))" "keeps_out r"
      by (simp_all add: reserved_entries_mem [OF s])
    from w pl r(1) show "r \<in> set (rs @ ?hs)"
    proof (cases rule: written_cases)
      case (part k)
      have "r = entry_of s (slots ! k)"
        using part r(2) by (intro reserved_entry.equality) (auto simp: entry_of_def word_unat_eq_iff)
      moreover have "hidden_part (ps ! k)" using part ent [of k] r by (auto simp: keeps_out_def hidden_part_def)
      ultimately show ?thesis using part(1) hs by auto
    next
      case (kept r')
      have "r = r'"
        using kept r(2) by (intro reserved_entry.equality) (auto simp: word_unat_eq_iff)
      then show ?thesis using kept(1) by simp
    next
      case free
      then show ?thesis using r by (auto simp: keeps_out_def)
    qed
  next
    assume "r \<in> set (rs @ ?hs)"
    then consider "r \<in> set rs" | k where "k < length ps" "hidden_part (ps ! k)" "r = entry_of s (slots ! k)"
      using hs by auto
    then show "r \<in> set (reserved_entries s)"
    proof cases
      case 1
      then show ?thesis using re ko placedD(5) [OF pl] by (simp add: reserved_entries_mem [OF s])
    next
      case 2
      have "length (entry_bytes s (unat (slots ! k))) = 16" using s placedD(4) [OF pl 2(1)] by simp
      then show ?thesis using 2 ent(1) [OF 2(1) 2(1)] placedD(4) [OF pl 2(1)]
        by (simp add: reserved_entries_mem [OF s] entry_of_def keeps_out_def hidden_part_def)
    qed
  qed
  then have "set (reserved_entries s) = set (rs @ ?hs)" by blast
  moreover have "distinct (map r_slot (rs @ ?hs))"
  proof -
    have "map r_slot ?hs = map snd ?xs" by (auto simp: entry_of_def)
    moreover have "set (map snd ?xs) \<inter> r_slot ` set rs = {}" using pl by (auto simp: placed_def dest: set_zip_rightD)
    ultimately show ?thesis
      using placedD(3) [OF pl] distinct_zip_filter [OF placedD(2) [OF pl], of hidden_part ps] by (simp del: map_map) blast
  qed
  then have "distinct (rs @ ?hs)" by (simp only: distinct_map)
  ultimately have "mset (reserved_entries s) = mset (rs @ ?hs)"
    using reserved_entries_distinct [of s] set_eq_iff_mset_eq_distinct by blast
  then show ?thesis by (simp only: mset_append)
qed

section \<open>The writer on a device\<close>

text \<open>
  On a device that keeps the contract of \<open>BlockDevice\<close> the checks made before
  the write decide the outcome alone.
\<close>

context block_store
begin

lemma write_mbr_outcome:
  assumes d: "invar d" and rs: "\<forall>r \<in> set rs. length (r_bytes r) = 16"
  shows "case plan_mbr (is_writable dv d) (size_bytes dv d) ps rs of
      Inl e \<Rightarrow> write_mbr_assigning_slots dv d ps rs = (Err e, d)
    | Inr slots \<Rightarrow> \<exists>d' s. write_mbr_assigning_slots dv d ps rs = (Ok slots, d') \<and>
        contents d' = copy_at 0 s (contents d) \<and> size_bytes dv d' = size_bytes dv d \<and> invar d' \<and>
        is_writable dv d' \<and> placed ps slots rs \<and> 512 \<le> length (contents d) \<and>
        written (take 512 (contents d)) ps slots rs s"
proof (cases "plan_mbr (is_writable dv d) (size_bytes dv d) ps rs")
  case (Inl e)
  then show ?thesis by (simp add: write_mbr_assigning_slots_def)
next
  case (Inr slots)
  note pl = plan_mbr_Ok [OF Inr]
  have len: "512 \<le> length (contents d)" using pl(3) size_contents [OF d] by simp
  have placed: "placed ps slots rs" using plan_mbr_placed [OF Inr rs] .
  let ?ex = "take 512 (contents d)"
  have rd: "read_at dv d 0 512 = Ok ?ex" using read_within [OF d, of 0 512] len by (simp add: slice_of_def)
  obtain s where b: "build_mbr_sector ?ex ps slots rs = Ok s" and w: "written ?ex ps slots rs s"
    using build_mbr_sector_written [OF _ placed, of ?ex] len by auto
  have ls: "length s = 512" using w by (simp add: written_def)
  obtain r d' where wr: "write_at dv d 0 s = (r, d')" by (cases "write_at dv d 0 s") auto
  have "unat (0::u64) + length s \<le> length (contents d)" using ls len by simp
  note we = write_within_eq [OF d pl(1) this wr]
  have "write_mbr_assigning_slots dv d ps rs = (Ok slots, d')"
    using Inr rd b wr we(1) by (simp add: write_mbr_assigning_slots_def)
  then show ?thesis using Inr we len w placed by auto
qed

end

text \<open>A sector is determined by its boot area, its four entries and its signature.\<close>

lemma sector_eqI:
  assumes "length s = 512" and "length t = 512" and "\<forall>i < 446. s ! i = t ! i"
    and "\<forall>j < 4. entry_bytes s j = entry_bytes t j" and "s ! 510 = t ! 510" and "s ! 511 = t ! 511"
  shows "s = t"
proof (rule nth_equalityI)
  fix i assume "i < length s"
  then consider "i < 446" | "446 \<le> i" "i < 510" | "i = 510" | "i = 511" using assms(1) by linarith
  then show "s ! i = t ! i"
  proof cases
    case 2
    define j k where "j = (i - 446) div 16" and "k = (i - 446) mod 16"
    have "j < 4" "k < 16" and i: "i = entry_at j + k" using 2 by (auto simp: j_def k_def entry_at_def)
    then show ?thesis using assms by (simp add: entry_bytes_nth)
  qed (use assms in auto)
qed (use assms in simp)

text \<open>An entry written back unchanged is byte for byte the entry that was there.\<close>

lemma encode_unchanged:
  assumes "length s = 512" and "i < 4" and "parse_slot s dev i = Some p"
    and "entry_bytes s i ! 0 = 0 \<or> entry_bytes s i ! 0 = 0x80"
  shows "encode_part s p (of_nat i) = entry_bytes s i"
proof -
  let ?e = "entry_bytes s i"
  have l: "length ?e = 16" using assms(1,2) by simp
  have i: "unat (of_nat i :: u32) = i" using assms(2) by (simp add: unat_of_nat)
  have nz: "?e ! 4 \<noteq> 0" and p: "p_start p = ucast (le32 ?e 8) * 512" "p_length p = ucast (le32 ?e 12) * 512"
    "p_kind p = Mbr (?e ! 4) ((?e ! 0 AND 0x80) \<noteq> 0)"
    using assms(3) by (auto simp: parse_slot_bytes [OF assms(1,2)] Let_def split: if_splits)
  have cancel: "ucast ((ucast w * 512 :: u64) div 512) = w" for w :: u32
    using unat_lt [of w] by (simp add: word_unat_eq_iff unat_ucast unat_div_distrib unat_word_ariths)
  have st: "(?e ! 0 AND 0x80) \<noteq> 0 \<longleftrightarrow> ?e ! 0 = 0x80" using assms(4) by auto
  have same: "same_range ?e (le32 ?e 8) (le32 ?e 12)"
    using nz l by (simp add: same_range_def le32_bytes_le32)
  have "encode_part s p (of_nat i) = [?e ! 0] @ slice_of 1 3 ?e @ [?e ! 4] @ slice_of 5 3 ?e
      @ slice_of 8 4 ?e @ slice_of 12 4 ?e"
    using assms(4) l same by (auto simp: encode_part_def encode_entry_def p cancel i st le32_bytes_le32)
  also have "\<dots> = slice_of 0 1 ?e @ slice_of (0 + 1) 3 ?e @ slice_of (0 + (1 + 3)) 1 ?e
      @ slice_of (0 + (1 + 3 + 1)) 3 ?e @ slice_of (0 + (1 + 3 + 1 + 3)) 4 ?e
      @ slice_of (0 + (1 + 3 + 1 + 3 + 4)) 4 ?e"
    using l by (simp add: slice_singleton [simplified])
  also have "\<dots> = slice_of 0 16 ?e"
    by (simp only: append_assoc [symmetric] slice_append) simp
  also have "\<dots> = ?e" using l by simp
  finally show ?thesis .
qed

text \<open>The ranges a partition may have in an MBR, in natural numbers.\<close>

definition mbr_valid :: "u64 \<Rightarrow> partition \<Rightarrow> bool" where
  "mbr_valid bytes p \<longleftrightarrow> (\<exists>tb act. p_kind p = Mbr tb act) \<and>
     unat (p_start p) mod 512 = 0 \<and> unat (p_length p) mod 512 = 0 \<and> 0 < unat (p_length p) \<and>
     512 \<le> unat (p_start p) \<and> unat (p_start p) div 512 < 2 ^ 32 \<and> unat (p_length p) div 512 < 2 ^ 32 \<and>
     unat (p_start p) + unat (p_length p) \<le> unat bytes"

lemma validate_mbr_partition_iff: "validate_mbr_partition p bytes = Ok u \<longleftrightarrow> mbr_valid bytes p"
proof
  assume "validate_mbr_partition p bytes = Ok u"
  then show "mbr_valid bytes p"
    unfolding mbr_valid_def by (intro conjI) (rule validate_mbr_partition_Ok, assumption)+
next
  assume v: "mbr_valid bytes p"
  then obtain tb act where k: "p_kind p = Mbr tb act" by (auto simp: mbr_valid_def)
  let ?b = "(p_start p + p_length p - 1) div 512"
  have fit: "unat (p_start p) + unat (p_length p) < 2 ^ 64"
    using v unat_lt [of bytes] by (simp add: mbr_valid_def)
  then have ca: "checked_add (p_start p) (p_length p) = Some (p_start p + p_length p)"
    by (simp add: checked_add_def)
  have nz: "p_length p \<noteq> 0" using v by (auto simp: mbr_valid_def)
  have sp: "sector_span p = Ok (p_start p div 512, ?b)"
    by (simp add: sector_span_def nz ca)
  have "unat (p_start p + p_length p) = unat (p_start p) + unat (p_length p)"
    using fit by (simp add: unat_add_lem [symmetric])
  moreover have "\<not> p_start p div 512 > 0xFFFFFFFF" "\<not> p_length p div 512 > 0xFFFFFFFF" "\<not> p_start p div 512 < 1"
    using v by (auto simp: mbr_valid_def word_less_nat_alt unat_div_distrib)
  ultimately show "validate_mbr_partition p bytes = Ok u"
    using v nz by (simp add: validate_mbr_partition_def k sp ca is_multiple_of_iff mbr_valid_def
        word_less_nat_alt)
qed

lemma mbr_valid_span:
  assumes "mbr_valid bytes p"
  shows "\<exists>a b. sector_span p = Ok (a, b)"
proof -
  have "p_length p \<noteq> 0" "unat (p_start p) + unat (p_length p) < 2 ^ 64"
    using assms unat_lt [of bytes] by (auto simp: mbr_valid_def)
  then show ?thesis by (simp add: sector_span_def checked_add_def)
qed

lemma mbr_plan_iff:
  "(\<exists>slots. plan_mbr w bytes ps rs = Ok slots) \<longleftrightarrow>
     w \<and> length ps + length rs \<le> 4 \<and> 512 \<le> unat bytes \<and> (\<forall>p \<in> set ps. mbr_valid bytes p) \<and>
     disjoint_spans (map span_of ps @ List.map_filter reserved_span rs) \<and>
     slots_available ps 4 (map r_slot rs)" (is "?L \<longleftrightarrow> ?R")
proof
  assume ?L
  then obtain slots where pl: "plan_mbr w bytes ps rs = Ok slots" by blast
  note f = plan_mbr_Ok [OF pl]
  obtain spans where l2: "list_all2 (\<lambda>p x. sector_span p = Ok x) ps spans"
    and dj: "disjoint_spans (spans @ List.map_filter reserved_span rs)" using f(6) by blast
  have "map span_of ps = spans"
    using l2 by (intro nth_equalityI) (auto simp: list_all2_conv_all_nth span_of_eq)
  then show ?R using f(1-4) dj f(5) assign_slots_total [of ps 4 "map r_slot rs"]
    by (auto simp: validate_mbr_partition_iff)
next
  assume R: ?R
  then obtain slots where sl: "assign_slots_with_taken ps 4 (map r_slot rs) = Ok slots"
    using assign_slots_total by blast
  have v: "validate_mbr_partition p bytes = Ok () \<and> sector_span p = Ok (span_of p)" if "p \<in> set ps" for p
    using that R mbr_valid_span [of bytes p] by (auto simp: validate_mbr_partition_iff span_of_def)
  have tr: "traverse (\<lambda>p. rbind (validate_mbr_partition p bytes) (\<lambda>_. sector_span p)) ps = Ok (map span_of ps)"
    by (rule traverse_Ok_map) (simp add: v)
  let ?all = "map span_of ps @ List.map_filter reserved_span rs"
  have "fst x \<le> snd x" if "x \<in> set ?all" for x
    using that v by (auto simp: set_map_filter dest!: reserved_span_ordered sector_span_ordered)
      (metis prod.collapse sector_span_ordered reserved_span_ordered)+
  then have "\<not> neighbours_overlap (sort ?all)"
    using R disjoint_spans_mset [of "sort ?all" ?all] by (intro disjoint_not_neighbours) auto
  then show ?L using R sl tr by (auto simp: plan_mbr_def word_less_nat_alt)
qed

lemma unedited_entries:
  assumes s: "length s = 512" and i: "i < 4"
    and tidy: "\<forall>i < 4. (entry_bytes s i ! 0 = 0 \<or> entry_bytes s i ! 0 = 0x80) \<and>
       (entry_bytes s i ! 4 = 0 \<longrightarrow> entry_bytes s i = replicate 16 0)"
    and vs: "mbr_parse s dev = Ok vs" and placed: "placed vs slots (reserved_entries s)"
    and keep: "\<And>k x. k < length vs \<Longrightarrow> p_slot (vs ! k) = Some x \<Longrightarrow> slots ! k = x"
    and w: "written s vs slots (reserved_entries s) t"
  shows "entry_bytes t i = entry_bytes s i"
proof -
  have mem: "v \<in> set vs \<longleftrightarrow>
      (\<exists>i < 4. parse_slot s dev i = Some v \<and> entry_role (entry_bytes s i ! 4) = Volume)" for v
    using mbr_parse_mem [OF s, of dev] vs by auto
  have enc: "entry_bytes t j = entry_bytes s j"
    if k: "k < length vs" and j: "j < 4" "parse_slot s dev j = Some (vs ! k)" for k j
  proof -
    have "slots ! k = of_nat j" using keep [OF k] parse_slot_slot [OF j(2)] by simp
    moreover have "unat (of_nat j :: u32) = j" using j(1) by (simp add: unat_of_nat)
    moreover have "entry_bytes t (unat (slots ! k)) = encode_part s (vs ! k) (slots ! k)"
      using w k by (simp add: written_def)
    ultimately show ?thesis using encode_unchanged [OF s j] tidy j(1) by simp
  qed
  from w placed i show ?thesis
  proof (cases rule: written_cases)
    case (part k)
    then obtain j where j: "j < 4" "parse_slot s dev j = Some (vs ! k)" using mem nth_mem by blast
    then have "slots ! k = of_nat j" using keep [OF part(1)] parse_slot_slot by simp
    then have "i = j" using part(2) j(1) by (simp add: unat_of_nat)
    then show ?thesis using enc part(1) j by blast
  next
    case (kept r)
    then show ?thesis by (simp add: reserved_entries_mem [OF s])
  next
    case free
    let ?e = "entry_bytes s i" and ?r = "\<lparr>r_slot = of_nat i, r_bytes = entry_bytes s i\<rparr>"
    consider "?e ! 4 = 0" | "keeps_out ?r"
      | "?e ! 4 \<noteq> 0" "entry_role (?e ! 4) = Volume" "le32 ?e 12 \<noteq> 0"
      using s i by (auto simp: keeps_out_def)
    then show ?thesis
    proof cases
      case 1
      then show ?thesis using tidy i free by simp
    next
      case 2
      then have "?r \<in> set (reserved_entries s)" using i by (simp add: reserved_entries_mem [OF s] unat_of_nat)
      then show ?thesis using w i by (force simp: written_def unat_of_nat)
    next
      case 3
      then obtain v where "parse_slot s dev i = Some v" by (simp add: parse_slot_bytes [OF s i] Let_def)
      then show ?thesis using enc i mem 3(2) by (metis in_set_conv_nth)
    qed
  qed
qed

section \<open>Properties\<close>

text \<open>
  C2: An MBR is written when the plan allows it, and then read back. On a writable device that
  keeps the contract of \<open>BlockDevice\<close>, if the checks made before the write pass and the reserved
  entries handed over are ones a reader keeps out of the volumes (sixteen bytes, a type other
  than 0, and the type of a container or no sectors), the write succeeds with the planned slots;
  the boot code and everything past LBA 0 stay as they were and the signature is in place. What a
  new parse then reports are exactly the partitions written that have the type of a volume, each
  in its slot with no label, no UUID and no issue. The reserved entries are those handed over and,
  with them, the partitions written under the type of an extended container or of the protective
  entry, which the checks let through; a partition of type 0, which they let through too, is not
  reported at all.
\<close>

theorem mbr_write_then_parse:
  assumes dev: "block_store dv contents invar" and d: "invar d"
    and plan: "plan_mbr (is_writable dv d) (size_bytes dv d) ps rs = Ok slots" and rs: "\<forall>r \<in> set rs. keeps_out r"
  shows "\<exists>d' vs. write_mbr_assigning_slots dv d ps rs = (Ok slots, d') \<and>
     length (contents d') = length (contents d) \<and>
     take 446 (contents d') = take 446 (contents d) \<and> drop 512 (contents d') = drop 512 (contents d) \<and>
     contents d' ! 510 = 0x55 \<and> contents d' ! 511 = 0xAA \<and>
     mbr_parse (take 512 (contents d')) (size_bytes dv d') = Ok vs \<and>
     mset vs = mset (map (\<lambda>(p, s). as_read p s) (filter (\<lambda>(p, s). volume_part p) (zip ps slots))) \<and>
     mset (reserved_entries (take 512 (contents d'))) = mset rs +
       mset (map (\<lambda>(p, s). entry_of (take 512 (contents d')) s) (filter (\<lambda>(p, s). hidden_part p) (zip ps slots)))"
proof -
  have r16: "\<forall>r \<in> set rs. length (r_bytes r) = 16" using rs by (simp add: keeps_out_def)
  obtain d' s where wr: "write_mbr_assigning_slots dv d ps rs = (Ok slots, d')"
    and c: "contents d' = copy_at 0 s (contents d)" and sz: "size_bytes dv d' = size_bytes dv d"
    and pl: "placed ps slots rs" and len: "512 \<le> length (contents d)"
    and w: "written (take 512 (contents d)) ps slots rs s"
    using block_store.write_mbr_outcome [OF dev d r16, of ps] plan by auto
  have ex: "length (take 512 (contents d)) = 512" using len by simp
  have v: "\<forall>p \<in> set ps. validate_mbr_partition p (size_bytes dv d) = Ok ()" using plan_mbr_Ok(4) [OF plan] by blast
  have s: "length s = 512" "\<forall>i < 446. s ! i = contents d ! i" "s ! 510 = 0x55" "s ! 511 = 0xAA"
    using w by (auto simp: written_def)
  have t: "take 512 (contents d') = s" and dr: "drop 512 (contents d') = drop 512 (contents d)"
    using s(1) len by (simp_all add: c copy_at_def)
  have "take 446 (contents d') = take 446 (contents d)"
    using s len by (intro nth_equalityI) (auto simp: c copy_at_def nth_append)
  moreover have "contents d' ! 510 = 0x55" "contents d' ! 511 = 0xAA"
    using s by (simp_all add: c copy_at_def nth_append)
  ultimately show ?thesis
    using wr t dr sz len s(1) written_parse [OF w pl ex v rs] written_reserved [OF w pl ex v rs]
    by (auto simp: c)
qed

text \<open>
  A refused MBR write changes nothing. Whatever the error, the device still
  holds every byte it held.
\<close>

theorem mbr_write_refusal_harmless:
  assumes "block_store dv contents invar" and "invar d" and "\<forall>r \<in> set rs. length (r_bytes r) = 16"
    and "write_mbr_assigning_slots dv d ps rs = (Err e, d')"
  shows "d' = d \<and> plan_mbr (is_writable dv d) (size_bytes dv d) ps rs = Err e"
  using block_store.write_mbr_outcome [OF assms(1-3), of ps] assms(4)
  by (cases "plan_mbr (is_writable dv d) (size_bytes dv d) ps rs") auto

text \<open>
  C23: A commit that edits nothing changes nothing. When every status byte is 0 or
  0x80 and every empty slot is blank, writing back the volumes a parse reported
  together with the reserved entries leaves every byte of the device in place,
  the CHS addresses, the boot code and the disk identifier included.
\<close>

theorem mbr_unedited_write_is_identity:
  assumes dev: "block_store dv contents invar" and d: "invar d"
    and sec: "s = take 512 (contents d)" and sig: "s ! 510 = 0x55 \<and> s ! 511 = 0xAA"
    and tidy: "\<forall>i < 4. (entry_bytes s i ! 0 = 0 \<or> entry_bytes s i ! 0 = 0x80) \<and>
       (entry_bytes s i ! 4 = 0 \<longrightarrow> entry_bytes s i = replicate 16 0)"
    and vs: "mbr_parse s (size_bytes dv d) = Ok vs"
    and wr: "write_mbr_assigning_slots dv d vs (reserved_entries s) = (Ok slots, d')"
  shows "contents d' = contents d"
proof -
  let ?rs = "reserved_entries s"
  obtain pl: "plan_mbr (is_writable dv d) (size_bytes dv d) vs ?rs = Ok slots"
    and len: "512 \<le> length (contents d)"
    and dat: "\<exists>t. contents d' = copy_at 0 t (contents d) \<and> placed vs slots ?rs \<and> written s vs slots ?rs t"
  proof -
    have len: "512 \<le> length (contents d)" if "plan_mbr (is_writable dv d) (size_bytes dv d) vs ?rs = Ok slots" for slots
      using plan_mbr_Ok(3) [OF that] block_store.axioms(1) [OF dev, THEN block_reader.size_contents, OF d] by simp
    have "\<forall>r \<in> set ?rs. length (r_bytes r) = 16" if "512 \<le> length (contents d)"
      using that by (simp add: sec reserved_entries_mem keeps_out_def)
    then show ?thesis
      using wr len that block_store.write_mbr_outcome [OF dev d, of ?rs vs]
      by (cases "plan_mbr (is_writable dv d) (size_bytes dv d) vs ?rs")
        (auto simp: write_mbr_assigning_slots_def sec)
  qed
  have s: "length s = 512" using len by (simp add: sec)
  obtain t where c: "contents d' = copy_at 0 t (contents d)" and placed: "placed vs slots ?rs"
    and w: "written s vs slots ?rs t" using dat by blast
  have t: "length t = 512" using w by (simp add: written_def)
  note keep = assign_slots_facts(5) [OF plan_mbr_Ok(5) [OF pl]]
  have "t = s"
    using w s t sig unedited_entries [OF s _ tidy vs placed keep w]
    by (intro sector_eqI) (auto simp: written_def)
  then show ?thesis using len by (simp add: c sec copy_at_def)
qed

definition wit_part :: partition where
  "wit_part = \<lparr>p_start = 512, p_length = 1024, p_kind = Mbr 0x83 True, p_label = None,
     p_uuid = None, p_slot = None, p_issues = 0, p_available_length = 0\<rparr>"

definition wit_reserved :: reserved_entry where
  "wit_reserved = \<lparr>r_slot = 2, r_bytes = [0, 0, 0, 0, 0x05, 0, 0, 0, 3, 0, 0, 0, 1, 0, 0, 0]\<rparr>"

lemma wit_plan: "plan_mbr True 2048 [wit_part] [wit_reserved] = Ok [0]"
  by code_simp

theorem mbr_write_then_parse_witness:
  "\<exists>d' vs. write_mbr_assigning_slots memdev (replicate 2048 0) [wit_part] [wit_reserved] = (Ok [0], d') \<and>
     mbr_parse (take 512 d') 2048 = Ok vs \<and> mset vs = {# as_read wit_part 0 #} \<and>
     mset (reserved_entries (take 512 d')) = {# wit_reserved #}"
  using mbr_write_then_parse [OF memdev.block_store_axioms, of "replicate 2048 0" "[wit_part]" "[wit_reserved]" "[0]"]
    wit_plan
  by (auto simp: memdev_invar_def wit_part_def wit_reserved_def keeps_out_def entry_role_def volume_part_def hidden_part_def)


definition wit_disk :: "u8 list" where
  "wit_disk = replicate 446 7 @ [0x80, 1, 2, 3, 0x83, 4, 5, 6, 1, 0, 0, 0, 2, 0, 0, 0] @ replicate 48 0
     @ [0x55, 0xAA] @ replicate 1536 0"

lemma wit_disk_length: "length wit_disk = 2048"
  by (simp add: wit_disk_def)

lemma wit_disk_entries:
  "entry_bytes (take 512 wit_disk) 0 = [0x80, 1, 2, 3, 0x83, 4, 5, 6, 1, 0, 0, 0, 2, 0, 0, 0]"
  "entry_bytes (take 512 wit_disk) 1 = replicate 16 0"
  "entry_bytes (take 512 wit_disk) 2 = replicate 16 0"
  "entry_bytes (take 512 wit_disk) 3 = replicate 16 0"
  by (simp_all add: entry_bytes_def slice_of_def wit_disk_def entry_at_def)

lemma wit_disk_signature: "take 512 wit_disk ! 510 = 0x55" "take 512 wit_disk ! 511 = 0xAA"
  by (simp_all add: wit_disk_def nth_append)

lemma all_less_4: "(\<forall>i < (4::nat). P i) \<longleftrightarrow> P 0 \<and> P 1 \<and> P 2 \<and> P 3"
  by (auto simp: numeral_eq_Suc less_Suc_eq)

lemma upt_4: "[0..<4] = [0, 1, 2, 3 :: nat]"
  by (simp add: upt_rec)

lemma wit_disk_parse: "mbr_parse (take 512 wit_disk) 2048 = Ok [as_read wit_part 0]"
proof -
  have s: "length (take 512 wit_disk) = 512" by (simp add: wit_disk_length)
  have "parse_slot (take 512 wit_disk) 2048 0 = Some (as_read wit_part 0)"
    unfolding parse_slot_bytes [OF s zero_less_numeral] wit_disk_entries by code_simp
  moreover have "parse_slot (take 512 wit_disk) 2048 i = None" if "i = 1 \<or> i = 2 \<or> i = 3" for i
    using that by (auto simp: parse_slot_bytes [OF s] wit_disk_entries Let_def simp flip: One_nat_def)
  ultimately show ?thesis
    by (simp add: mbr_parse_def parse_all_entries_def upt_4 List.map_filter_simps is_volume_def
        as_read_def wit_part_def entry_role_def flip: One_nat_def)
qed

lemma wit_disk_reserved: "reserved_entries (take 512 wit_disk) = []"
proof -
  have s: "length (take 512 wit_disk) = 512" by (simp add: wit_disk_length)
  have "le32 [0x80, 1, 2, 3, 0x83, 4, 5, 6, 1, 0, 0, 0, 2, 0, 0, 0] 12 = 2" by code_simp
  then have "\<forall>i < 4. r_bytes r = entry_bytes (take 512 wit_disk) i \<longrightarrow> \<not> keeps_out r" for r
    unfolding all_less_4 wit_disk_entries by (auto simp: keeps_out_def entry_role_def)
  then have "r \<notin> set (reserved_entries (take 512 wit_disk))" for r
    by (auto simp: reserved_entries_mem [OF s])
  then show ?thesis by (metis list.set_intros(1) neq_Nil_conv)
qed

lemma wit_disk_plan: "plan_mbr True 2048 [as_read wit_part 0] [] = Ok [0]"
  by code_simp

theorem mbr_unedited_write_is_identity_witness:
  "\<exists>slots. write_mbr_assigning_slots memdev wit_disk [as_read wit_part 0] [] = (Ok slots, wit_disk)"
proof -
  have inv: "memdev_invar wit_disk" by (simp add: memdev_invar_def wit_disk_length)
  obtain d' where wr: "write_mbr_assigning_slots memdev wit_disk [as_read wit_part 0] [] = (Ok [0], d')"
    using memdev.write_mbr_outcome [OF inv, of "[]" "[as_read wit_part 0]"] wit_disk_plan
    by (auto simp: wit_disk_length)
  have "\<forall>i < 4. (entry_bytes (take 512 wit_disk) i ! 0 = 0 \<or> entry_bytes (take 512 wit_disk) i ! 0 = 0x80) \<and>
       (entry_bytes (take 512 wit_disk) i ! 4 = 0 \<longrightarrow> entry_bytes (take 512 wit_disk) i = replicate 16 0)"
    unfolding all_less_4 wit_disk_entries by simp
  then have "d' = wit_disk"
    using mbr_unedited_write_is_identity [OF memdev.block_store_axioms inv refl, of "[as_read wit_part 0]" "[0]" d']
      wr wit_disk_signature wit_disk_parse wit_disk_reserved wit_disk_length by simp
  with wr show ?thesis by blast
qed

theorem mbr_write_refusal_harmless_witness:
  "\<exists>e. write_mbr_assigning_slots memdev wit_disk [wit_part\<lparr>p_start := 0\<rparr>] [] = (Err e, wit_disk)"
proof -
  have inv: "memdev_invar wit_disk" by (simp add: memdev_invar_def wit_disk_length)
  have "plan_mbr True 2048 [wit_part\<lparr>p_start := 0\<rparr>] [] = Err (Invalid ''MBR partition cannot start at LBA 0'')"
    by code_simp
  then obtain e d' where "write_mbr_assigning_slots memdev wit_disk [wit_part\<lparr>p_start := 0\<rparr>] [] = (Err e, d')"
    by (simp add: write_mbr_assigning_slots_def wit_disk_length)
  then show ?thesis
    using mbr_write_refusal_harmless [OF memdev.block_store_axioms inv, of "[]" "[wit_part\<lparr>p_start := 0\<rparr>]" e d']
    by auto
qed

text \<open>
  C27: What the MBR writer accepts, exactly. The checks pass if and only if the
  device is writable and holds a sector, partitions and reserved entries number at
  most four, every partition is a non-empty, sector-aligned range after LBA 0
  within the 32-bit fields and the device, no two ranges (reserved ones with a
  range included) share a sector, and the recorded slots are distinct, in the
  table and not reserved.
\<close>

theorem mbr_plan_accepts:
  "(\<exists>slots. plan_mbr w bytes ps rs = Ok slots) \<longleftrightarrow>
     w \<and> length ps + length rs \<le> 4 \<and> 512 \<le> unat bytes \<and> list_all (mbr_valid bytes) ps \<and>
     disjoint_spans (map span_of ps @ List.map_filter reserved_span rs) \<and>
     slots_available ps 4 (map r_slot rs)"
  unfolding mbr_plan_iff list_all_iff ..

text \<open>
  The reader and the reserved list split the table. Of the four slots, those
  with an empty type byte are in neither list, and every other slot is in exactly
  one: the volumes \<open>mbr_parse\<close> reports, or the entries \<open>reserved_entries\<close>
  keeps.
\<close>

theorem mbr_entries_split:
  assumes "length lba0 = 512" and "i < 4" and "mbr_parse lba0 dev = Ok vs"
  shows "(if lba0 ! (entry_at i + 4) = EMPTY then 0 else 1) =
     length (filter (\<lambda>v. p_slot v = Some (of_nat i)) vs)
     + length (filter (\<lambda>r. r_slot r = of_nat i) (reserved_entries lba0))"
proof -
  note s = assms(1) and i = assms(2)
  let ?e = "entry_bytes lba0 i"
  let ?r = "\<lparr>r_slot = of_nat i, r_bytes = ?e\<rparr>"
  have u: "unat (of_nat i :: u32) = i" using i by (simp add: unat_of_nat)
  have card: "length (filter P xs) = card {x \<in> set xs. P x}" if "distinct xs" for P and xs :: "'z list"
    using distinct_card [of "filter P xs"] that by simp
  have mem: "v \<in> set vs \<longleftrightarrow>
      (\<exists>i < 4. parse_slot lba0 dev i = Some v \<and> entry_role (entry_bytes lba0 i ! 4) = Volume)" for v
    using mbr_parse_mem [OF s, of dev] assms(3) by auto
  have at: "p_slot v = Some (of_nat i) \<longleftrightarrow> j = i" if "parse_slot lba0 dev j = Some v" "j < 4" for j v
    using parse_slot_slot [OF that(1)] that(2) i by (simp add: of_nat_slot_eq)
  have V: "{v \<in> set vs. p_slot v = Some (of_nat i)}
      = (if entry_role (?e ! 4) = Volume then set_option (parse_slot lba0 dev i) else {})"
    using i at by (auto simp: mem)
  have R: "{r \<in> set (reserved_entries lba0). r_slot r = of_nat i} = (if keeps_out ?r then {?r} else {})"
    using i by (auto simp: reserved_entries_mem [OF s] u keeps_out_def intro!: reserved_entry.equality)
  have t: "lba0 ! (entry_at i + 4) = ?e ! 4" using s i by (simp add: entry_bytes_nth)
  have "length ?e = 16" using s i by simp
  then show ?thesis
    unfolding card [OF mbr_parse_distinct [OF assms(3)]] card [OF reserved_entries_distinct] V R t
    by (auto simp: parse_slot_bytes [OF s i] keeps_out_def Let_def)
qed

theorem mbr_entries_split_witness:
  "1 = length (filter (\<lambda>v. p_slot v = Some (of_nat 0)) [as_read wit_part 0])
     + length (filter (\<lambda>r. r_slot r = of_nat 0) (reserved_entries (take 512 wit_disk)))"
proof -
  have s: "length (take 512 wit_disk) = 512" by (simp add: wit_disk_length)
  have t: "take 512 wit_disk ! (entry_at 0 + 4) = 0x83"
    using entry_bytes_nth [OF s, of 0 4] by (simp add: wit_disk_entries)
  have "(if (0x83 :: u8) = EMPTY then 0 else (1 :: nat)) = 1" by simp
  with mbr_entries_split [OF s _ wit_disk_parse, of 0] show ?thesis
    unfolding t by (simp only: zero_less_numeral)
qed

text \<open>
  The CHS address written for an LBA is the right one. While the cylinder
  fits in ten bits the three bytes decode to the LBA under the usual translation
  (255 heads, 63 sectors) and are not the marker; past that they are the marker
  \<open>FF FF FF\<close>.
\<close>

theorem chs_for_lba_correct:
  "if unat lba < 1024 * 255 * 63
   then chs_decode (chs_for_lba lba) = unat lba \<and> chs_for_lba lba \<noteq> [0xFF, 0xFF, 0xFF]
   else chs_for_lba lba = [0xFF, 0xFF, 0xFF]"
  using chs_for_lba_fits [of lba] chs_for_lba_too_big [of lba] by simp

end
