(* ===== verification/Gpt_Write.thy ===== *)
theory Gpt_Write
  imports Gpt Mbr
begin

text \<open>
  The GPT writer (\<open>gpt_write.rs\<close>): the geometry of a table and the usable
  range it leaves on a disk, the entry array, the two headers, LBA 0 (a bare
  protective MBR or a hybrid one that keeps what was there), and the five writes
  that put a table on a device.

  As in the source, everything that can be refused is decided before the first
  write: \<open>plan_gpt\<close> is the code up to the finished entry array, \<open>lba0_for\<close>
  the choice of LBA 0, and \<open>gpt_writes\<close> the writes in their order.
\<close>

section \<open>Geometry\<close>

definition MAX_LBA :: u64 where "MAX_LBA = (- 1) div SECTOR_SIZE"

record gpt_geometry =
  num_entries :: u32
  entry_size :: u32
  entry_lba :: u64
  declared_usable :: "(u64 \<times> u64) option"

definition canonical :: gpt_geometry where
  "canonical = \<lparr>num_entries = NUM_ENTRIES, entry_size = ENTRY_SIZE, entry_lba = 2,
     declared_usable = None\<rparr>"

definition from_header :: "header \<Rightarrow> gpt_geometry" where
  "from_header h = \<lparr>num_entries = num_partition_entries h, entry_size = partition_entry_size h,
     entry_lba = partition_entry_lba h,
     declared_usable = Some (first_usable_lba h, last_usable_lba h)\<rparr>"

definition array_bytes :: "gpt_geometry \<Rightarrow> u64" where
  "array_bytes g = ucast (num_entries g) * ucast (entry_size g)"

definition array_sectors :: "gpt_geometry \<Rightarrow> u64" where
  "array_sectors g = div_ceil (array_bytes g) SECTOR_SIZE"

definition backup_reserve_sectors :: "gpt_geometry \<Rightarrow> u64" where
  "backup_reserve_sectors g = array_sectors g + 1"

definition check_shape :: "gpt_geometry \<Rightarrow> error + unit" where
  "check_shape g =
     (if num_entries g = 0 then Err (Invalid ''a GPT with no entry slots'')
      else if num_entries g > 4096 then Err (Invalid ''a GPT with more than 4096 entry slots'')
      else if entry_size g > 4096 then Err (Invalid ''a GPT entry size above 4096 bytes'')
      else if entry_size g < ENTRY_SIZE then Err (Invalid ''a GPT entry size below 128 bytes'')
      else if \<not> is_multiple_of (entry_size g) ENTRY_SIZE
            \<or> \<not> is_power_of_two (entry_size g div ENTRY_SIZE)
      then Err (Invalid ''a GPT entry size that is not 128 times a power of two'')
      else if entry_lba g < 2
      then Err (Invalid ''a GPT entry array starting at or before the header'')
      else if entry_lba g > MAX_LBA
      then Err (Invalid ''a GPT entry array at an LBA whose byte offset does not fit a u64'')
      else let sectors = array_sectors g in
        if sectors > MAX_LBA
        then Err (Invalid ''a GPT entry array longer than any device could hold'')
        else if (case checked_add (entry_lba g) sectors of
                   None \<Rightarrow> True | Some first \<Rightarrow> first > MAX_LBA)
        then Err (Invalid ''a GPT whose entry array ends past the last addressable LBA'')
        else Ok ())"

definition usable_range :: "gpt_geometry \<Rightarrow> u64 \<Rightarrow> error + (u64 \<times> u64)" where
  "usable_range g total_sectors =
     rbind (check_shape g) (\<lambda>_.
       let first_possible = entry_lba g + array_sectors g;
           reserve = backup_reserve_sectors g
       in if total_sectors \<le> first_possible + reserve then Err DeviceTooSmall
          else let last_possible = total_sectors - 1 - reserve in
            (case declared_usable g of
               None \<Rightarrow> Ok (first_possible, last_possible)
             | Some (f, l) \<Rightarrow>
                 if f < first_possible
                 then Err (Invalid ''the table's first usable LBA is inside its own entry array'')
                 else if l > last_possible
                 then Err (Invalid ''the table's last usable LBA is inside the space the backup copy needs'')
                 else if f > l then Err (Invalid ''the table's usable range runs backwards'')
                 else Ok (f, l)))"

section \<open>The entry array\<close>

definition validate_partition :: "partition \<Rightarrow> u64 \<Rightarrow> u64 \<Rightarrow> error + unit" where
  "validate_partition p first_usable last_usable =
     (case p_kind p of
        Gpt guid attrs \<Rightarrow>
          if p_length p = 0 then Err (Invalid ''partition has zero length'')
          else if \<not> is_multiple_of (p_start p) SECTOR_SIZE
               \<or> \<not> is_multiple_of (p_length p) SECTOR_SIZE
          then Err (Invalid ''partition not sector-aligned'')
          else rbind (sector_span p) (\<lambda>(start_lba, end_lba).
            let issues = range_issues start_lba end_lba first_usable last_usable in
            if issues AND BEFORE_FIRST_USABLE \<noteq> 0
            then Err (Invalid ''partition starts before first usable LBA'')
            else if issues AND PAST_LAST_USABLE \<noteq> 0
            then Err (Invalid ''partition runs past last usable LBA'')
            else if guid = UNUSED
            then Err (Invalid ''partition type GUID is the unused sentinel'')
            else Ok ())
      | _ \<Rightarrow> Err (Invalid ''non-GPT partition kind in GPT write''))"

text \<open>One entry laid over its slot of the array being built.\<close>

definition put_gpt_entry ::
    "gpt_geometry \<Rightarrow> entry_tail_map \<Rightarrow> partition \<times> u32 \<Rightarrow> u8 list \<Rightarrow> error + u8 list" where
  "put_gpt_entry g tails = (\<lambda>(p, slot) arr.
     let off = unat slot * unat (entry_size g) in
     case p_kind p of
       Gpt guid attrs \<Rightarrow>
         rbind (ok_or (p_uuid p) (Invalid ''GPT partition missing UUID'')) (\<lambda>uuid.
         rbind (sector_span p) (\<lambda>(start_lba, end_lba).
           let arr = (if unat (entry_size g) > ENTRY_STANDARD_BYTES
                 then let room = unat (entry_size g) - ENTRY_STANDARD_BYTES in
                   (case tails uuid of
                      Some tail \<Rightarrow> copy_at (off + ENTRY_STANDARD_BYTES) (take (min (length tail) room) tail) arr
                    | None \<Rightarrow> arr)
                 else arr);
               arr = copy_at off guid arr;
               arr = copy_at (off + 16) uuid arr;
               arr = copy_at (off + 32) (le64_bytes start_lba) arr;
               arr = copy_at (off + 40) (le64_bytes end_lba) arr;
               arr = copy_at (off + 48) (le64_bytes attrs) arr
           in Ok (case p_label p of
                    Some label \<Rightarrow> copy_at (off + 56) (label_bytes label) arr
                  | None \<Rightarrow> arr)))
     | _ \<Rightarrow> Err (Invalid ''non-GPT partition kind in GPT write''))"

fun put_gpt_entries ::
    "gpt_geometry \<Rightarrow> entry_tail_map \<Rightarrow> (partition \<times> u32) list \<Rightarrow> u8 list \<Rightarrow> error + u8 list" where
  "put_gpt_entries g tails [] arr = Ok arr"
| "put_gpt_entries g tails (e # es) arr =
     rbind (put_gpt_entry g tails e arr) (put_gpt_entries g tails es)"

record gpt_plan =
  pl_usable :: "u64 \<times> u64"
  pl_slots :: "u32 list"
  pl_array :: "u8 list"

definition plan_gpt ::
    "bool \<Rightarrow> u64 \<Rightarrow> partition list \<Rightarrow> gpt_geometry \<Rightarrow> entry_tail_map \<Rightarrow> error + gpt_plan" where
  "plan_gpt writable total_bytes partitions g tails =
     (if \<not> writable then Err (Block ReadOnly)
      else let total_sectors = total_bytes div SECTOR_SIZE in
        rbind (usable_range g total_sectors) (\<lambda>(first_usable, last_usable).
          if length partitions > unat (num_entries g)
          then Err (Invalid ''more partitions than the table has entry slots'')
          else rbind (traverse (\<lambda>p. rbind (validate_partition p first_usable last_usable)
                                       (\<lambda>_. sector_span p)) partitions) (\<lambda>spans.
            if list_ex id (mark_overlaps spans) then Err (Invalid ''partitions overlap'')
            else rbind (assign_slots partitions (num_entries g)) (\<lambda>slots.
              rbind (put_gpt_entries g tails (zip partitions slots)
                       (replicate (unat (array_bytes g)) 0)) (\<lambda>arr.
                Ok \<lparr>pl_usable = (first_usable, last_usable), pl_slots = slots, pl_array = arr\<rparr>)))))"

section \<open>Headers and LBA 0\<close>

definition build_header ::
    "(u8 list \<Rightarrow> u32) \<Rightarrow> u64 \<Rightarrow> u64 \<Rightarrow> u64 \<Rightarrow> u64 \<times> u64 \<Rightarrow> u8 list \<Rightarrow> u32 \<Rightarrow> gpt_geometry \<Rightarrow> u8 list" where
  "build_header crc my alternate entries = (\<lambda>(first_usable, last_usable) guid array_crc g.
     let h = zero_sector;
         h = copy_at 0 SIGNATURE h;
         h = copy_at 8 (le32_bytes 0x00010000) h;
         h = copy_at 12 (le32_bytes HEADER_SIZE) h;
         h = copy_at HDR_MY_LBA (le64_bytes my) h;
         h = copy_at 32 (le64_bytes alternate) h;
         h = copy_at 40 (le64_bytes first_usable) h;
         h = copy_at 48 (le64_bytes last_usable) h;
         h = copy_at 56 guid h;
         h = copy_at HDR_PARTITION_ENTRY_LBA (le64_bytes entries) h;
         h = copy_at HDR_NUM_PARTITION_ENTRIES (le32_bytes (num_entries g)) h;
         h = copy_at HDR_PARTITION_ENTRY_SIZE (le32_bytes (entry_size g)) h;
         h = copy_at 88 (le32_bytes array_crc) h;
         header_crc = crc (take (unat HEADER_SIZE) h)
     in copy_at 16 (le32_bytes header_crc) h)"

definition protective_mbr :: "u64 \<Rightarrow> u8 list" where
  "protective_mbr total_sectors =
     (let mbr = zero_sector[446 := 0x00, 447 := 0x00, 448 := 0x02, 449 := 0x00, 450 := GPT_PROTECTIVE];
          last_chs = chs_for_lba (min (total_sectors - 1) MBR_LBA_MAX);
          mbr = mbr[451 := last_chs ! 0, 452 := last_chs ! 1, 453 := last_chs ! 2];
          mbr = copy_at 454 (le32_bytes 1) mbr;
          prot_sectors = ucast (min (total_sectors - 1) MBR_LBA_MAX) :: u32;
          mbr = copy_at 458 (le32_bytes prot_sectors) mbr
      in mbr[510 := 0x55, 511 := 0xAA])"

text \<open>One entry of the old LBA 0: kept, dropped, or remembered as the marker's slot.\<close>

definition hybrid_step ::
    "bool \<Rightarrow> partition list \<Rightarrow> reserved_entry \<Rightarrow> u8 list \<times> nat option \<Rightarrow> u8 list \<times> nat option" where
  "hybrid_step rebuild_marker partitions entry = (\<lambda>(out, marker_slot).
     let tb = r_bytes entry ! TYPE_BYTE;
         at = entry_at (unat (r_slot entry))
     in if tb = GPT_PROTECTIVE
        then let first = (marker_slot = None);
                 marker_slot = (case marker_slot of None \<Rightarrow> Some (unat (r_slot entry)) | Some s \<Rightarrow> Some s)
             in if first \<and> \<not> rebuild_marker then (copy_at at (r_bytes entry) out, marker_slot)
                else (out, marker_slot)
        else let sectors = ucast (le32 (r_bytes entry) SECTOR_COUNT) :: u64;
                 start = ucast (le32 (r_bytes entry) START_LBA) * SECTOR_SIZE
             in if entry_role tb = Volume \<and> sectors \<noteq> 0
                   \<and> \<not> list_ex (\<lambda>p. p_start p = start \<and> p_length p = sectors * SECTOR_SIZE) partitions
                then (out, marker_slot)
                else (copy_at at (r_bytes entry) out, marker_slot))"

definition hybrid_lba0 ::
    "u8 list \<Rightarrow> reserved_entry list \<Rightarrow> u8 list \<Rightarrow> partition list \<Rightarrow> error + u8 list" where
  "hybrid_lba0 current lba0 protective partitions =
     (if list_ex (\<lambda>e. unat (r_slot e) \<ge> ENTRY_COUNT) lba0
      then Err (Invalid ''reserved entry slot past the end of the table'')
      else let out = copy_at 0 (take TABLE_START current) zero_sector;
               rebuild_marker = is_protective current;
               (out, marker_slot) = fold (hybrid_step rebuild_marker partitions) lba0 (out, None);
               keep_existing = (\<not> rebuild_marker \<and> marker_slot \<noteq> None)
           in rbind (if keep_existing then Ok out
                else rbind (ok_or (case marker_slot of
                         Some s \<Rightarrow> Some s
                       | None \<Rightarrow> List.find (\<lambda>i. out ! (entry_at i + TYPE_BYTE) = EMPTY) [0..<ENTRY_COUNT])
                       (Invalid ''LBA 0 has no protective entry and no free slot for one''))
                     (\<lambda>slot. Ok (copy_at (entry_at slot) protective out)))
                (\<lambda>out. Ok (out[510 := 0x55, 511 := 0xAA])))"

text \<open>LBA 0 as the writer will write it; reads the device when there is something to keep.\<close>

definition lba0_for ::
    "('d, 'x) block_read_scheme \<Rightarrow> 'd \<Rightarrow> partition list \<Rightarrow> reserved_entry list \<Rightarrow> error + u8 list" where
  "lba0_for rd d partitions lba0 =
     (let mbr = protective_mbr (size_bytes rd d div SECTOR_SIZE) in
      if lba0 = [] then Ok mbr
      else rbind (lift_fs (read_at rd d 0 SECTOR_SIZE_USIZE)) (\<lambda>current.
        hybrid_lba0 current lba0 (slice_of 446 16 mbr) partitions))"

section \<open>The writes\<close>

definition gpt_writes ::
    "(u8 list \<Rightarrow> u32) \<Rightarrow> u64 \<Rightarrow> gpt_geometry \<Rightarrow> u8 list \<Rightarrow> gpt_plan \<Rightarrow> u8 list \<Rightarrow> (u64 \<times> u8 list) list" where
  "gpt_writes crc total_bytes g guid pl mbr =
     (let last_lba = total_bytes div SECTOR_SIZE - 1;
          array_crc = crc (pl_array pl);
          backup_entries_lba = last_lba - array_sectors g
      in [(0, mbr),
          (SECTOR_SIZE, build_header crc 1 last_lba (entry_lba g) (pl_usable pl) guid array_crc g),
          (entry_lba g * SECTOR_SIZE, pl_array pl),
          (backup_entries_lba * SECTOR_SIZE, pl_array pl),
          (last_lba * SECTOR_SIZE,
             build_header crc last_lba 1 backup_entries_lba (pl_usable pl) guid array_crc g)])"

fun write_seq :: "('d, 'x) block_device_scheme \<Rightarrow> 'd \<Rightarrow> (u64 \<times> u8 list) list \<Rightarrow> (error + unit) \<times> 'd" where
  "write_seq dv d [] = (Ok (), d)"
| "write_seq dv d ((off, bs) # ws) =
     (case write_at dv d off bs of
        (Inl e, d') \<Rightarrow> (Err (Block e), d')
      | (Inr _, d') \<Rightarrow> write_seq dv d' ws)"

definition write_gpt_assigning_slots ::
    "(u8 list \<Rightarrow> u32) \<Rightarrow> ('d, 'x) block_device_scheme \<Rightarrow> 'd \<Rightarrow> partition list \<Rightarrow> u8 list \<Rightarrow> gpt_geometry
      \<Rightarrow> entry_tail_map \<Rightarrow> reserved_entry list \<Rightarrow> (error + u32 list) \<times> 'd" where
  "write_gpt_assigning_slots crc dv d partitions guid g tails lba0 =
     (case plan_gpt (is_writable dv d) (size_bytes dv d) partitions g tails of
        Inl e \<Rightarrow> (Err e, d)
      | Inr pl \<Rightarrow>
          (case lba0_for dv d partitions lba0 of
             Inl e \<Rightarrow> (Err e, d)
           | Inr mbr \<Rightarrow>
               (case write_seq dv d (gpt_writes crc (size_bytes dv d) g guid pl mbr) of
                  (Inl e, d') \<Rightarrow> (Err e, d')
                | (Inr _, d') \<Rightarrow> (Ok (pl_slots pl), d'))))"

definition write_gpt_preserving_tails ::
    "(u8 list \<Rightarrow> u32) \<Rightarrow> ('d, 'x) block_device_scheme \<Rightarrow> 'd \<Rightarrow> partition list \<Rightarrow> u8 list \<Rightarrow> gpt_geometry
      \<Rightarrow> entry_tail_map \<Rightarrow> (error + unit) \<times> 'd" where
  "write_gpt_preserving_tails crc dv d partitions guid g tails =
     map_prod (map_ok (\<lambda>_. ())) id (write_gpt_assigning_slots crc dv d partitions guid g tails [])"

definition write_gpt_with_geometry ::
    "(u8 list \<Rightarrow> u32) \<Rightarrow> ('d, 'x) block_device_scheme \<Rightarrow> 'd \<Rightarrow> partition list \<Rightarrow> u8 list \<Rightarrow> gpt_geometry
      \<Rightarrow> (error + unit) \<times> 'd" where
  "write_gpt_with_geometry crc dv d partitions guid g =
     write_gpt_preserving_tails crc dv d partitions guid g Map.empty"

definition write_gpt ::
    "(u8 list \<Rightarrow> u32) \<Rightarrow> ('d, 'x) block_device_scheme \<Rightarrow> 'd \<Rightarrow> partition list \<Rightarrow> u8 list \<Rightarrow> (error + unit) \<times> 'd" where
  "write_gpt crc dv d partitions guid = write_gpt_with_geometry crc dv d partitions guid canonical"

section \<open>Where a table's parts lie\<close>

lemma unat_MAX_LBA: "unat MAX_LBA = 2 ^ 55 - 1"
  by (simp add: MAX_LBA_def unat_div_distrib unat_max_word)

text \<open>What \<open>check_shape\<close> accepts.\<close>

lemma check_shape_Ok:
  assumes "check_shape g = Ok u"
  shows "0 < unat (num_entries g)" and "unat (num_entries g) \<le> 4096"
    and "128 \<le> unat (entry_size g)" and "unat (entry_size g) \<le> 4096"
    and "is_multiple_of (entry_size g) 128" and "is_power_of_two (entry_size g div 128)"
    and "2 \<le> unat (entry_lba g)" and "unat (entry_lba g) + unat (array_sectors g) < 2 ^ 55"
proof -
  have *: "num_entries g \<noteq> 0" "\<not> num_entries g > 4096" "\<not> entry_size g > 4096" "\<not> entry_size g < 128"
    "is_multiple_of (entry_size g) 128" "is_power_of_two (entry_size g div 128)" "\<not> entry_lba g < 2"
    "\<exists>x. checked_add (entry_lba g) (array_sectors g) = Some x \<and> \<not> x > MAX_LBA"
    using assms by (auto simp: check_shape_def Let_def split: if_splits option.splits)
  then show "0 < unat (num_entries g)" "unat (num_entries g) \<le> 4096"
    "128 \<le> unat (entry_size g)" "unat (entry_size g) \<le> 4096" "2 \<le> unat (entry_lba g)"
    "is_multiple_of (entry_size g) 128" "is_power_of_two (entry_size g div 128)"
    by (auto simp: word_less_nat_alt word_unat_eq_iff)
  show "unat (entry_lba g) + unat (array_sectors g) < 2 ^ 55"
    using *(8) by (auto simp: checked_add_eq_Some word_less_nat_alt unat_MAX_LBA)
qed

lemma array_sizes:
  assumes "check_shape g = Ok u"
  shows "unat (array_bytes g) = unat (num_entries g) * unat (entry_size g)"
    and "unat (array_bytes g) \<le> 512 * unat (array_sectors g)" and "0 < unat (array_sectors g)"
    and "unat (array_sectors g) \<le> 32768"
proof -
  note c = check_shape_Ok [OF assms]
  have "unat (num_entries g) * unat (entry_size g) \<le> 4096 * 4096"
    using c by (intro mult_le_mono) auto
  then show ab: "unat (array_bytes g) = unat (num_entries g) * unat (entry_size g)"
    using unat_lt [of "num_entries g"] unat_lt [of "entry_size g"]
    by (simp add: array_bytes_def unat_word_ariths unat_ucast)
  have as: "unat (array_sectors g) = (unat (array_bytes g) + 511) div 512"
    by (simp add: array_sectors_def unat_div_ceil)
  show "unat (array_bytes g) \<le> 512 * unat (array_sectors g)" unfolding as by linarith
  have "0 < unat (num_entries g) * unat (entry_size g)" using c by simp
  then show "0 < unat (array_sectors g)" unfolding as ab by linarith
  show "unat (array_sectors g) \<le> 32768"
    unfolding as ab using \<open>unat (num_entries g) * unat (entry_size g) \<le> 4096 * 4096\<close> by simp
qed

text \<open>
  The regions of a written table, as natural numbers: LBA 0, the header at LBA 1,
  the entry array, the usable sectors, the backup array, the backup header.
\<close>

definition regions_fit :: "gpt_geometry \<Rightarrow> nat \<Rightarrow> nat \<Rightarrow> nat \<Rightarrow> bool" where
  "regions_fit g sectors f l \<longleftrightarrow>
     (let a = unat (array_sectors g); e = unat (entry_lba g) in
      2 \<le> e \<and> 0 < a \<and> e + a \<le> f \<and> f \<le> l \<and> l < sectors - 1 - a \<and> a + 2 \<le> sectors)"

lemma usable_range_Ok:
  assumes "usable_range g ts = Ok (f, l)"
  shows "check_shape g = Ok ()" and "regions_fit g (unat ts) (unat f) (unat l)"
proof -
  show c: "check_shape g = Ok ()" using assms by (auto simp: usable_range_def)
  let ?a = "unat (array_sectors g)" and ?e = "unat (entry_lba g)"
  have ea: "?e + ?a < 2 ^ 55" "?a \<le> 32768" "0 < ?a" "2 \<le> ?e"
    using check_shape_Ok [OF c] array_sizes [OF c] by auto
  have fp: "unat (entry_lba g + array_sectors g) = ?e + ?a"
    and rs: "unat (backup_reserve_sectors g) = ?a + 1"
    and sum: "unat (entry_lba g + array_sectors g + backup_reserve_sectors g) = ?e + 2 * ?a + 1"
    using ea by (simp_all add: backup_reserve_sectors_def unat_word_ariths)
  let ?lp = "ts - 1 - backup_reserve_sectors g"
  have big: "?e + 2 * ?a + 1 < unat ts"
    using assms c sum by (auto simp: usable_range_def Let_def word_less_nat_alt word_le_nat_alt split: if_splits)
  then have t1: "unat (ts - 1) = unat ts - 1" by (subst unat_sub) (auto simp: word_le_nat_alt)
  have lp: "unat ?lp = unat ts - 1 - (?a + 1)"
    using big rs t1 by (subst unat_sub) (auto simp: word_le_nat_alt)
  have "f = entry_lba g + array_sectors g \<and> l = ?lp \<or> \<not> f < entry_lba g + array_sectors g \<and> \<not> l > ?lp \<and> \<not> f > l"
    using assms c by (auto simp: usable_range_def Let_def split: if_splits option.splits)
  then have "?e + ?a \<le> unat f" "unat f \<le> unat l" "unat l \<le> unat ts - 1 - (?a + 1)"
    using fp lp big by (auto simp: word_less_nat_alt not_less)
  then show "regions_fit g (unat ts) (unat f) (unat l)"
    using ea big by (simp add: regions_fit_def Let_def)
qed

text \<open>And the geometry is accepted whenever the parts fit: the check is not too strict.\<close>

lemma usable_range_total:
  assumes "check_shape g = Ok u" and "declared_usable g = None"
    and "unat (entry_lba g) + 2 * unat (array_sectors g) + 1 < unat ts"
  shows "\<exists>f l. usable_range g ts = Ok (f, l)"
proof -
  have "unat (entry_lba g + array_sectors g + backup_reserve_sectors g)
      = unat (entry_lba g) + 2 * unat (array_sectors g) + 1"
    using check_shape_Ok [OF assms(1)] array_sizes [OF assms(1)]
    by (simp add: backup_reserve_sectors_def unat_word_ariths)
  then show ?thesis
    using assms by (simp add: usable_range_def Let_def word_le_nat_alt)
qed

section \<open>The header is read back as it was built\<close>

lemma length_SIGNATURE [simp]: "length SIGNATURE = 8"
  by (simp add: SIGNATURE_def)

text \<open>The header as the list of its fields, around the checksum \<open>c\<close>.\<close>

definition header_image ::
    "u8 list \<Rightarrow> u64 \<Rightarrow> u64 \<Rightarrow> u64 \<Rightarrow> u64 \<times> u64 \<Rightarrow> u8 list \<Rightarrow> u32 \<Rightarrow> gpt_geometry \<Rightarrow> u8 list" where
  "header_image c my alternate entries usable guid array_crc g =
     SIGNATURE @ le32_bytes 0x00010000 @ le32_bytes 92 @ c @ replicate 4 0 @ le64_bytes my
     @ le64_bytes alternate @ le64_bytes (fst usable) @ le64_bytes (snd usable) @ guid
     @ le64_bytes entries @ le32_bytes (num_entries g) @ le32_bytes (entry_size g)
     @ le32_bytes array_crc"

lemma copy_at_fill:
  "k = length pre \<Longrightarrow> length xs \<le> n \<Longrightarrow>
     copy_at k xs (pre @ replicate n z) = (pre @ xs) @ replicate (n - length xs) z"
  by (simp add: copy_at_def)

lemma unat_numeral_92: "unat (92 :: u32) = 92"
  by simp

lemma build_header_image:
  assumes "length guid = 16"
  shows "build_header crc my alternate entries usable guid array_crc g =
    header_image (le32_bytes (crc (header_image [0, 0, 0, 0] my alternate entries usable guid array_crc g)))
      my alternate entries usable guid array_crc g @ replicate 420 0"
proof -
  obtain f l where u: "usable = (f, l)" by (cases usable)
  let ?pre = "SIGNATURE @ le32_bytes 0x00010000 @ le32_bytes 92"
  let ?post = "replicate 4 0 @ le64_bytes my @ le64_bytes alternate @ le64_bytes f @ le64_bytes l
     @ guid @ le64_bytes entries @ le32_bytes (num_entries g) @ le32_bytes (entry_size g)
     @ le32_bytes array_crc"
  have z8: "replicate 8 (0 :: u8) = [0, 0, 0, 0] @ replicate 4 0" by (simp add: numeral_eq_Suc)
  have 1: "copy_at 12 (le32_bytes 92) (copy_at 8 (le32_bytes 0x00010000) (copy_at 0 SIGNATURE zero_sector))
      = (?pre @ replicate 8 0) @ replicate 488 0"
    using copy_at_fill [of 0 "[]" SIGNATURE 512 0] copy_at_fill [of 8 SIGNATURE "le32_bytes 0x00010000" 504 0]
      copy_at_fill [of 12 "SIGNATURE @ le32_bytes 0x00010000" "le32_bytes 92" 500 0]
    by (simp add: zero_sector_def replicate_add [of 8 488 0, symmetric])
  have 2: "copy_at 88 (le32_bytes array_crc) (copy_at 84 (le32_bytes (entry_size g))
      (copy_at 80 (le32_bytes (num_entries g)) (copy_at 72 (le64_bytes entries) (copy_at 56 guid
        (copy_at 48 (le64_bytes l) (copy_at 40 (le64_bytes f) (copy_at 32 (le64_bytes alternate)
          (copy_at 24 (le64_bytes my) ((?pre @ replicate 8 0) @ replicate 488 0)))))))))
      = (?pre @ [0, 0, 0, 0] @ ?post) @ replicate 420 0"
    using assms by (simp only: copy_at_fill length_append length_to_le length_SIGNATURE length_replicate) 
      (simp add: z8)
  have 3: "take 92 ((?pre @ [0, 0, 0, 0] @ ?post) @ replicate 420 0) = ?pre @ [0, 0, 0, 0] @ ?post"
    using assms by simp
  have 4: "copy_at 16 (le32_bytes c) ((?pre @ [0, 0, 0, 0] @ ?post) @ replicate 420 0)
      = ?pre @ le32_bytes c @ ?post @ replicate 420 0" for c
    by (simp add: copy_at_def)
  show ?thesis
    unfolding u build_header_def Let_def prod.case HDR_MY_LBA_def HDR_PARTITION_ENTRY_LBA_def
      HDR_NUM_PARTITION_ENTRIES_def HDR_PARTITION_ENTRY_SIZE_def HEADER_SIZE_def unat_numeral_92 1 2 3 4
    by (simp add: header_image_def)
qed

lemma length_header_image [simp]:
  "length c = 4 \<Longrightarrow> length guid = 16 \<Longrightarrow> length (header_image c my alt ents u guid ac g) = 92"
  by (simp add: header_image_def)

lemma header_image_reads:
  assumes "length c = 4" and "length guid = 16"
  shows "slice_of 0 8 (header_image c my alt ents u guid ac g @ rest) = SIGNATURE"
    and "le32 (header_image c my alt ents u guid ac g @ rest) 8 = 0x00010000"
    and "le32 (header_image c my alt ents u guid ac g @ rest) 12 = 92"
    and "slice_of 16 4 (header_image c my alt ents u guid ac g @ rest) = c"
    and "le64 (header_image c my alt ents u guid ac g @ rest) 24 = my"
    and "le64 (header_image c my alt ents u guid ac g @ rest) 32 = alt"
    and "le64 (header_image c my alt ents u guid ac g @ rest) 40 = fst u"
    and "le64 (header_image c my alt ents u guid ac g @ rest) 48 = snd u"
    and "slice_of 56 16 (header_image c my alt ents u guid ac g @ rest) = guid"
    and "le64 (header_image c my alt ents u guid ac g @ rest) 72 = ents"
    and "le32 (header_image c my alt ents u guid ac g @ rest) 80 = num_entries g"
    and "le32 (header_image c my alt ents u guid ac g @ rest) 84 = entry_size g"
    and "le32 (header_image c my alt ents u guid ac g @ rest) 88 = ac"
  using assms by (simp_all add: header_image_def slice_of_def le32_def le64_def)

lemma parse_build_header:
  assumes "check_shape g = Ok v" and "length guid = 16"
  shows "\<exists>c. parse_header crc (build_header crc my alt ents u guid ac g) =
    Ok \<lparr>my_lba = my, alternate_lba = alt, first_usable_lba = fst u, last_usable_lba = snd u,
      disk_guid = guid, partition_entry_lba = ents, num_partition_entries = num_entries g,
      partition_entry_size = entry_size g, partition_entry_array_crc32 = ac,
      header_crc32 = c, header_size = 92\<rparr>"
    and "length (build_header crc my alt ents u guid ac g) = 512"
proof -
  let ?z = "header_image [0, 0, 0, 0] my alt ents u guid ac g"
  let ?c = "le32_bytes (crc ?z)"
  let ?h = "header_image ?c my alt ents u guid ac g @ replicate 420 0"
  have b: "build_header crc my alt ents u guid ac g = ?h" by (rule build_header_image [OF assms(2)])
  show "length (build_header crc my alt ents u guid ac g) = 512" unfolding b using assms(2) by simp
  have c4: "length ?c = 4" by simp
  note r = header_image_reads [OF c4 assms(2)]
  have z: "copy_at 16 [0, 0, 0, 0] (header_image ?c my alt ents u guid ac g) = ?z"
    using assms(2) by (simp add: header_image_def copy_at_def)
  have crc: "le32 ?h 16 = crc ?z" unfolding le32_def r(4) by simp
  have rev: "drop_bit 16 (0x00010000 :: u32) = 1" by simp
  note s = check_shape_Ok [OF assms(1)]
  have "128 \<le> entry_size g" "entry_size g \<le> 4096" "\<not> num_entries g > 4096"
    using s by (auto simp: word_le_nat_alt word_less_nat_alt)
  then show "\<exists>c. parse_header crc (build_header crc my alt ents u guid ac g) =
    Ok \<lparr>my_lba = my, alternate_lba = alt, first_usable_lba = fst u, last_usable_lba = snd u,
      disk_guid = guid, partition_entry_lba = ents, num_partition_entries = num_entries g,
      partition_entry_size = entry_size g, partition_entry_array_crc32 = ac,
      header_crc32 = c, header_size = 92\<rparr>"
    unfolding b parse_header_def parse_header_block_def
    using assms(2) s(5,6) by (simp add: r z crc rev Let_def)
qed

section \<open>The entry array, slot by slot\<close>

definition gpt_slot :: "nat \<Rightarrow> u8 list \<Rightarrow> nat \<Rightarrow> u8 list" where
  "gpt_slot es arr i = slice_of (i * es) es arr"

text \<open>The bytes past the standard part: the partition's own tail, cut or padded to size.\<close>

definition tail_bytes :: "nat \<Rightarrow> entry_tail_map \<Rightarrow> u8 list \<Rightarrow> u8 list" where
  "tail_bytes room tails uuid = (case tails uuid of
     Some tail \<Rightarrow> take room tail @ replicate (room - length tail) 0
   | None \<Rightarrow> replicate room 0)"

definition label_field :: "ustring option \<Rightarrow> u8 list" where
  "label_field l = (case l of
     Some label \<Rightarrow> label_bytes label @ replicate (72 - length (label_bytes label)) 0
   | None \<Rightarrow> replicate 72 0)"

definition encode_gpt_entry :: "nat \<Rightarrow> entry_tail_map \<Rightarrow> partition \<Rightarrow> u8 list" where
  "encode_gpt_entry es tails p =
     type_guid (p_kind p) @ the (p_uuid p) @ le64_bytes (fst (span_of p)) @ le64_bytes (snd (span_of p))
     @ le64_bytes (attributes (p_kind p)) @ label_field (p_label p)
     @ tail_bytes (es - 128) tails (the (p_uuid p))"

lemma length_tail_bytes [simp]: "length (tail_bytes room tails uuid) = room"
  by (auto simp: tail_bytes_def min_def split: option.splits)

lemma length_label_field [simp]: "length (label_field l) = 72"
  using length_label_bytes_le by (simp add: label_field_def split: option.splits)

text \<open>The sixteen-byte arrays of the Rust types.\<close>

definition gpt_typed :: "partition \<Rightarrow> bool" where
  "gpt_typed p \<longleftrightarrow> (\<exists>guid attrs uuid. p_kind p = Gpt guid attrs \<and> length guid = 16 \<and>
     p_uuid p = Some uuid \<and> length uuid = 16)"

lemma length_encode_gpt_entry [simp]:
  "gpt_typed p \<Longrightarrow> 128 \<le> es \<Longrightarrow> length (encode_gpt_entry es tails p) = es"
  by (auto simp: gpt_typed_def encode_gpt_entry_def)

lemma copy_at_fill_mid:
  "k = length pre \<Longrightarrow> length xs \<le> n \<Longrightarrow>
     copy_at k xs (pre @ replicate n z @ post) = (pre @ xs) @ replicate (n - length xs) z @ post"
  by (simp add: copy_at_def)

text \<open>An entry is built up inside its slot, which starts out as zeros: the tail, the fixed fields, the label.\<close>

lemma put_tail_eq:
  assumes es: "128 \<le> es" "off + es \<le> length arr" "slice_of off es arr = replicate es 0"
  shows "(if es > 128 then case tails uuid of
        Some tail \<Rightarrow> copy_at (off + 128) (take (min (length tail) (es - 128)) tail) arr | None \<Rightarrow> arr else arr)
      = copy_at off (replicate 128 0 @ tail_bytes (es - 128) tails uuid) arr"
proof -
  have arr: "arr = copy_at off (replicate es 0) arr" using copy_at_slice_id [OF es(2,3)] by simp
  have r: "replicate es 0 = replicate 128 (0 :: u8) @ replicate (es - 128) 0"
    using es(1) by (simp add: replicate_add [symmetric])
  show ?thesis
  proof (cases "es > 128 \<and> tails uuid \<noteq> None")
    case True
    then obtain t where t: "tails uuid = Some t" by auto
    let ?t = "take (min (length t) (es - 128)) t"
    have "copy_at (off + 128) ?t arr = copy_at off (copy_at 128 ?t (replicate es 0)) arr"
      using copy_at_nested [of off "replicate es 0" arr 128 ?t] arr es by simp
    also have "copy_at 128 ?t (replicate es 0) = replicate 128 0 @ tail_bytes (es - 128) tails uuid"
      unfolding r by (simp add: copy_at_def tail_bytes_def t min_def)
    finally show ?thesis using True t by simp
  next
    case False
    then have "tail_bytes (es - 128) tails uuid = replicate (es - 128) 0" by (auto simp: tail_bytes_def split: option.splits)
    then show ?thesis using arr False by (auto simp: r [symmetric])
  qed
qed

lemma fixed_fields_eq:
  assumes "length guid = 16" and "length uuid = 16"
  shows "copy_at 48 (le64_bytes attrs) (copy_at 40 (le64_bytes b) (copy_at 32 (le64_bytes a)
      (copy_at 16 uuid (copy_at 0 guid (replicate 128 0 @ rest)))))
      = (guid @ uuid @ le64_bytes a @ le64_bytes b @ le64_bytes attrs) @ replicate 72 0 @ rest"
  using assms copy_at_fill_mid [of 0 "[]" guid 128 0 rest]
  by (simp add: copy_at_fill_mid [of 16 guid, simplified] copy_at_fill_mid [of 32 "guid @ uuid", simplified]
      copy_at_fill_mid [of 40 "guid @ uuid @ le64_bytes a", simplified]
      copy_at_fill_mid [of 48 "guid @ uuid @ le64_bytes a @ le64_bytes b", simplified])

lemma put_label_eq:
  "length pre = 56 \<Longrightarrow>
    (case label of Some label \<Rightarrow> copy_at 56 (label_bytes label) (pre @ replicate 72 0 @ rest)
     | None \<Rightarrow> pre @ replicate 72 0 @ rest) = pre @ label_field label @ rest"
  using length_label_bytes_le by (auto simp: label_field_def copy_at_fill_mid split: option.splits)

lemma put_gpt_entry_eq:
  assumes "gpt_typed p" and "sector_span p = Ok ab" and "128 \<le> unat (entry_size g)"
    and "unat slot * unat (entry_size g) + unat (entry_size g) \<le> length arr"
    and "gpt_slot (unat (entry_size g)) arr (unat slot) = replicate (unat (entry_size g)) 0"
  shows "put_gpt_entry g tails (p, slot) arr =
    Ok (copy_at (unat slot * unat (entry_size g)) (encode_gpt_entry (unat (entry_size g)) tails p) arr)"
proof -
  define es off where "es = unat (entry_size g)" and "off = unat slot * es"
  obtain guid attrs uuid where k: "p_kind p = Gpt guid attrs" "length guid = 16"
    and u: "p_uuid p = Some uuid" "length uuid = 16"
    using assms(1) by (auto simp: gpt_typed_def)
  obtain a b where ab: "ab = (a, b)" by (cases ab)
  have sp: "span_of p = (a, b)" using assms(2) ab by (simp add: span_of_def)
  have es: "128 \<le> es" "off + es \<le> length arr" "slice_of off es arr = replicate es 0"
    using assms(3-5) by (simp_all add: es_def off_def gpt_slot_def)
  let ?tp = "tail_bytes (es - 128) tails uuid" and ?pre = "guid @ uuid @ le64_bytes a @ le64_bytes b @ le64_bytes attrs"
  have nest: "copy_at (off + n) xs (copy_at off e arr) = copy_at off (copy_at n xs e) arr"
    if "length e = es" "n + length xs \<le> es" for n xs e
    using that es(2) by (intro copy_at_nested) auto
  have nest0: "copy_at off xs (copy_at off e arr) = copy_at off (copy_at 0 xs e) arr"
    if "length e = es" "length xs \<le> es" for xs e
    using nest [of e 0 xs] that by simp
  let ?X = "copy_at (off + 48) (le64_bytes attrs) (copy_at (off + 40) (le64_bytes b)
      (copy_at (off + 32) (le64_bytes a) (copy_at (off + 16) uuid (copy_at off guid
        (copy_at off (replicate 128 0 @ ?tp) arr)))))"
  have X: "?X = copy_at off (?pre @ replicate 72 0 @ ?tp) arr"
    using es(1) k(2) u(2) fixed_fields_eq [OF k(2) u(2), of attrs b a ?tp] by (simp add: nest nest0)
  have "put_gpt_entry g tails (p, slot) arr = Ok (case p_label p of
      Some label \<Rightarrow> copy_at (off + 56) (label_bytes label) ?X | None \<Rightarrow> ?X)"
    using assms(2) unfolding put_gpt_entry_def prod.case k u Let_def es_def [symmetric] off_def [symmetric]
    by (simp only: partition_kind.case ok_or_simps rbind_simps ab prod.case ENTRY_STANDARD_BYTES_def put_tail_eq [OF es])
  also have "\<dots> = Ok (copy_at off (case p_label p of
      Some label \<Rightarrow> copy_at 56 (label_bytes label) (?pre @ replicate 72 0 @ ?tp)
    | None \<Rightarrow> ?pre @ replicate 72 0 @ ?tp) arr)"
    unfolding X using es(1) k(2) u(2) length_label_bytes_le
    by (cases "p_label p") (auto intro!: nest order_trans [OF add_le_mono [OF order_refl length_label_bytes_le]])
  also have "\<dots> = Ok (copy_at off (encode_gpt_entry es tails p) arr)"
    using put_label_eq [of ?pre] k u sp by (simp add: encode_gpt_entry_def)
  finally show ?thesis by (simp add: es_def off_def)
qed

lemma slot_fits: "i < n \<Longrightarrow> i * es + es \<le> n * (es :: nat)"
  using mult_le_mono1 [of "Suc i" n es] by simp

lemma gpt_slot_copy_at:
  assumes "length arr = n * es" and "i < n" and "j < n" and "length e = es"
  shows "gpt_slot es (copy_at (i * es) e arr) j = (if i = j then e else gpt_slot es arr j)"
proof (cases "i = j")
  case True
  then show ?thesis using assms slot_fits [OF assms(2), of es] by (simp add: gpt_slot_def)
next
  case False
  then have "j * es + es \<le> i * es \<or> i * es + es \<le> j * es"
    using slot_fits [of j i es] slot_fits [of i j es] by (cases "i < j") auto
  then show ?thesis
    using False assms slot_fits [OF assms(2), of es] by (simp add: gpt_slot_def slice_copy_at_disjoint)
qed

lemma put_gpt_entries_spec:
  assumes "es = unat (entry_size g)" and "128 \<le> es" and "length arr = n * es"
    and "length slots = length ps" and "distinct slots"
    and "\<forall>x \<in> set slots. unat x < n \<and> gpt_slot es arr (unat x) = replicate es 0"
    and "\<forall>p \<in> set ps. gpt_typed p \<and> (\<exists>ab. sector_span p = Ok ab)"
  shows "\<exists>arr'. put_gpt_entries g tails (zip ps slots) arr = Ok arr' \<and> length arr' = length arr \<and>
     (\<forall>k < length ps. gpt_slot es arr' (unat (slots ! k)) = encode_gpt_entry es tails (ps ! k)) \<and>
     (\<forall>j < n. j \<notin> unat ` set slots \<longrightarrow> gpt_slot es arr' j = gpt_slot es arr j)"
  using assms(3-)
proof (induction ps arbitrary: slots arr)
  case Nil
  then show ?case by simp
next
  case (Cons p ps)
  from Cons.prems(2) obtain x xs where x: "slots = x # xs" by (cases slots) auto
  let ?e = "encode_gpt_entry es tails p" and ?arr = "copy_at (unat x * es) (encode_gpt_entry es tails p) arr"
  have xn: "unat x < n" and xz: "gpt_slot es arr (unat x) = replicate es 0" using Cons.prems(4) x by auto
  note fit = slot_fits [OF xn, of es]
  obtain ab where p: "gpt_typed p" "sector_span p = Ok ab" using Cons.prems(5) by auto
  have put: "put_gpt_entry g tails (p, x) arr = Ok ?arr"
    using put_gpt_entry_eq [OF p, of g x arr tails] assms(1,2) fit xz Cons.prems(1) by simp
  have le: "length ?e = es" using p(1) assms(2) by simp
  have len: "length ?arr = n * es" using fit le Cons.prems(1) by simp
  have sl: "gpt_slot es ?arr j = (if unat x = j then ?e else gpt_slot es arr j)" if "j < n" for j
    using gpt_slot_copy_at [OF Cons.prems(1) xn that le] .
  have rest: "\<forall>y \<in> set xs. unat y < n \<and> gpt_slot es ?arr (unat y) = replicate es 0"
    using Cons.prems(3,4) x by (auto simp: sl word_unat_eq_iff [symmetric])
  obtain arr' where a: "put_gpt_entries g tails (zip ps xs) ?arr = Ok arr'" "length arr' = length ?arr"
    "\<forall>k < length ps. gpt_slot es arr' (unat (xs ! k)) = encode_gpt_entry es tails (ps ! k)"
    "\<forall>j < n. j \<notin> unat ` set xs \<longrightarrow> gpt_slot es arr' j = gpt_slot es ?arr j"
    using Cons.IH [OF len _ _ rest] Cons.prems(2,3,5) x by auto
  have xx: "unat x \<notin> unat ` set xs"
    using Cons.prems(3) x by (auto simp: word_unat_eq_iff [symmetric])
  have "gpt_slot es arr' (unat (slots ! k)) = encode_gpt_entry es tails ((p # ps) ! k)"
    if "k < length (p # ps)" for k
    using that a(3,4) x xx xn sl by (cases k) auto
  moreover have "gpt_slot es arr' j = gpt_slot es arr j" if "j < n" "j \<notin> unat ` set slots" for j
    using that a(4) x sl by auto
  ultimately show ?case using a(1,2) len Cons.prems(1) put x by auto
qed

text \<open>A partition as the next probe of the written table reports it.\<close>

definition as_read_gpt :: "u64 \<Rightarrow> partition \<Rightarrow> u32 \<Rightarrow> partition" where
  "as_read_gpt dev p slot = p\<lparr>p_label := parse_utf16_label (label_field (p_label p)),
     p_slot := Some slot, p_issues := 0,
     p_available_length := available_on_device (p_start p) (p_length p) dev\<rparr>"

lemma parse_encoded_gpt:
  assumes "gpt_typed p" and sp: "sector_span p = Ok (a, b)" and "unat (p_start p) mod 512 = 0"
    and "unat (p_length p) mod 512 = 0" and "type_guid (p_kind p) \<noteq> UNUSED" and es: "128 \<le> es"
    and "unat slot * es + es \<le> length arr" and e: "gpt_slot es arr (unat slot) = encode_gpt_entry es tails p"
  shows "parse_gpt_entry arr es dev (unat slot) = Ok (Some (as_read_gpt dev p slot, a, b))"
proof -
  obtain guid attrs uuid where k: "p_kind p = Gpt guid attrs" "length guid = 16"
    and u: "p_uuid p = Some uuid" "length uuid = 16" using assms(1) by (auto simp: gpt_typed_def)
  let ?o = "unat slot * es" and ?e = "encode_gpt_entry es tails p"
  have img: "?e = guid @ uuid @ le64_bytes a @ le64_bytes b @ le64_bytes attrs @ label_field (p_label p)
      @ tail_bytes (es - 128) tails uuid"
    using k u sp by (simp add: encode_gpt_entry_def span_of_def)
  have sl: "slice_of (?o + n) m arr = slice_of n m ?e" if "n + m \<le> es" for n m
    using slice_slice [OF that, of ?o arr] e by (simp add: gpt_slot_def)
  have r: "slice_of ?o 16 arr = guid" "slice_of (?o + 16) 16 arr = uuid" "le64 arr (?o + 32) = a"
    "le64 arr (?o + 40) = b" "le64 arr (?o + 48) = attrs" "slice_of (?o + 56) 72 arr = label_field (p_label p)"
    using sl [of 0 16] sl [of 16 16] sl [of 32 8] sl [of 40 8] sl [of 48 8] sl [of 56 72] es k(2) u(2)
    by (simp_all add: img slice_of_def le64_def)
  note al = sector_span_aligned [OF sp assms(3,4)]
  have "a \<le> b" using sector_span_ordered [OF sp] .
  have cs: "checked_mul a 512 = Some (p_start p)" "checked_sub b a = Some (b - a)"
    "checked_add (b - a) 1 = Some (b - a + 1)" "checked_mul (b - a + 1) 512 = Some (p_length p)"
  proof -
    have ba: "unat (b - a) = unat b - unat a" using \<open>a \<le> b\<close> by (simp add: unat_sub)
    have "unat b < 2 ^ 55" using sector_span_bound [OF sp] .
    then have b1: "unat (b - a + 1) = unat b - unat a + 1" by (simp add: unat_word_ariths ba)
    show "checked_mul a 512 = Some (p_start p)" "checked_mul (b - a + 1) 512 = Some (p_length p)"
      using al b1 unat_lt [of "p_start p"] unat_lt [of "p_length p"] by (simp_all add: checked_mul_eq_Some)
    show "checked_sub b a = Some (b - a)" "checked_add (b - a) 1 = Some (b - a + 1)"
      using \<open>a \<le> b\<close> \<open>unat b < 2 ^ 55\<close> ba b1
      by (simp_all add: checked_sub_eq_Some checked_add_eq_Some word_le_nat_alt)
  qed
  show ?thesis
    using \<open>a \<le> b\<close> assms(5) k u
    by (simp add: parse_gpt_entry_def Let_def r cs as_read_gpt_def not_less [symmetric])
qed

lemma parse_unused_gpt:
  "gpt_slot es arr i = replicate es 0 \<Longrightarrow> 128 \<le> es \<Longrightarrow> parse_gpt_entry arr es dev i = Ok None"
  using slice_slice [of 0 16 es "i * es" arr]
  by (simp add: parse_gpt_entry_def gpt_slot_def UNUSED_def Let_def)

section \<open>What the plan guarantees\<close>

definition gpt_valid :: "u64 \<times> u64 \<Rightarrow> partition \<Rightarrow> bool" where
  "gpt_valid usable p \<longleftrightarrow> (\<exists>guid attrs. p_kind p = Gpt guid attrs \<and> guid \<noteq> UNUSED) \<and>
     unat (p_start p) mod 512 = 0 \<and> unat (p_length p) mod 512 = 0 \<and>
     (\<exists>a b. sector_span p = Ok (a, b) \<and> fst usable \<le> a \<and> b \<le> snd usable)"

lemma validate_partition_iff:
  "validate_partition p f l = Ok u \<longleftrightarrow> gpt_valid (f, l) p"
proof (cases "p_kind p")
  case (Gpt guid attrs)
  have bits: "range_issues a b f l AND 1 = 0 \<longleftrightarrow> f \<le> a" "range_issues a b f l AND 2 = 0 \<longleftrightarrow> a \<le> l \<and> b \<le> l" for a b
    using issue_bits(1,2) [of a b f l] by auto
  show ?thesis
  proof (cases "sector_span p")
    case (Inr ab)
    then obtain a b where ab: "sector_span p = Ok (a, b)" by (cases ab) auto
    have "a \<le> b" and nz: "p_length p \<noteq> 0"
      using sector_span_ordered [OF ab] ab by (auto simp: sector_span_eq_Ok)
    then show ?thesis
      using Gpt ab by (auto simp: validate_partition_def gpt_valid_def Let_def bits is_multiple_of_iff)
  qed (auto simp: validate_partition_def gpt_valid_def Gpt)
qed (auto simp: validate_partition_def gpt_valid_def)

lemma gpt_valid_span: "gpt_valid u p \<Longrightarrow> sector_span p = Ok (span_of p) \<and> fst (span_of p) \<le> snd (span_of p)"
  by (auto simp: gpt_valid_def span_of_def dest: sector_span_ordered)

lemma list_ex_id: "list_ex id xs \<longleftrightarrow> True \<in> set xs"
  by (auto simp: list_ex_iff)

lemma plan_gpt_Ok:
  assumes "plan_gpt w bytes ps g tails = Ok pl"
  shows "w" and "usable_range g (bytes div 512) = Ok (pl_usable pl)"
    and "length ps \<le> unat (num_entries g)" and "\<And>p. p \<in> set ps \<Longrightarrow> gpt_valid (pl_usable pl) p"
    and "disjoint_spans (map span_of ps)" and "assign_slots ps (num_entries g) = Ok (pl_slots pl)"
    and "put_gpt_entries g tails (zip ps (pl_slots pl)) (replicate (unat (array_bytes g)) 0) = Ok (pl_array pl)"
proof -
  obtain f l spans where w: w and ur: "usable_range g (bytes div 512) = Ok (f, l)"
    and n: "\<not> length ps > unat (num_entries g)"
    and tr: "traverse (\<lambda>p. rbind (validate_partition p f l) (\<lambda>_. sector_span p)) ps = Ok spans"
    and no: "\<not> list_ex id (mark_overlaps spans)"
    and as: "assign_slots ps (num_entries g) = Ok (pl_slots pl)"
    and put: "put_gpt_entries g tails (zip ps (pl_slots pl)) (replicate (unat (array_bytes g)) 0) = Ok (pl_array pl)"
    and u: "pl_usable pl = (f, l)"
    using assms by (auto simp: plan_gpt_def Let_def split: if_splits)
  show w "usable_range g (bytes div 512) = Ok (pl_usable pl)" "length ps \<le> unat (num_entries g)"
    "assign_slots ps (num_entries g) = Ok (pl_slots pl)"
    "put_gpt_entries g tails (zip ps (pl_slots pl)) (replicate (unat (array_bytes g)) 0) = Ok (pl_array pl)"
    using w ur n as put u by simp_all
  have l2: "list_all2 (\<lambda>p x. gpt_valid (f, l) p \<and> sector_span p = Ok x) ps spans"
    using tr unfolding traverse_eq_Ok by (rule list_all2_mono) (auto simp: validate_partition_iff)
  then show v: "\<And>p. p \<in> set ps \<Longrightarrow> gpt_valid (pl_usable pl) p"
    using u by (auto simp: list_all2_conv_all_nth in_set_conv_nth)
  have sp: "spans = map span_of ps"
    using l2 by (intro nth_equalityI) (auto simp: list_all2_conv_all_nth span_of_eq)
  have "\<forall>x \<in> set spans. fst x \<le> snd x" unfolding sp using v by (auto dest!: gpt_valid_span)
  then show "disjoint_spans (map span_of ps)"
    using no no_marks_iff_disjoint sp by (auto simp: list_ex_id)
qed

text \<open>The finished array, slot by slot.\<close>

definition array_written :: "gpt_geometry \<Rightarrow> entry_tail_map \<Rightarrow> partition list \<Rightarrow> u32 list \<Rightarrow> u8 list \<Rightarrow> bool" where
  "array_written g tails ps slots arr \<longleftrightarrow>
     (let n = unat (num_entries g); es = unat (entry_size g) in
      128 \<le> es \<and> length arr = n * es \<and> length slots = length ps \<and> distinct slots \<and>
      (\<forall>x \<in> set slots. unat x < n) \<and>
      (\<forall>k < length ps. gpt_slot es arr (unat (slots ! k)) = encode_gpt_entry es tails (ps ! k)) \<and>
      (\<forall>j < n. j \<notin> unat ` set slots \<longrightarrow> gpt_slot es arr j = replicate es 0))"

lemma plan_array_written:
  assumes "plan_gpt w bytes ps g tails = Ok pl" and "\<forall>p \<in> set ps. gpt_typed p"
  shows "array_written g tails ps (pl_slots pl) (pl_array pl)"
proof -
  note pl = plan_gpt_Ok [OF assms(1)]
  let ?n = "unat (num_entries g)" and ?es = "unat (entry_size g)"
  let ?z = "replicate (unat (array_bytes g)) (0 :: u8)"
  obtain f l where "usable_range g (bytes div 512) = Ok (f, l)" using pl(2) by (cases "pl_usable pl") auto
  then have sh: "check_shape g = Ok ()" by (rule usable_range_Ok)
  have es: "128 \<le> ?es" using check_shape_Ok [OF sh] by simp
  have len: "length ?z = ?n * ?es" using array_sizes(1) [OF sh] by simp
  note as = assign_slots_facts [OF pl(6) [unfolded assign_slots_def]]
  have z: "gpt_slot ?es ?z j = replicate ?es 0" if "j < ?n" for j
    using slot_fits [OF that, of ?es] len by (simp add: gpt_slot_def)
  have in_n: "\<forall>x \<in> set (pl_slots pl). unat x < ?n" using as(4) by (simp add: word_less_nat_alt)
  have zs: "\<forall>x \<in> set (pl_slots pl). unat x < ?n \<and> gpt_slot ?es ?z (unat x) = replicate ?es 0"
    using in_n z by simp
  have "\<forall>p \<in> set ps. gpt_typed p \<and> (\<exists>ab. sector_span p = Ok ab)"
    using assms(2) pl(4) gpt_valid_span by blast
  from put_gpt_entries_spec [OF refl es len as(1,2) zs this, of tails] pl(7)
  show ?thesis
    using as(1,2) in_n es len z by (auto simp: array_written_def Let_def)
qed

section \<open>The array is read back as it was written\<close>

lemma array_slot_cases:
  assumes "array_written g tails ps slots arr" and "i < unat (num_entries g)"
  obtains (part) k where "k < length ps" and "i = unat (slots ! k)"
    | (free) "gpt_slot (unat (entry_size g)) arr i = replicate (unat (entry_size g)) 0"
proof (cases "i \<in> unat ` set slots")
  case True
  then show ?thesis using part assms(1) by (auto simp: array_written_def Let_def in_set_conv_nth)
next
  case False
  then show ?thesis using free assms by (simp add: array_written_def Let_def)
qed

lemma parse_written_slot:
  assumes "array_written g tails ps slots arr" and "k < length ps"
    and "gpt_typed (ps ! k)" and "gpt_valid u (ps ! k)"
  shows "parse_gpt_entry arr (unat (entry_size g)) dev (unat (slots ! k))
    = Ok (Some (as_read_gpt dev (ps ! k) (slots ! k), span_of (ps ! k)))"
proof -
  let ?es = "unat (entry_size g)" and ?p = "ps ! k"
  have a: "128 \<le> ?es" "length arr = unat (num_entries g) * ?es" "unat (slots ! k) < unat (num_entries g)"
    "gpt_slot ?es arr (unat (slots ! k)) = encode_gpt_entry ?es tails ?p"
    using assms(1,2) by (auto simp: array_written_def Let_def)
  obtain x y where sp: "span_of ?p = (x, y)" by (cases "span_of ?p")
  have v: "sector_span ?p = Ok (x, y)" "unat (p_start ?p) mod 512 = 0" "unat (p_length ?p) mod 512 = 0"
    "type_guid (p_kind ?p) \<noteq> UNUSED"
    using assms(4) gpt_valid_span [OF assms(4)] sp by (auto simp: gpt_valid_def)
  show ?thesis
    unfolding sp using slot_fits [OF a(3), of ?es] a
    by (intro parse_encoded_gpt [OF assms(3) v a(1)]) auto
qed

lemma traverse_written:
  assumes w: "array_written g tails ps slots arr" and t: "\<forall>p \<in> set ps. gpt_typed p \<and> gpt_valid u p"
  obtains es where "traverse (parse_gpt_entry arr (unat (entry_size g)) dev) [0..<unat (num_entries g)] = Ok es"
    and "mset (List.map_filter id es) = mset (map2 (\<lambda>p s. (as_read_gpt dev p s, span_of p)) ps slots)"
proof -
  let ?g = "parse_gpt_entry arr (unat (entry_size g)) dev" and ?n = "unat (num_entries g)"
  let ?w = "map2 (\<lambda>p s. (as_read_gpt dev p s, span_of p)) ps slots"
  have len: "length slots = length ps" "distinct slots" "\<And>k. k < length ps \<Longrightarrow> unat (slots ! k) < ?n" and es: "128 \<le> unat (entry_size g)"
    using w by (auto simp: array_written_def Let_def)
  have part: "?g (unat (slots ! k)) = Ok (Some (as_read_gpt dev (ps ! k) (slots ! k), span_of (ps ! k)))"
    if "k < length ps" for k
    using parse_written_slot [OF w that, of u dev] t that by simp
  have all: "(\<exists>k < length ps. i = unat (slots ! k)) \<or> ?g i = Ok None" if "i < ?n" for i
    using w that by (cases rule: array_slot_cases) (use es parse_unused_gpt in blast)+
  have "?g i = Ok (projr (?g i))" if "i \<in> set [0..<?n]" for i
    using all [of i] part that by auto
  then have tr: "traverse ?g [0..<?n] = Ok (map (\<lambda>i. projr (?g i)) [0..<?n])" by (rule traverse_Ok_map)
  let ?found = "List.map_filter (\<lambda>i. projr (?g i)) [0..<?n]"
  let ?E = "\<lambda>k. (as_read_gpt dev (ps ! k) (slots ! k), span_of (ps ! k))"
  have some: "projr (?g i) = Some x \<longleftrightarrow> (\<exists>k < length ps. i = unat (slots ! k) \<and> x = ?E k)" if "i < ?n" for i x
  proof
    assume "projr (?g i) = Some x"
    then show "\<exists>k < length ps. i = unat (slots ! k) \<and> x = ?E k" using all [OF that] part by auto
  qed (use part in auto)
  have "x \<in> set ?found \<longleftrightarrow> (\<exists>k < length ps. x = ?E k)" for x
    using len(3) by (auto simp: set_map_filter some)
  then have "set ?found = set ?w" using len(1) by (force simp: set_zip)
  moreover have "distinct ?found"
    by (rule distinct_map_filter) (auto simp: some as_read_gpt_def dest: arg_cong [of _ _ p_slot])
  moreover have "map (\<lambda>x. p_slot (fst x)) ?w = map Some slots"
    using len(1) by (intro nth_equalityI) (auto simp: as_read_gpt_def)
  then have "distinct (map (\<lambda>x. p_slot (fst x)) ?w)" using len(2) by (simp only: distinct_map) simp
  then have "distinct ?w" by (simp only: distinct_map)
  ultimately have "mset ?found = mset ?w" using set_eq_iff_mset_eq_distinct by blast
  then show ?thesis using that [OF tr] by (simp only: map_filter_id_map)
qed

lemma map2_False: "length os = length ps \<Longrightarrow> True \<notin> set os \<Longrightarrow> flag_overlaps os ps = ps"
  by (intro nth_equalityI) (auto simp: flag_overlaps_def in_set_conv_nth)

lemma range_issues_none: "f \<le> a \<Longrightarrow> a \<le> l \<Longrightarrow> b \<le> l \<Longrightarrow> range_issues a b f l = 0"
  by (simp add: range_issues_def not_less [symmetric])

text \<open>A table the writer made has no issues, so the reader returns the entries as they are.\<close>

lemma flags_clean:
  assumes m: "mset found = mset (map2 (\<lambda>p s. (as_read_gpt dev p s, span_of p)) ps slots)"
    and len: "length slots = length ps" and v: "\<forall>p \<in> set ps. gpt_valid (first_usable_lba h, last_usable_lba h) p"
    and dj: "disjoint_spans (map span_of ps)"
  shows "flag_overlaps (mark_overlaps (map snd found)) (flag_ranges h found) = map fst found"
proof -
  let ?w = "map2 (\<lambda>p s. (as_read_gpt dev p s, span_of p)) ps slots"
  have "map snd ?w = map span_of ps" using len by (intro nth_equalityI) auto
  moreover have "mset (map snd found) = mset (map snd ?w)" by (simp only: mset_map m)
  ultimately have ms: "mset (map snd found) = mset (map span_of ps)" by (simp only:)
  have in_w: "\<exists>k < length ps. x = (as_read_gpt dev (ps ! k) (slots ! k), span_of (ps ! k))" if "x \<in> set found" for x
  proof -
    have "set found = set ?w" using arg_cong [OF m, of set_mset] by (simp only: set_mset_mset)
    then show ?thesis using that len by (auto simp: set_zip)
  qed
  have rng: "(case x of (p, a, b) \<Rightarrow> p\<lparr>p_issues := range_issues a b (first_usable_lba h) (last_usable_lba h)\<rparr>) = fst x"
    if x: "x \<in> set found" for x
  proof -
    obtain k where k: "k < length ps" "x = (as_read_gpt dev (ps ! k) (slots ! k), span_of (ps ! k))"
      using in_w [OF x] by blast
    then obtain a b where ab: "sector_span (ps ! k) = Ok (a, b)" "first_usable_lba h \<le> a" "b \<le> last_usable_lba h"
      using v by (fastforce simp: gpt_valid_def)
    then have "a \<le> last_usable_lba h" using sector_span_ordered [OF ab(1)] by simp
    then have "range_issues a b (first_usable_lba h) (last_usable_lba h) = 0"
      using ab by (simp add: range_issues_none)
    then show ?thesis using k(2) ab(1) by (simp add: span_of_def as_read_gpt_def)
  qed
  have fr: "flag_ranges h found = map fst found"
    unfolding flag_ranges_def using rng by (intro map_cong) auto
  have "\<forall>x \<in> set (map snd found). fst x \<le> snd x"
  proof
    fix y assume "y \<in> set (map snd found)"
    then obtain x where "x \<in> set found" "y = snd x" by auto
    then obtain k where "k < length ps" "y = span_of (ps ! k)" using in_w by fastforce
    then show "fst y \<le> snd y" using v gpt_valid_span by (metis nth_mem)
  qed
  then have "True \<notin> set (mark_overlaps (map snd found))" "length (mark_overlaps (map snd found)) = length found"
    using no_marks_iff_disjoint dj disjoint_spans_mset [OF ms] mark_overlaps_inv(1) by auto
  then show ?thesis unfolding fr by (intro map2_False) simp_all
qed

context block_reader
begin

lemma parse_entry_array_written:
  assumes d: "invar d" and sh: "check_shape g = Ok u"
    and tr: "traverse (parse_gpt_entry arr (unat (entry_size g)) (size_bytes rd d)) [0..<unat (num_entries g)] = Ok es"
    and m: "mset (List.map_filter id es) = mset (map2 (\<lambda>p s. (as_read_gpt dev p s, span_of p)) ps slots)"
    and len: "length slots = length ps" and v: "\<forall>p \<in> set ps. gpt_valid (first_usable_lba h, last_usable_lba h) p"
    and dj: "disjoint_spans (map span_of ps)"
    and h: "num_partition_entries h = num_entries g" "partition_entry_size h = entry_size g"
      "partition_entry_array_crc32 h = crc arr"
    and fit: "512 * unat (partition_entry_lba h) + unat (array_bytes g) \<le> length (contents d)"
    and at: "slice_of (512 * unat (partition_entry_lba h)) (unat (array_bytes g)) (contents d) = arr"
  shows "parse_entry_array crc rd d h = Ok (map fst (List.map_filter id es), arr)"
proof -
  let ?o = "partition_entry_lba h * 512" and ?b = "array_bytes g"
  note cf = contents_fit [OF d] and sz = size_contents [OF d]
  have uo: "unat ?o = 512 * unat (partition_entry_lba h)"
    using fit cf by (simp add: unat_word_ariths mult.commute)
  then have mul: "checked_mul (partition_entry_lba h) 512 = Some ?o"
    using fit cf by (simp add: checked_mul_def mult.commute)
  have add: "checked_add ?o ?b = Some (?o + ?b)" and ue: "unat (?o + ?b) = unat ?o + unat ?b"
    using fit cf uo by (simp_all add: checked_add_def unat_word_ariths)
  have "\<not> ?o + ?b > size_bytes rd d" using fit uo ue sz by (simp add: word_less_nat_alt)
  moreover have "read_at rd d ?o (unat ?b) = Ok arr"
    using read_within [OF d, of ?o "unat ?b"] uo fit at by simp
  moreover have "ucast (num_partition_entries h) * ucast (partition_entry_size h) = ?b"
    by (simp add: array_bytes_def h)
  ultimately show ?thesis
    using mul add tr flags_clean [OF m len v dj] h
    by (simp add: parse_entry_array_def Let_def)
qed

end

context block_store
begin

lemma write_seq_contents:
  assumes "invar d" and "is_writable dv d"
    and "\<forall>(off, bs) \<in> set ws. unat off + length bs \<le> length (contents d)"
  shows "\<exists>d'. write_seq dv d ws = (Ok (), d') \<and> invar d' \<and> is_writable dv d' \<and>
    size_bytes dv d' = size_bytes dv d \<and>
    contents d' = fold (\<lambda>(off, bs). copy_at (unat off) bs) ws (contents d)"
  using assms
proof (induction ws arbitrary: d)
  case (Cons w ws)
  obtain off bs where w: "w = (off, bs)" by (cases w)
  obtain r d1 where wr: "write_at dv d off bs = (r, d1)" by (cases "write_at dv d off bs")
  have "unat off + length bs \<le> length (contents d)" using Cons.prems(3) w by auto
  note we = write_within_eq [OF Cons.prems(1,2) this wr]
  have "\<forall>(off, bs) \<in> set ws. unat off + length bs \<le> length (contents d1)"
    using Cons.prems(3) we(5) by simp
  from Cons.IH [OF we(3,4) this] show ?case
    using w wr we by auto
qed simp

end

section \<open>The five writes\<close>

lemma five_regions:
  fixes S a e f l :: nat
  assumes len: "length mbr = 512" "length ph = 512" "length bh = 512" "length arr \<le> 512 * a"
    and reg: "2 \<le> e" "e + a \<le> f" "f \<le> l" "l < S - 1 - a" "512 * S \<le> length c"
    and c': "c' = copy_at (512 * (S - 1)) bh (copy_at (512 * (S - 1 - a)) arr
       (copy_at (512 * e) arr (copy_at 512 ph (copy_at 0 mbr c))))"
  shows "length c' = length c" and "slice_of 0 512 c' = mbr" and "slice_of 512 512 c' = ph"
    and "slice_of (512 * e) (length arr) c' = arr"
    and "slice_of (512 * (S - 1 - a)) (length arr) c' = arr"
    and "slice_of (512 * (S - 1)) 512 c' = bh"
    and "\<And>at n. 512 * f \<le> at \<Longrightarrow> at + n \<le> 512 * (l + 1) \<Longrightarrow> slice_of at n c' = slice_of at n c"
proof -
  define b where "b = S - 1 - a"
  have S: "S - 1 = b + a" "l < b" "512 * (b + a + 1) \<le> length c"
    using reg by (auto simp: b_def)
  let ?c1 = "copy_at 0 mbr c" and ?c2 = "copy_at 512 ph (copy_at 0 mbr c)"
  let ?c3 = "copy_at (512 * e) arr ?c2" and ?c4 = "copy_at (512 * b) arr (copy_at (512 * e) arr ?c2)"
  have l1: "length ?c1 = length c" using S len by simp
  have l2: "length ?c2 = length c" using S len reg l1 by simp
  have l3: "length ?c3 = length c" using S len reg l2 by simp
  have l4: "length ?c4 = length c" using S len reg l3 by simp
  have c: "c' = copy_at (512 * (b + a)) bh ?c4" by (simp only: c' S(1) add_diff_cancel_right')
  show "length c' = length c" using S len l4 by (simp add: c)
  have s5: "slice_of at n c' = slice_of at n ?c4" if "at + n \<le> 512 * (b + a)" for at n
    unfolding c using that S len l4 by (intro slice_copy_at_disjoint) auto
  have s4: "slice_of at n ?c4 = slice_of at n ?c3" if "at + n \<le> 512 * b" for at n
    using that S len l3 by (intro slice_copy_at_disjoint) auto
  have s3: "slice_of at n ?c3 = slice_of at n ?c2" if "at + n \<le> 512 * e \<or> 512 * e + length arr \<le> at" for at n
    using that S len reg l2 by (intro slice_copy_at_disjoint) auto
  have s2: "slice_of at n ?c2 = slice_of at n ?c1" if "at + n \<le> 512 \<or> 1024 \<le> at" for at n
    using that S len reg l1 by (intro slice_copy_at_disjoint) auto
  have s1: "slice_of at n ?c1 = slice_of at n c" if "512 \<le> at" for at n
    using that S len by (intro slice_copy_at_disjoint) auto
  show "slice_of 0 512 c' = mbr"
    using s5 [of 0 512] s4 [of 0 512] s3 [of 0 512] s2 [of 0 512] S reg len by simp
  show "slice_of 512 512 c' = ph"
    using s5 [of 512 512] s4 [of 512 512] s3 [of 512 512] S reg len l1 by simp
  show "slice_of (512 * e) (length arr) c' = arr"
    using s5 [of "512 * e" "length arr"] s4 [of "512 * e" "length arr"] S reg len l2 by simp
  have "slice_of (512 * b) (length arr) c' = arr"
    using s5 [of "512 * b" "length arr"] S reg len l3 by simp
  then show "slice_of (512 * (S - 1 - a)) (length arr) c' = arr" by (simp only: b_def)
  show "slice_of (512 * (S - 1)) 512 c' = bh" unfolding S(1) c using S len l4 by simp
  show "slice_of at n c' = slice_of at n c" if "512 * f \<le> at" "at + n \<le> 512 * (l + 1)" for at n
  proof -
    have "at + n \<le> 512 * b" "512 * e + length arr \<le> at" "1024 \<le> at" using that S reg len by auto
    then show ?thesis using s5 [of at n] s4 [of at n] s3 [of at n] s2 [of at n] s1 [of at n] by simp
  qed
qed

section \<open>LBA 0\<close>

lemma length_chs [simp]: "length (chs_for_lba x) = 3"
  by (simp add: chs_for_lba_def Let_def)

lemma length_protective_mbr [simp]: "length (protective_mbr ts) = 512"
  by (simp add: protective_mbr_def Let_def)

lemma hybrid_fold_length:
  assumes "\<forall>r \<in> set rs. unat (r_slot r) < 4 \<and> length (r_bytes r) = 16" and "length out = 512"
  shows "length (fst (fold (hybrid_step rb ps) rs (out, m))) = 512 \<and>
    (\<forall>s. snd (fold (hybrid_step rb ps) rs (out, m)) = Some s \<longrightarrow> m = Some s \<or> s < 4)"
  using assms
proof (induction rs arbitrary: out m)
  case (Cons r rs)
  obtain out' m' where st: "hybrid_step rb ps r (out, m) = (out', m')"
    by (cases "hybrid_step rb ps r (out, m)")
  have "length out' = 512" "m' = m \<or> m = None \<and> m' = Some (unat (r_slot r))"
    using Cons.prems st entry_at_le [of "unat (r_slot r)"]
    by (auto simp: hybrid_step_def Let_def split: if_splits option.splits)
  then show ?case using Cons.IH [of out' m'] Cons.prems st by auto
qed simp

lemma hybrid_lba0_length:
  assumes "hybrid_lba0 current rs prot ps = Ok s" and "length current = 512"
    and "\<forall>r \<in> set rs. length (r_bytes r) = 16" and "length prot = 16"
  shows "length s = 512" and "s ! 510 = 0x55" and "s ! 511 = 0xAA"
proof -
  let ?o = "copy_at 0 (take 446 current) zero_sector"
  obtain out m where fo: "fold (hybrid_step (is_protective current) ps) rs (?o, None) = (out, m)"
    by (cases "fold (hybrid_step (is_protective current) ps) rs (?o, None)")
  have slots: "\<forall>r \<in> set rs. unat (r_slot r) < 4"
    using assms(1) by (auto simp: hybrid_lba0_def list_ex_iff split: if_splits)
  have out: "length out = 512" "\<forall>k. m = Some k \<longrightarrow> k < 4"
    using hybrid_fold_length [of rs ?o "is_protective current" ps None] slots assms(2,3) fo by auto
  have find: "k < 4" if "List.find P [0..<4] = Some k" for P and k :: nat
    using that by (auto simp: find_Some_iff)
  obtain o2 where o2: "s = o2[510 := 0x55, 511 := 0xAA]"
    and "o2 = out \<or> (\<exists>k < 4. o2 = copy_at (entry_at k) prot out)"
    using assms(1) fo out(2) find
    by (auto simp: hybrid_lba0_def Let_def split: if_splits option.splits)
  then have "length o2 = 512" using out(1) assms(4) by (auto dest!: entry_at_le)
  then show "length s = 512" "s ! 510 = 0x55" "s ! 511 = 0xAA" by (simp_all add: o2)
qed

section \<open>The writer on a device\<close>

text \<open>The bytes of a device after the writes of a plan.\<close>

definition table_placed ::
    "(u8 list \<Rightarrow> u32) \<Rightarrow> gpt_geometry \<Rightarrow> u8 list \<Rightarrow> gpt_plan \<Rightarrow> u8 list \<Rightarrow> nat \<Rightarrow> u8 list \<Rightarrow> u8 list \<Rightarrow> bool" where
  "table_placed crc g guid pl mbr S c c' \<longleftrightarrow>
     (let a = unat (array_sectors g); n = length (pl_array pl); ac = crc (pl_array pl);
          last_lba = of_nat (S - 1); backup_lba = of_nat (S - 1 - a) in
      length c' = length c \<and> slice_of 0 512 c' = mbr \<and>
      slice_of 512 512 c' = build_header crc 1 last_lba (entry_lba g) (pl_usable pl) guid ac g \<and>
      slice_of (512 * unat (entry_lba g)) n c' = pl_array pl \<and>
      slice_of (512 * (S - 1 - a)) n c' = pl_array pl \<and>
      slice_of (512 * (S - 1)) 512 c' = build_header crc last_lba 1 backup_lba (pl_usable pl) guid ac g \<and>
      (\<forall>at n. 512 * unat (fst (pl_usable pl)) \<le> at \<longrightarrow> at + n \<le> 512 * (unat (snd (pl_usable pl)) + 1) \<longrightarrow>
         slice_of at n c' = slice_of at n c))"

lemma unat_times_512: "unat x < 2 ^ 55 \<Longrightarrow> unat (x * 512 :: u64) = 512 * unat x"
  by (simp add: unat_word_ariths mult.commute)

context block_store
begin

text \<open>Where an accepted plan puts the table: both arrays and headers, apart from each other and on the device.\<close>

lemma plan_layout:
  assumes d: "invar d" and plan: "plan_gpt w (size_bytes dv d) ps g tails = Ok pl" and typed: "\<forall>p \<in> set ps. gpt_typed p"
  shows "check_shape g = Ok ()" and "array_written g tails ps (pl_slots pl) (pl_array pl)"
    and "length (pl_array pl) = unat (array_bytes g)" and "length (pl_array pl) \<le> 512 * unat (array_sectors g)"
    and "2 \<le> unat (entry_lba g)" and "unat (entry_lba g) + unat (array_sectors g) \<le> unat (fst (pl_usable pl))"
    and "unat (fst (pl_usable pl)) \<le> unat (snd (pl_usable pl))"
    and "unat (snd (pl_usable pl)) < length (contents d) div 512 - 1 - unat (array_sectors g)"
    and "512 * (length (contents d) div 512) \<le> length (contents d)" and "length (contents d) div 512 < 2 ^ 55"
    and "unat (size_bytes dv d div 512 - 1) = length (contents d) div 512 - 1"
    and "unat (size_bytes dv d div 512 - 1 - array_sectors g) = length (contents d) div 512 - 1 - unat (array_sectors g)"
proof -
  let ?S = "length (contents d) div 512" and ?a = "unat (array_sectors g)" and ?u = "pl_usable pl"
  have ts: "unat (size_bytes dv d div 512) = ?S" using size_contents [OF d] by (simp add: unat_div_distrib)
  show sh: "check_shape g = Ok ()" and reg: "2 \<le> unat (entry_lba g)" "unat (entry_lba g) + ?a \<le> unat (fst ?u)"
    "unat (fst ?u) \<le> unat (snd ?u)" "unat (snd ?u) < ?S - 1 - ?a" "512 * ?S \<le> length (contents d)"
    using usable_range_Ok [of g "size_bytes dv d div 512" "fst ?u" "snd ?u"] plan_gpt_Ok(2) [OF plan] ts
    by (auto simp: regions_fit_def Let_def)
  show aw: "array_written g tails ps (pl_slots pl) (pl_array pl)" by (rule plan_array_written [OF plan typed])
  show "length (pl_array pl) = unat (array_bytes g)" and "length (pl_array pl) \<le> 512 * ?a"
    using aw array_sizes(1,2) [OF sh] by (simp_all add: array_written_def Let_def)
  show "?S < 2 ^ 55" using contents_fit [OF d] by simp
  show l: "unat (size_bytes dv d div 512 - 1) = ?S - 1" using ts reg by (simp add: unat_sub word_le_nat_alt)
  show "unat (size_bytes dv d div 512 - 1 - array_sectors g) = ?S - 1 - ?a"
    using l reg by (simp add: unat_sub word_le_nat_alt)
qed

lemma write_gpt_placed:
  assumes d: "invar d" and plan: "plan_gpt (is_writable dv d) (size_bytes dv d) ps g tails = Ok pl"
    and typed: "\<forall>p \<in> set ps. gpt_typed p" and guid: "length guid = 16" and mbr: "length mbr = 512"
    and lba0: "lba0_for dv d ps lba0 = Ok mbr"
  shows "\<exists>d'. write_gpt_assigning_slots crc dv d ps guid g tails lba0 = (Ok (pl_slots pl), d') \<and>
    invar d' \<and> is_writable dv d' \<and> size_bytes dv d' = size_bytes dv d \<and>
    table_placed crc g guid pl mbr (length (contents d) div 512) (contents d) (contents d')"
proof -
  let ?S = "length (contents d) div 512" and ?a = "unat (array_sectors g)" and ?e = "unat (entry_lba g)"
  let ?arr = "pl_array pl"
  note pf = plan_gpt_Ok [OF plan] and pl = plan_layout [OF d plan typed]
  note reg = pl(5-9) and la = pl(4)
  let ?last = "size_bytes dv d div 512 - 1"
  have ul: "?last = of_nat (?S - 1)" and ub: "?last - array_sectors g = of_nat (?S - 1 - ?a)"
    using eq_of_nat [OF pl(11)] eq_of_nat [OF pl(12)] by simp_all
  have lt: "unat (entry_lba g) < 2 ^ 55" "unat (?last - array_sectors g) < 2 ^ 55" "unat ?last < 2 ^ 55"
    using pl(5-12) by linarith+
  have offs: "unat (entry_lba g * 512) = 512 * ?e" "unat ((?last - array_sectors g) * 512) = 512 * (?S - 1 - ?a)"
    "unat (?last * 512) = 512 * (?S - 1)"
    by (simp_all only: unat_times_512 [OF lt(1)] unat_times_512 [OF lt(2)] unat_times_512 [OF lt(3)] pl(11,12))
  let ?ws = "gpt_writes crc (size_bytes dv d) g guid pl mbr"
  have lh: "length (build_header crc my alt ents us guid ac g) = 512" for my alt ents us ac
    using parse_build_header(2) [OF pl(1) guid] .
  have "\<forall>(off, bs) \<in> set ?ws. unat off + length bs \<le> length (contents d)"
  proof -
    have "512 \<le> length (contents d)" "1024 \<le> length (contents d)"
      "512 * ?e + length ?arr \<le> length (contents d)"
      "512 * (?S - 1 - ?a) + length ?arr \<le> length (contents d)" "512 * (?S - 1) + 512 \<le> length (contents d)"
      using reg la by linarith+
    then show ?thesis
      unfolding gpt_writes_def Let_def SECTOR_SIZE_def list.set ball_simps prod.case offs lh mbr by simp
  qed
  then obtain d' where d': "write_seq dv d ?ws = (Ok (), d')" "invar d'" "is_writable dv d'"
    "size_bytes dv d' = size_bytes dv d"
    and c': "contents d' = fold (\<lambda>(off, bs). copy_at (unat off) bs) ?ws (contents d)"
    using write_seq_contents [OF d pf(1)] by blast
  have wr: "write_gpt_assigning_slots crc dv d ps guid g tails lba0 = (Ok (pl_slots pl), d')"
    using plan lba0 d'(1) by (simp add: write_gpt_assigning_slots_def)
  have c5: "contents d' = copy_at (512 * (?S - 1)) (build_header crc ?last 1 (?last - array_sectors g) (pl_usable pl) guid (crc ?arr) g)
      (copy_at (512 * (?S - 1 - ?a)) ?arr (copy_at (512 * ?e) ?arr (copy_at 512
        (build_header crc 1 ?last (entry_lba g) (pl_usable pl) guid (crc ?arr) g) (copy_at 0 mbr (contents d)))))"
    unfolding c' gpt_writes_def Let_def SECTOR_SIZE_def by (simp only: fold_simps prod.case offs) simp
  note fr = five_regions [OF mbr lh lh la reg c5]
  have "table_placed crc g guid pl mbr ?S (contents d) (contents d')"
    unfolding table_placed_def Let_def ul [symmetric] ub [symmetric] using fr by blast
  then show ?thesis using d' wr by blast
qed

end

lemma compare_backup_same: "compare_backup (zip xs xs) = BackupOk"
  by (induction xs) auto

lemma validate_backup_same: "parse_backup crc rd d = Ok parts \<Longrightarrow> validate_backup crc rd d parts = BackupOk"
  by (simp add: validate_backup_def compare_backup_same)

context block_store
begin

lemma placed_parse:
  assumes d: "invar d" and plan: "plan_gpt w (size_bytes dv d) ps g tails = Ok pl"
    and typed: "\<forall>p \<in> set ps. gpt_typed p" and guid: "length guid = 16"
    and tp: "table_placed crc g guid pl mbr (length (contents d) div 512) c (contents d)"
  shows "\<exists>parts. gpt_parse crc dv d (slice_of 512 512 (contents d)) = Ok parts \<and> parse_backup crc dv d = Ok parts \<and>
    mset parts = mset (map2 (as_read_gpt (size_bytes dv d)) ps (pl_slots pl))"
proof -
  let ?S = "length (contents d) div 512" and ?a = "unat (array_sectors g)" and ?e = "unat (entry_lba g)"
  let ?arr = "pl_array pl" and ?u = "pl_usable pl"
  note pf = plan_gpt_Ok [OF plan] and pl = plan_layout [OF d plan typed]
  note sh = pl(1) and aw = pl(2) and la = pl(3,4) and reg = pl(5-9) and S55 = pl(10)
  have ls: "length (pl_slots pl) = length ps" using aw by (simp add: array_written_def Let_def)
  have v: "\<forall>p \<in> set ps. gpt_typed p \<and> gpt_valid ?u p" using typed pf(4) by blast
  obtain es where tr: "traverse (parse_gpt_entry ?arr (unat (entry_size g)) (size_bytes dv d)) [0..<unat (num_entries g)] = Ok es"
    and m: "mset (List.map_filter id es) = mset (map2 (\<lambda>p s. (as_read_gpt (size_bytes dv d) p s, span_of p)) ps (pl_slots pl))"
    using traverse_written [OF aw v] by blast
  let ?parts = "map fst (List.map_filter id es)"
  define lst bl :: u64 where "lst = of_nat (?S - 1)" and "bl = of_nat (?S - 1 - ?a)"
  have ul: "unat lst = ?S - 1" and ub: "unat bl = ?S - 1 - ?a"
    using S55 by (simp_all add: lst_def bl_def unat_of_nat)
  note tp = tp [unfolded table_placed_def Let_def, folded lst_def bl_def]
  have parse_array: "parse_entry_array crc dv d h = Ok (?parts, ?arr)"
    if "num_partition_entries h = num_entries g" "partition_entry_size h = entry_size g"
      "partition_entry_array_crc32 h = crc ?arr" "first_usable_lba h = fst ?u" "last_usable_lba h = snd ?u"
      "unat (partition_entry_lba h) = ?e \<or> unat (partition_entry_lba h) = ?S - 1 - ?a" for h
  proof (rule parse_entry_array_written [where crc = crc, OF d sh tr m ls _ pf(5) that(1-3)])
    show "\<forall>p \<in> set ps. gpt_valid (first_usable_lba h, last_usable_lba h) p" using v that(4,5) by simp
    show "512 * unat (partition_entry_lba h) + unat (array_bytes g) \<le> length (contents d)"
      using that(6) la reg by linarith
    show "slice_of (512 * unat (partition_entry_lba h)) (unat (array_bytes g)) (contents d) = ?arr"
      using that(6) tp la(1) by auto
  qed
  obtain c1 where h1: "parse_header crc (slice_of 512 512 (contents d)) =
    Ok \<lparr>my_lba = 1, alternate_lba = lst, first_usable_lba = fst ?u, last_usable_lba = snd ?u,
      disk_guid = guid, partition_entry_lba = entry_lba g, num_partition_entries = num_entries g,
      partition_entry_size = entry_size g, partition_entry_array_crc32 = crc ?arr, header_crc32 = c1, header_size = 92\<rparr>"
    using parse_build_header(1) [OF sh guid] tp by metis
  obtain c2 where h2: "parse_header crc (slice_of (512 * (?S - 1)) 512 (contents d)) =
    Ok \<lparr>my_lba = lst, alternate_lba = 1, first_usable_lba = fst ?u, last_usable_lba = snd ?u,
      disk_guid = guid, partition_entry_lba = bl, num_partition_entries = num_entries g,
      partition_entry_size = entry_size g, partition_entry_array_crc32 = crc ?arr, header_crc32 = c2, header_size = 92\<rparr>"
    using parse_build_header(1) [OF sh guid] tp by metis
  have primary: "gpt_parse crc dv d (slice_of 512 512 (contents d)) = Ok ?parts"
    unfolding gpt_parse_def h1 by (simp add: parse_array)
  have backup: "parse_backup crc dv d = Ok ?parts"
  proof -
    have l: "size_bytes dv d div 512 - 1 = lst"
      unfolding lst_def using pl(11) by (rule eq_of_nat)
    have "unat lst < 2 ^ 55" using ul S55 by linarith
    from unat_times_512 [OF this] have o: "unat (lst * 512) = 512 * (?S - 1)" by (simp only: ul)
    have "read_at dv d (lst * 512) 512 = Ok (slice_of (512 * (?S - 1)) 512 (contents d))"
      using read_within [OF d, of "lst * 512" 512] o reg by simp
    moreover have "\<not> size_bytes dv d < 2 * 512"
      using reg size_contents [OF d] by (simp add: word_less_nat_alt)
    ultimately show ?thesis
      by (simp only: parse_backup_def Let_def SECTOR_SIZE_def SECTOR_SIZE_USIZE_def l map_err_simps rbind_simps h2 if_False header.select_convs not_True_eq_False simp_thms)
        (simp add: parse_array ub)
  qed
  have "map2 (as_read_gpt (size_bytes dv d)) ps (pl_slots pl)
      = map fst (map2 (\<lambda>p s. (as_read_gpt (size_bytes dv d) p s, span_of p)) ps (pl_slots pl))"
    by (simp add: comp_def case_prod_beta)
  then have "mset ?parts = mset (map2 (as_read_gpt (size_bytes dv d)) ps (pl_slots pl))"
    by (simp only: mset_map m)
  then show ?thesis using primary backup by blast
qed

end

section \<open>What the plan accepts\<close>

definition bytes16 :: "partition \<Rightarrow> bool" where
  "bytes16 p \<longleftrightarrow> (case p_kind p of Gpt guid _ \<Rightarrow> length guid = 16 | _ \<Rightarrow> True) \<and>
     (case p_uuid p of Some uuid \<Rightarrow> length uuid = 16 | None \<Rightarrow> True)"

lemma gpt_typed_iff: "gpt_valid u p \<Longrightarrow> gpt_typed p \<longleftrightarrow> bytes16 p \<and> p_uuid p \<noteq> None"
  by (auto simp: gpt_valid_def gpt_typed_def bytes16_def)

lemma put_gpt_entries_uuid:
  "put_gpt_entries g tails (zip ps slots) arr = Ok arr' \<Longrightarrow> length slots = length ps \<Longrightarrow>
     p \<in> set ps \<Longrightarrow> p_uuid p \<noteq> None"
proof (induction ps arbitrary: slots arr)
  case (Cons q ps)
  obtain x xs where "slots = x # xs" using Cons.prems(2) by (cases slots) auto
  then show ?case
    using Cons by (auto simp: put_gpt_entry_def Let_def split: partition_kind.splits)
qed simp

lemma plan_gpt_iff:
  assumes b16: "\<forall>p \<in> set ps. bytes16 p"
  shows "(\<exists>pl. plan_gpt w bytes ps g tails = Ok pl) \<longleftrightarrow>
    w \<and> length ps \<le> unat (num_entries g) \<and> disjoint_spans (map span_of ps) \<and>
    slots_available ps (num_entries g) [] \<and>
    (\<exists>u. usable_range g (bytes div 512) = Ok u \<and> (\<forall>p \<in> set ps. gpt_valid u p \<and> p_uuid p \<noteq> None))"
    (is "?L \<longleftrightarrow> ?R")
proof
  assume ?L
  then obtain pl where pl: "plan_gpt w bytes ps g tails = Ok pl" by blast
  note pf = plan_gpt_Ok [OF pl]
  have as: "assign_slots_with_taken ps (num_entries g) [] = Ok (pl_slots pl)"
    using pf(6) by (simp add: assign_slots_def)
  then have "slots_available ps (num_entries g) []" using assign_slots_total by blast
  moreover have "\<forall>p \<in> set ps. p_uuid p \<noteq> None"
    using put_gpt_entries_uuid [OF pf(7)] assign_slots_facts(1) [OF as] by blast
  ultimately show ?R using pf(1-5) by blast
next
  assume R: ?R
  then obtain f l where ur: "usable_range g (bytes div 512) = Ok (f, l)"
    and v: "\<forall>p \<in> set ps. gpt_valid (f, l) p \<and> p_uuid p \<noteq> None" by auto
  have typed: "\<forall>p \<in> set ps. gpt_typed p \<and> (\<exists>ab. sector_span p = Ok ab)"
  proof
    fix p assume p: "p \<in> set ps"
    then have "gpt_valid (f, l) p" "p_uuid p \<noteq> None" "bytes16 p" using v b16 by auto
    then show "gpt_typed p \<and> (\<exists>ab. sector_span p = Ok ab)"
      using gpt_typed_iff [of "(f, l)" p] gpt_valid_span [of "(f, l)" p] by blast
  qed
  have tr: "traverse (\<lambda>p. rbind (validate_partition p f l) (\<lambda>_. sector_span p)) ps = Ok (map span_of ps)"
    using v validate_partition_iff [of _ f l "()"] by (intro traverse_Ok_map) (auto dest: gpt_valid_span)
  have "\<forall>x \<in> set (map span_of ps). fst x \<le> snd x" using v by (auto dest: gpt_valid_span)
  then have no: "\<not> list_ex id (mark_overlaps (map span_of ps))"
    using no_marks_iff_disjoint R by (simp add: list_ex_id)
  obtain slots where as: "assign_slots_with_taken ps (num_entries g) [] = Ok slots"
    using R assign_slots_total by blast
  have sh: "check_shape g = Ok ()" using usable_range_Ok(1) [OF ur] .
  let ?es = "unat (entry_size g)" and ?n = "unat (num_entries g)" and ?z = "replicate (unat (array_bytes g)) (0 :: u8)"
  have es: "128 \<le> ?es" and len: "length ?z = ?n * ?es"
    using check_shape_Ok [OF sh] array_sizes(1) [OF sh] by simp_all
  have "\<forall>x \<in> set slots. unat x < ?n \<and> gpt_slot ?es ?z (unat x) = replicate ?es 0"
    using assign_slots_facts(4) [OF as] slot_fits [of _ ?n ?es] len
    by (auto simp: word_less_nat_alt gpt_slot_def)
  from put_gpt_entries_spec [OF refl es len assign_slots_facts(1,2) [OF as] this typed, of tails]
  obtain arr where "put_gpt_entries g tails (zip ps slots) ?z = Ok arr" by blast
  then show ?L
    using R ur tr no as by (simp add: plan_gpt_def Let_def assign_slots_def)
qed

context block_store
begin

lemma lba0_for_length:
  assumes "invar d" and "lba0_for dv d ps rs = Ok mbr" and "\<forall>r \<in> set rs. length (r_bytes r) = 16"
  shows "length mbr = 512"
proof (cases "rs = []")
  case True
  then show ?thesis using assms(2) by (auto simp: lba0_for_def Let_def)
next
  case False
  then obtain cur where cur: "read_at dv d 0 512 = Ok cur"
    and h: "hybrid_lba0 cur rs (slice_of 446 16 (protective_mbr (size_bytes dv d div 512))) ps = Ok mbr"
    using assms(2) by (auto simp: lba0_for_def Let_def)
  have "length cur = 512" using read_Ok_length [OF assms(1) _ _ cur] by simp
  then show ?thesis using hybrid_lba0_length(1) [OF h _ assms(3)] by simp
qed

end

section \<open>Properties\<close>

text \<open>
  C1: A written GPT is a whole, consistent table. On a device that keeps the
  contract of \<open>BlockDevice\<close>, once the plan and LBA 0 are made the writer
  succeeds with the planned slots; the primary copy then parses (both checksums
  included) to exactly the partitions written, each in its slot and free of
  issues; the backup copy parses to the same list and validates against it; and
  no byte of the usable sectors has changed.
\<close>

theorem gpt_write_then_read:
  assumes dev: "block_store dv contents invar" and d: "invar d"
    and plan: "plan_gpt (is_writable dv d) (size_bytes dv d) ps g tails = Ok pl"
    and typed: "\<forall>p \<in> set ps. gpt_typed p" and guid: "length guid = 16"
    and lba0: "lba0_for dv d ps rs = Ok mbr" and r16: "\<forall>r \<in> set rs. length (r_bytes r) = 16"
  shows "\<exists>d' parts. write_gpt_assigning_slots crc dv d ps guid g tails rs = (Ok (pl_slots pl), d') \<and>
    gpt_parse crc dv d' (slice_of 512 512 (contents d')) = Ok parts \<and>
    mset parts = mset (map2 (as_read_gpt (size_bytes dv d)) ps (pl_slots pl)) \<and>
    parse_backup crc dv d' = Ok parts \<and> validate_backup crc dv d' parts = BackupOk \<and>
    slice_of 0 512 (contents d') = mbr \<and> length (contents d') = length (contents d) \<and>
    (\<forall>at n. 512 * unat (fst (pl_usable pl)) \<le> at \<longrightarrow> at + n \<le> 512 * (unat (snd (pl_usable pl)) + 1) \<longrightarrow>
       slice_of at n (contents d') = slice_of at n (contents d))"
proof -
  have "length mbr = 512"
    by (rule block_store.lba0_for_length [OF dev d lba0 r16])
  then obtain d' where d': "write_gpt_assigning_slots crc dv d ps guid g tails rs = (Ok (pl_slots pl), d')"
    "invar d'" "size_bytes dv d' = size_bytes dv d"
    and tp: "table_placed crc g guid pl mbr (length (contents d) div 512) (contents d) (contents d')"
    using block_store.write_gpt_placed [OF dev d plan typed guid _ lba0] by blast
  have len: "length (contents d') = length (contents d)" using tp by (simp add: table_placed_def Let_def)
  obtain parts where "gpt_parse crc dv d' (slice_of 512 512 (contents d')) = Ok parts"
    "parse_backup crc dv d' = Ok parts" "mset parts = mset (map2 (as_read_gpt (size_bytes dv d')) ps (pl_slots pl))"
    using block_store.placed_parse [OF dev d'(2) _ typed guid, of _ g tails pl crc mbr "contents d"] plan d'(3) tp len
    by auto
  then show ?thesis
    using d' validate_backup_same tp len by (intro exI [of _ d'] exI [of _ parts]) (auto simp: table_placed_def Let_def)
qed

section \<open>A hybrid LBA 0 that nothing changed\<close>

definition marker :: "reserved_entry \<Rightarrow> bool" where
  "marker r \<longleftrightarrow> r_bytes r ! 4 = GPT_PROTECTIVE"

text \<open>The entry mirrors a partition of the GPT, or is not a mirror at all.\<close>

definition still_mirrors :: "partition list \<Rightarrow> reserved_entry \<Rightarrow> bool" where
  "still_mirrors ps r \<longleftrightarrow> entry_role (r_bytes r ! 4) \<noteq> Volume \<or> le32 (r_bytes r) 12 = 0 \<or>
     list_ex (\<lambda>p. p_start p = ucast (le32 (r_bytes r) 8) * 512 \<and>
        p_length p = ucast (le32 (r_bytes r) 12) * 512) ps"

lemma ucast_32_64_zero: "(ucast (w :: u32) :: u64) = 0 \<longleftrightarrow> w = 0"
  using unat_lt [of w] by (simp add: word_unat_eq_iff unat_ucast)

lemma hybrid_fold_kept:
  assumes "\<forall>r \<in> set rs. marker r \<or> still_mirrors ps r"
    and "length (filter marker rs) \<le> (if m = None then 1 else 0)"
  shows "\<exists>m'. fold (hybrid_step False ps) rs (out, m) = (put_reserved rs out, m') \<and>
    (m' = None \<longleftrightarrow> m = None \<and> filter marker rs = [])"
  using assms
proof (induction rs arbitrary: out m)
  case Nil
  then show ?case by (simp add: put_reserved_def)
next
  case (Cons r rs)
  let ?out = "copy_at (entry_at (unat (r_slot r))) (r_bytes r) out"
  have pr: "put_reserved (r # rs) out = put_reserved rs ?out" by (simp add: put_reserved_def)
  show ?case
  proof (cases "marker r")
    case True
    then have "m = None" "filter marker rs = []" using Cons.prems(2) by (auto split: if_splits)
    moreover from this True have "hybrid_step False ps r (out, m) = (?out, Some (unat (r_slot r)))"
      by (simp add: hybrid_step_def marker_def Let_def)
    ultimately show ?thesis
      using Cons.IH [of "Some (unat (r_slot r))" ?out] Cons.prems(1) True unfolding pr by auto
  next
    case False
    then have "still_mirrors ps r" using Cons.prems(1) by simp
    then have "hybrid_step False ps r (out, m) = (?out, m)"
      using False by (auto simp: hybrid_step_def marker_def still_mirrors_def Let_def ucast_32_64_zero
          simp del: GPT_PROTECTIVE_def)
    then show ?thesis
      using Cons.IH [of m ?out] Cons.prems False unfolding pr by auto
  qed
qed

lemma lba0_entries_mem:
  assumes "length s = 512" and "s ! 510 = 0x55" and "s ! 511 = 0xAA"
  shows "r \<in> set (lba0_entries s) \<longleftrightarrow>
    unat (r_slot r) < 4 \<and> r_bytes r = entry_bytes s (unat (r_slot r)) \<and> r_bytes r ! 4 \<noteq> 0"
proof -
  have sig: "slice_of 510 2 s = [0x55, 0xAA]"
    using assms by (intro nth_equalityI) (auto simp: less_Suc_eq numeral_2_eq_2)
  have e: "r \<in> set (lba0_entries s) \<longleftrightarrow>
      (\<exists>i < 4. entry_bytes s i ! 4 \<noteq> 0 \<and> r = \<lparr>r_slot = of_nat i, r_bytes = entry_bytes s i\<rparr>)"
    using assms(1) by (auto simp: lba0_entries_def sig set_map_filter Let_def entry_bytes_nth)
  show ?thesis
    unfolding e by (cases r) (auto simp: unat_of_nat intro!: exI [of _ "unat (r_slot r)"])
qed

lemma lba0_entries_distinct: "distinct (map r_slot (lba0_entries s))"
  by (auto simp: lba0_entries_def map_map_filter of_nat_slot_eq Let_def
      intro!: distinct_map_filter split: if_splits)

text \<open>
  C24: A GPT commit leaves a hybrid LBA 0 as it was. When LBA 0 carries the boot
  signature, one \<open>0xEE\<close> marker beside other entries, blank empty slots, and
  mirrors that still match partitions being written, the sector the writer puts
  at LBA 0 is the one that was there, byte for byte: boot code, mirrors and the
  narrow marker included.
\<close>

theorem hybrid_unedited_is_identity:
  assumes len: "length current = 512" and sig: "current ! 510 = 0x55" "current ! 511 = 0xAA"
    and hyb: "\<not> is_protective current" "length (filter marker (lba0_entries current)) = 1"
    and mir: "\<forall>r \<in> set (lba0_entries current). marker r \<or> still_mirrors ps r"
    and tidy: "\<forall>i < 4. entry_bytes current i ! 4 = 0 \<longrightarrow> entry_bytes current i = replicate 16 0"
  shows "hybrid_lba0 current (lba0_entries current) protective ps = Ok current"
proof -
  let ?rs = "lba0_entries current" and ?o = "copy_at 0 (take 446 current) zero_sector"
  let ?p = "put_reserved ?rs ?o"
  note mem = lba0_entries_mem [OF len sig]
  obtain m where fo: "fold (hybrid_step False ps) ?rs (?o, None) = (?p, m)" and m: "m \<noteq> None"
    using hybrid_fold_kept [OF mir, of None ?o] hyb(2) by auto
  have lo: "length ?o = 512" using len by simp
  have pr: "same_outside ?o ?p" "\<forall>r \<in> set ?rs. entry_bytes ?p (unat (r_slot r)) = r_bytes r"
    "\<forall>j < 4. j \<notin> (\<lambda>r. unat (r_slot r)) ` set ?rs \<longrightarrow> entry_bytes ?p j = entry_bytes ?o j"
    using put_reserved_spec [OF lo lba0_entries_distinct [of current]] mem len by auto
  have lp: "length ?p = 512" using pr(1) lo by (simp add: same_outside_def)
  have ent: "entry_bytes ?p j = entry_bytes current j" if j: "j < 4" for j
  proof (cases "entry_bytes current j ! 4 = 0")
    case True
    have "j \<notin> (\<lambda>r. unat (r_slot r)) ` set ?rs" using True by (auto simp: mem)
    moreover have "entry_bytes ?o j = replicate 16 0"
      using j len entry_at_le [OF j] by (simp add: entry_bytes_def slice_copy_at_disjoint entry_at_def)
    ultimately show ?thesis using pr(3) j True tidy by simp
  next
    case False
    let ?r = "\<lparr>r_slot = of_nat j, r_bytes = entry_bytes current j\<rparr>"
    have "?r \<in> set ?rs" using False j by (simp add: mem unat_of_nat)
    then show ?thesis using pr(2) j by (force simp: unat_of_nat)
  qed
  have "?p[510 := 0x55, 511 := 0xAA] = current"
  proof (rule sector_eqI)
    show "\<forall>i < 446. ?p[510 := 0x55, 511 := 0xAA] ! i = current ! i"
      using pr(1) lo len by (auto simp: same_outside_def nth_copy_at)
    show "\<forall>j < 4. entry_bytes (?p[510 := 0x55, 511 := 0xAA]) j = entry_bytes current j"
      using lp ent by (simp add: entry_bytes_list_update)
  qed (use lp len sig in simp_all)
  moreover have "\<not> list_ex (\<lambda>e. 4 \<le> unat (r_slot e)) ?rs" using mem by (fastforce simp: list_ex_iff)
  ultimately show ?thesis using hyb(1) fo m by (simp add: hybrid_lba0_def Let_def)
qed

text \<open>
  C25: A refused GPT write changes nothing. Whatever the reason for the refusal,
  geometry, partitions, slots or LBA 0, it comes before the first write and the
  device is left exactly as it was.
\<close>

theorem gpt_write_refusal_harmless:
  assumes dev: "block_store dv contents invar" and d: "invar d" and guid: "length guid = 16"
    and b16: "\<forall>p \<in> set ps. bytes16 p" and r16: "\<forall>r \<in> set rs. length (r_bytes r) = 16"
    and wr: "write_gpt_assigning_slots crc dv d ps guid g tails rs = (Err e, d')"
  shows "d' = d"
proof (cases "plan_gpt (is_writable dv d) (size_bytes dv d) ps g tails")
  case (Inl e')
  then show ?thesis using wr by (simp add: write_gpt_assigning_slots_def)
next
  case (Inr pl)
  show ?thesis
  proof (cases "lba0_for dv d ps rs")
    case (Inl e')
    then show ?thesis using wr Inr by (simp add: write_gpt_assigning_slots_def)
  next
    case mbr: (Inr mbr)
    have typed: "\<forall>p \<in> set ps. gpt_typed p"
    proof
      fix p assume p: "p \<in> set ps"
      have "\<exists>u. gpt_valid u p \<and> p_uuid p \<noteq> None"
        using plan_gpt_iff [OF b16, of "is_writable dv d" "size_bytes dv d" g tails] Inr p by blast
      then show "gpt_typed p" using gpt_typed_iff b16 p by blast
    qed
    have "length mbr = 512" by (rule block_store.lba0_for_length [OF dev d mbr r16])
    then show ?thesis
      using block_store.write_gpt_placed [OF dev d Inr typed guid _ mbr, of crc] wr by auto
  qed
qed

text \<open>
  A geometry is accepted only if its parts do not touch. In sectors, without
  wrap-around: the entry array starts after the header at LBA 1, ends before the
  first usable sector, the usable range runs forward and ends before the backup
  array, and the backup array and header end the disk.
\<close>

theorem usable_range_sound:
  assumes "usable_range g total_sectors = Ok (f, l)"
  shows "2 \<le> unat (entry_lba g) \<and> 0 < unat (array_sectors g) \<and>
    unat (num_entries g) * unat (entry_size g) \<le> 512 * unat (array_sectors g) \<and>
    unat (entry_lba g) + unat (array_sectors g) \<le> unat f \<and> unat f \<le> unat l \<and>
    unat l + unat (array_sectors g) + 1 < unat total_sectors"
  using usable_range_Ok [OF assms] array_sizes [OF usable_range_Ok(1) [OF assms]]
  by (auto simp: regions_fit_def Let_def)

text \<open>
  A header is read back as it was built. For any geometry the writer accepts
  and any checksum function, the reader accepts the header the writer builds and
  returns the fields it was built from.
\<close>

theorem header_roundtrip:
  assumes "check_shape g = Ok ()" and "length guid = 16"
  shows "\<exists>h. parse_header crc (build_header crc my alt ents (f, l) guid ac g) = Ok h \<and>
    my_lba h = my \<and> alternate_lba h = alt \<and> first_usable_lba h = f \<and> last_usable_lba h = l \<and>
    disk_guid h = guid \<and> partition_entry_lba h = ents \<and> num_partition_entries h = num_entries g \<and>
    partition_entry_size h = entry_size g \<and> partition_entry_array_crc32 h = ac"
  using parse_build_header(1) [OF assms, of crc my alt ents "(f, l)" ac] by auto

text \<open>
  C26: What the GPT writer accepts, exactly. The plan succeeds if and only if the
  device is writable, the geometry fits it, there are no more partitions than
  slots, every partition is a GPT partition with a type and a UUID, aligned and
  inside the usable range, no two share a sector, and the recorded slots are
  distinct and in the table.
\<close>

theorem gpt_plan_accepts:
  assumes "\<forall>p \<in> set ps. bytes16 p"
  shows "(\<exists>pl. plan_gpt w bytes ps g tails = Ok pl) \<longleftrightarrow>
    w \<and> length ps \<le> unat (num_entries g) \<and> disjoint_spans (map span_of ps) \<and>
    slots_available ps (num_entries g) [] \<and>
    (\<exists>u. usable_range g (bytes div 512) = Ok u \<and> (\<forall>p \<in> set ps. gpt_valid u p \<and> p_uuid p \<noteq> None))"
  by (rule plan_gpt_iff [OF assms])

section \<open>Witnesses\<close>

definition wit_geometry :: gpt_geometry where
  "wit_geometry = \<lparr>num_entries = 4, entry_size = 128, entry_lba = 2, declared_usable = None\<rparr>"

definition wit_gpt_part :: partition where
  "wit_gpt_part = \<lparr>p_start = 1536, p_length = 1024, p_kind = Gpt (replicate 16 1) 4, p_label = Some [0x45],
     p_uuid = Some (replicate 16 2), p_slot = None, p_issues = 0, p_available_length = 0\<rparr>"

definition wit_crc :: "u8 list \<Rightarrow> u32" where
  "wit_crc bs = sum_list (map ucast bs)"

lemma wit_usable: "usable_range wit_geometry 8 = Ok (3, 5)"
  by code_simp

lemma wit_span: "sector_span wit_gpt_part = Ok (3, 4)"
  by code_simp

lemma wit_gpt_valid: "gpt_valid (3, 5) wit_gpt_part"
  using wit_span by (simp add: gpt_valid_def wit_gpt_part_def UNUSED_def replicate_eq_replicate)

lemma wit_gpt_typed: "gpt_typed wit_gpt_part" "bytes16 wit_gpt_part"
  by (simp_all add: gpt_typed_def bytes16_def wit_gpt_part_def)

lemma wit_gpt_plan: "\<exists>pl. plan_gpt True 4096 [wit_gpt_part] wit_geometry Map.empty = Ok pl"
proof -
  have "slots_available [wit_gpt_part] 4 []"
    by (simp add: slots_available_def wit_gpt_part_def List.map_filter_simps)
  then show ?thesis
    using plan_gpt_iff [of "[wit_gpt_part]" True 4096 wit_geometry Map.empty] wit_usable wit_gpt_valid wit_gpt_typed
    by (simp add: wit_geometry_def disjoint_spans_def) (simp add: wit_gpt_part_def)
qed

theorem gpt_write_then_read_witness:
  "\<exists>slots d' parts. write_gpt_assigning_slots wit_crc memdev (replicate 4096 7) [wit_gpt_part] (replicate 16 9)
      wit_geometry Map.empty [] = (Ok slots, d') \<and>
    gpt_parse wit_crc memdev d' (slice_of 512 512 d') = Ok parts \<and> length parts = 1 \<and>
    validate_backup wit_crc memdev d' parts = BackupOk"
proof -
  obtain pl where pl: "plan_gpt True 4096 [wit_gpt_part] wit_geometry Map.empty = Ok pl" using wit_gpt_plan by blast
  have ls: "length (pl_slots pl) = 1"
    using plan_array_written [OF pl] wit_gpt_typed by (simp add: array_written_def Let_def)
  let ?d = "replicate 4096 7 :: u8 list"
  have inv: "memdev_invar ?d" and lb: "lba0_for memdev ?d [wit_gpt_part] [] = Ok (protective_mbr 8)"
    and plan: "plan_gpt (is_writable memdev ?d) (size_bytes memdev ?d) [wit_gpt_part] wit_geometry Map.empty = Ok pl"
    and typed: "\<forall>p \<in> set [wit_gpt_part]. gpt_typed p" and g16: "length (replicate 16 (9 :: u8)) = 16"
    and none: "\<forall>r \<in> set []. length (r_bytes r) = 16"
    using pl wit_gpt_typed by (simp_all add: memdev_invar_def lba0_for_def)
  obtain d' parts where w: "write_gpt_assigning_slots wit_crc memdev ?d [wit_gpt_part] (replicate 16 9)
        wit_geometry Map.empty [] = (Ok (pl_slots pl), d')"
      "gpt_parse wit_crc memdev d' (slice_of 512 512 d') = Ok parts"
      "validate_backup wit_crc memdev d' parts = BackupOk"
    and m: "mset parts = mset (map2 (as_read_gpt (size_bytes memdev ?d)) [wit_gpt_part] (pl_slots pl))"
    using gpt_write_then_read [OF memdev.block_store_axioms inv plan typed g16 lb none, of wit_crc] by blast
  have "length parts = 1" using arg_cong [OF m, of size] ls by simp
  with w show ?thesis by blast
qed

theorem gpt_write_refusal_harmless_witness:
  "\<exists>e. write_gpt_assigning_slots wit_crc memdev (replicate 4096 7) [wit_gpt_part\<lparr>p_uuid := None\<rparr>] (replicate 16 9)
      wit_geometry Map.empty [] = (Err e, replicate 4096 7)"
proof -
  have b: "\<forall>p \<in> set [wit_gpt_part\<lparr>p_uuid := None\<rparr>]. bytes16 p" by (simp add: bytes16_def wit_gpt_part_def)
  then obtain e where "plan_gpt True 4096 [wit_gpt_part\<lparr>p_uuid := None\<rparr>] wit_geometry Map.empty = Err e"
    using plan_gpt_iff [OF b, of True 4096 wit_geometry Map.empty]
    by (cases "plan_gpt True 4096 [wit_gpt_part\<lparr>p_uuid := None\<rparr>] wit_geometry Map.empty") auto
  then have "write_gpt_assigning_slots wit_crc memdev (replicate 4096 7) [wit_gpt_part\<lparr>p_uuid := None\<rparr>] (replicate 16 9)
      wit_geometry Map.empty [] = (Err e, replicate 4096 7)"
    by (simp add: write_gpt_assigning_slots_def)
  with gpt_write_refusal_harmless [OF memdev.block_store_axioms _ _ b _ this] show ?thesis by blast
qed

theorem usable_range_sound_witness:
  "2 \<le> unat (entry_lba wit_geometry) \<and> unat (3 :: u64) \<le> unat (5 :: u64) \<and>
    unat (5 :: u64) + unat (array_sectors wit_geometry) + 1 < unat (8 :: u64)"
  using usable_range_sound [OF wit_usable] by blast

theorem header_roundtrip_witness:
  "\<exists>h. parse_header wit_crc (build_header wit_crc 1 7 2 (3, 5) (replicate 16 9) 42 wit_geometry) = Ok h \<and>
    my_lba h = 1 \<and> partition_entry_array_crc32 h = 42"
proof -
  have "check_shape wit_geometry = Ok ()" using usable_range_Ok(1) [OF wit_usable] .
  from header_roundtrip [OF this, of "replicate 16 9" wit_crc 1 7 2 3 5 42] show ?thesis by auto
qed

theorem gpt_plan_accepts_witness:
  "\<exists>pl. plan_gpt True 4096 [wit_gpt_part] wit_geometry Map.empty = Ok pl"
proof -
  have "slots_available [wit_gpt_part] 4 []"
    by (simp add: slots_available_def wit_gpt_part_def List.map_filter_simps)
  then show ?thesis
    using gpt_plan_accepts [of "[wit_gpt_part]" True 4096 wit_geometry Map.empty] wit_usable wit_gpt_valid wit_gpt_typed
    by (simp add: wit_geometry_def disjoint_spans_def) (simp add: wit_gpt_part_def)
qed

definition wit_hybrid :: "u8 list" where
  "wit_hybrid = replicate 446 7 @ [0, 0, 2, 0, 0xEE, 9, 9, 9, 1, 0, 0, 0, 2, 0, 0, 0]
     @ [0x80, 1, 2, 3, 0x83, 4, 5, 6, 3, 0, 0, 0, 2, 0, 0, 0] @ replicate 32 0 @ [0x55, 0xAA]"

lemma wit_hybrid_entries:
  "length wit_hybrid = 512" "wit_hybrid ! 510 = 0x55" "wit_hybrid ! 511 = 0xAA"
  "entry_bytes wit_hybrid 0 = [0, 0, 2, 0, 0xEE, 9, 9, 9, 1, 0, 0, 0, 2, 0, 0, 0]"
  "entry_bytes wit_hybrid 1 = [0x80, 1, 2, 3, 0x83, 4, 5, 6, 3, 0, 0, 0, 2, 0, 0, 0]"
  "entry_bytes wit_hybrid 2 = replicate 16 0" "entry_bytes wit_hybrid 3 = replicate 16 0"
  by (simp_all add: wit_hybrid_def entry_bytes_def slice_of_def entry_at_def nth_append)

lemma wit_hybrid_lba0: "lba0_entries wit_hybrid =
    [\<lparr>r_slot = 0, r_bytes = [0, 0, 2, 0, 0xEE, 9, 9, 9, 1, 0, 0, 0, 2, 0, 0, 0]\<rparr>,
     \<lparr>r_slot = 1, r_bytes = [0x80, 1, 2, 3, 0x83, 4, 5, 6, 3, 0, 0, 0, 2, 0, 0, 0]\<rparr>]"
proof -
  have t: "wit_hybrid ! (entry_at i + 4) = entry_bytes wit_hybrid i ! 4" if "i < 4" for i
    using that by (simp add: entry_bytes_nth wit_hybrid_entries)
  have sig: "slice_of 510 2 wit_hybrid = [0x55, 0xAA]" by (simp add: wit_hybrid_def slice_of_def)
  show ?thesis
    using t [of 0] t [of 1] t [of 2] t [of 3]
    by (simp add: lba0_entries_def sig upt_4 List.map_filter_simps Let_def wit_hybrid_entries flip: One_nat_def)
qed

theorem hybrid_unedited_is_identity_witness:
  "hybrid_lba0 wit_hybrid (lba0_entries wit_hybrid) (replicate 16 0) [wit_gpt_part] = Ok wit_hybrid"
proof (rule hybrid_unedited_is_identity)
  have t: "entry_type wit_hybrid i = entry_bytes wit_hybrid i ! 4" if "i < 4" for i
    using that by (simp add: entry_type_def entry_bytes_nth wit_hybrid_entries)
  show "\<not> is_protective wit_hybrid"
    using t [of 0] t [of 1] t [of 2] t [of 3]
    by (simp add: is_protective_def upt_4 wit_hybrid_entries Let_def flip: One_nat_def)
  have "le32 [0x80, 1, 2, 3, 0x83, 4, 5, 6, 3, 0, 0, 0, 2, 0, 0, 0] 8 = 3"
    "le32 [0x80, 1, 2, 3, 0x83, 4, 5, 6, 3, 0, 0, 0, 2, 0, 0, 0] 12 = 2" by code_simp+
  then show "\<forall>r \<in> set (lba0_entries wit_hybrid). marker r \<or> still_mirrors [wit_gpt_part] r"
    by (simp add: wit_hybrid_lba0 marker_def still_mirrors_def wit_gpt_part_def)
  show "\<forall>i < 4. entry_bytes wit_hybrid i ! 4 = 0 \<longrightarrow> entry_bytes wit_hybrid i = replicate 16 0"
    unfolding all_less_4 wit_hybrid_entries by simp
qed (simp_all add: wit_hybrid_entries wit_hybrid_lba0 marker_def)

end
