(* ===== verification/Probe.thy ===== *)
theory Probe
  imports Gpt Mbr
begin

text \<open>
  The probe (\<open>probe.rs\<close>): which table a device carries, its partitions, and
  which copy of a GPT they were read from.
\<close>

definition FOUR_K_LBA1 :: u64 where [simp]: "FOUR_K_LBA1 = 4096"

definition looks_like_4kn_gpt ::
    "(u8 list \<Rightarrow> u32) \<Rightarrow> ('d, 'x) block_read_scheme \<Rightarrow> 'd \<Rightarrow> string option" where
  "looks_like_4kn_gpt crc rd d =
     (case read_at rd d FOUR_K_LBA1 4096 of
        Inl _ \<Rightarrow> None
      | Inr block \<Rightarrow>
          (case parse_header_block crc block of
             Inl _ \<Rightarrow> None
           | Inr h \<Rightarrow>
               if my_lba h \<noteq> 1 then None
               else Some ''this disk keeps its GPT at byte 4096, so its logical sectors are 4096 bytes (4Kn); this crate reads partition tables in 512-byte units only''))"

datatype table_source = FromMbr | Primary | PrimaryBackupStale string | RecoveredFromBackup

definition recover_from_backup ::
    "(u8 list \<Rightarrow> u32) \<Rightarrow> ('d, 'x) block_read_scheme \<Rightarrow> 'd \<Rightarrow> error
      \<Rightarrow> error + (table_kind \<times> partition list \<times> table_source)" where
  "recover_from_backup crc rd d primary =
     (case parse_backup crc rd d of
        Inr parts \<Rightarrow> Ok (TkGpt, parts, RecoveredFromBackup)
      | Inl _ \<Rightarrow> Err primary)"

text \<open>
  LBA 1: its bytes, zeros when the device ends before it, or the read's error.
\<close>

definition read_lba1 :: "('d, 'x) block_read_scheme \<Rightarrow> 'd \<Rightarrow> error + u8 list" where
  "read_lba1 rd d =
     (case read_at rd d 512 SECTOR_SIZE_USIZE of
        Inr lba1 \<Rightarrow> Ok lba1
      | Inl e \<Rightarrow>
          let said_so = (1 \<le> size_bytes rd d \<and> size_bytes rd d < 1024)
          in if \<not> (past_the_end e \<or> said_so) then Err (Block e) else Ok zero_sector)"

definition probe_inner ::
    "(u8 list \<Rightarrow> u32) \<Rightarrow> ('d, 'x) block_read_scheme \<Rightarrow> 'd \<Rightarrow> bool
      \<Rightarrow> error + (table_kind \<times> partition list \<times> table_source)" where
  "probe_inner crc rd d consult_backup =
     rbind (lift_fs (read_at rd d 0 SECTOR_SIZE_USIZE)) (\<lambda>lba0.
     rbind (read_lba1 rd d) (\<lambda>lba1.
       let has_mbr_sig = (lba0 ! 510 = 0x55 \<and> lba0 ! 511 = 0xAA);
           has_gpt_sig = (slice_of 0 8 lba1 = SIGNATURE)
       in if has_gpt_sig
          then (case gpt_parse crc rd d lba1 of
                  Inr parts \<Rightarrow>
                    if consult_backup
                    then Ok (TkGpt, parts,
                           case validate_backup crc rd d parts of
                             BackupOk \<Rightarrow> Primary
                           | Mismatch why \<Rightarrow> PrimaryBackupStale why)
                    else Ok (TkGpt, parts, Primary)
                | Inl primary \<Rightarrow>
                    if consult_backup then recover_from_backup crc rd d primary else Err primary)
          else case (if has_mbr_sig \<and> has_gpt_marker lba0 then looks_like_4kn_gpt crc rd d else None) of
            Some why \<Rightarrow> Err (UnsupportedSectorSize why)
          | None \<Rightarrow>
            if has_mbr_sig
            then if is_protective lba0
                 then let primary = GptCorrupt ''protective MBR present but no GPT signature''
                      in if consult_backup then recover_from_backup crc rd d primary else Err primary
                 else rbind (mbr_parse lba0 (size_bytes rd d)) (\<lambda>parts. Ok (TkMbr, parts, FromMbr))
            else Err NoPartitionTable))"

definition probe ::
    "(u8 list \<Rightarrow> u32) \<Rightarrow> ('d, 'x) block_read_scheme \<Rightarrow> 'd \<Rightarrow> error + (table_kind \<times> partition list)" where
  "probe crc rd d = map_ok (\<lambda>(kind, parts, _). (kind, parts)) (probe_inner crc rd d False)"

definition probe_with_status ::
    "(u8 list \<Rightarrow> u32) \<Rightarrow> ('d, 'x) block_read_scheme \<Rightarrow> 'd
      \<Rightarrow> error + (table_kind \<times> partition list \<times> table_source)" where
  "probe_with_status crc rd d = probe_inner crc rd d True"

section \<open>The two probes\<close>

text \<open>
  C28: The probe that consults the backup only adds to the one that does not.
  What \<open>probe\<close> reports, \<open>probe_with_status\<close> reports too, and says it came
  from the primary copy or an MBR; where \<open>probe\<close> fails it either fails with the
  same error or returns the partitions of a backup that parses, and says so.
\<close>

theorem probe_with_status_extends:
  "case probe crc rd d of
     Inr (kind, parts) \<Rightarrow> (\<exists>src. probe_with_status crc rd d = Ok (kind, parts, src) \<and>
        src \<noteq> RecoveredFromBackup \<and> (src = FromMbr \<longleftrightarrow> kind = TkMbr) \<and>
        (src = Primary \<longleftrightarrow> kind = TkGpt \<and> validate_backup crc rd d parts = BackupOk))
   | Inl e \<Rightarrow> probe_with_status crc rd d = Err e \<or>
        (\<exists>parts. parse_backup crc rd d = Ok parts \<and>
           probe_with_status crc rd d = Ok (TkGpt, parts, RecoveredFromBackup))"
proof (cases "read_at rd d 0 512")
  case (Inl e)
  then show ?thesis by (simp add: probe_def probe_with_status_def probe_inner_def)
next
  case a: (Inr lba0)
  show ?thesis
  proof (cases "read_lba1 rd d")
    case (Inl e)
    then show ?thesis using a by (simp add: probe_def probe_with_status_def probe_inner_def)
  next
    case b: (Inr lba1)
    note defs = probe_def probe_with_status_def probe_inner_def recover_from_backup_def Let_def a b
    show ?thesis
    proof (cases "slice_of 0 8 lba1 = SIGNATURE")
      case True
      show ?thesis
      proof (cases "gpt_parse crc rd d lba1")
        case (Inl e)
        then show ?thesis using True by (cases "parse_backup crc rd d") (simp_all add: defs)
      next
        case (Inr parts)
        then show ?thesis using True by (cases "validate_backup crc rd d parts") (simp_all add: defs)
      qed
    next
      case sig: False
      show ?thesis
      proof (cases "lba0 ! 510 = 0x55 \<and> lba0 ! 511 = 0xAA")
        case mbr: True
        show ?thesis
        proof (cases "has_gpt_marker lba0 \<and> looks_like_4kn_gpt crc rd d \<noteq> None")
          case True
          then show ?thesis using sig mbr by (auto simp: defs)
        next
          case False
          then have "(if has_gpt_marker lba0 then looks_like_4kn_gpt crc rd d else None) = None" by auto
          then show ?thesis using sig mbr
            by (cases "parse_backup crc rd d"; cases "mbr_parse lba0 (size_bytes rd d)")
              (simp_all add: defs del: if_split)
        qed
      qed (use sig in \<open>auto simp: defs\<close>)
    qed
  qed
qed

end
