(* ===== verification/Mutation.thy ===== *)
theory Mutation
  imports Gpt_Write Probe
begin

text \<open>
  The editable partition set (\<open>mutation.rs\<close>): a table in memory, the edits
  \<open>add\<close>, \<open>remove\<close> and \<open>resize\<close>, the first-fit search for free
  space, and the commit that writes the table back.

  An operation on \<open>&mut self\<close> returns the result together with the set it
  leaves behind. The operating system's random bytes, clock and process id, which
  only \<open>random_uuid\<close> uses, are the argument \<^emph>\<open>entropy\<close>.
\<close>

section \<open>Types of partitions\<close>

definition ALIGNMENT_SECTORS :: u64 where [simp]: "ALIGNMENT_SECTORS = 2048"

datatype partition_type_id =
    EfiSystem | MicrosoftBasicData | LinuxFilesystem | LinuxSwap | AppleHfsPlus | AppleApfs
  | GptCustom "u8 list"
  | MbrCustom u8

fun to_gpt_guid :: "partition_type_id \<Rightarrow> error + u8 list" where
  "to_gpt_guid EfiSystem = Ok EFI_SYSTEM"
| "to_gpt_guid MicrosoftBasicData = Ok MICROSOFT_BASIC_DATA"
| "to_gpt_guid LinuxFilesystem = Ok LINUX_FILESYSTEM"
| "to_gpt_guid LinuxSwap = Ok LINUX_SWAP"
| "to_gpt_guid AppleHfsPlus = Ok APPLE_HFS_PLUS"
| "to_gpt_guid AppleApfs = Ok APPLE_APFS"
| "to_gpt_guid (GptCustom g) = Ok g"
| "to_gpt_guid (MbrCustom _) = Err (Invalid ''MBR type byte used in GPT context'')"

fun to_mbr_byte :: "partition_type_id \<Rightarrow> error + u8" where
  "to_mbr_byte EfiSystem = Ok EFI_SYSTEM_MBR"
| "to_mbr_byte MicrosoftBasicData = Ok NTFS_OR_EXFAT"
| "to_mbr_byte LinuxFilesystem = Ok LINUX"
| "to_mbr_byte LinuxSwap = Ok LINUX_SWAP_MBR"
| "to_mbr_byte AppleHfsPlus = Ok HFS_PLUS_MBR"
| "to_mbr_byte AppleApfs = Err (Invalid ''APFS has no MBR type byte; use GPT'')"
| "to_mbr_byte (MbrCustom b) = Ok b"
| "to_mbr_byte (GptCustom _) = Err (Invalid ''GPT type GUID used in MBR context'')"

datatype partition_ref = Index nat | Uuid "u8 list"

section \<open>Random UUIDs\<close>

record entropy =
  urandom :: "u8 list option"
  clock_nanos :: "u64 option"
  process_id :: u32

definition xorshift64 :: "u64 \<Rightarrow> u64" where
  "xorshift64 s0 =
     (let s1 = s0 XOR push_bit 13 s0;
          s2 = s1 XOR drop_bit 7 s1
      in s2 XOR push_bit 17 s2)"

definition fill_from_prng :: "entropy \<Rightarrow> u8 list" where
  "fill_from_prng e =
     (let nanos = (case clock_nanos e of Some n \<Rightarrow> n | None \<Rightarrow> 0x9E3779B97F4A7C15);
          state = nanos * 0x9E3779B97F4A7C15 + ucast (process_id e);
          state = (if state = 0 then 0x9E3779B97F4A7C15 else state);
          first = xorshift64 state
      in le64_bytes first @ le64_bytes (xorshift64 first))"

definition fill_from_urandom :: "entropy \<Rightarrow> u8 list option" where
  "fill_from_urandom e = urandom e"

definition random_uuid :: "entropy \<Rightarrow> u8 list" where
  "random_uuid e =
     (let bytes = (case fill_from_urandom e of Some b \<Rightarrow> b | None \<Rightarrow> fill_from_prng e);
          bytes = bytes[7 := (bytes ! 7 AND 0x0F) OR 0x40]
      in bytes[8 := (bytes ! 8 AND 0x3F) OR 0x80])"

section \<open>The set\<close>

record partition_set =
  set_kind :: table_kind
  partitions :: "partition list"
  disk_size :: u64
  set_guid :: "u8 list"
  gpt_entry_tails :: entry_tail_map
  gpt_geometry :: gpt_geometry
  reserved :: "reserved_entry list"

definition from_probe ::
    "(u8 list \<Rightarrow> u32) \<Rightarrow> ('d, 'x) block_read_scheme \<Rightarrow> 'd \<Rightarrow> error + partition_set" where
  "from_probe crc rd d =
     rbind (probe crc rd d) (\<lambda>(kind, parts).
     rbind (lift_fs (read_at rd d 0 SECTOR_SIZE_USIZE)) (\<lambda>sector.
       let kept = (if kind = TkMbr then reserved_entries sector else lba0_entries sector) in
       rbind (if kind = TkGpt
              then rbind (lift_fs (read_at rd d SECTOR_SIZE SECTOR_SIZE_USIZE)) (\<lambda>lba1.
                   rbind (parse_header crc lba1) (\<lambda>h.
                   rbind (entry_tails crc rd d h) (\<lambda>tails.
                     Ok (disk_guid h, from_header h, tails))))
              else Ok (replicate 16 0, canonical, Map.empty)) (\<lambda>(guid, geometry, tails).
         Ok \<lparr>set_kind = kind, partitions = parts, disk_size = size_bytes rd d, set_guid = guid,
              gpt_entry_tails = tails, gpt_geometry = geometry, reserved = kept\<rparr>)))"

definition empty_gpt :: "entropy \<Rightarrow> u64 \<Rightarrow> partition_set" where
  "empty_gpt e size_in_bytes =
     \<lparr>set_kind = TkGpt, partitions = [], disk_size = size_in_bytes, set_guid = random_uuid e,
      gpt_entry_tails = Map.empty, gpt_geometry = canonical, reserved = []\<rparr>"

definition empty_mbr :: "u64 \<Rightarrow> partition_set" where
  "empty_mbr size_in_bytes =
     \<lparr>set_kind = TkMbr, partitions = [], disk_size = size_in_bytes, set_guid = replicate 16 0,
      gpt_entry_tails = Map.empty, gpt_geometry = canonical, reserved = []\<rparr>"

section \<open>Where a partition may go\<close>

definition align_up :: "u64 \<Rightarrow> u64 \<Rightarrow> u64" where
  "align_up v align = (let r = v mod align in if r = 0 then v else v + (align - r))"

definition set_usable_range :: "partition_set \<Rightarrow> u64 \<times> u64" where
  "set_usable_range s =
     (let total_sectors = disk_size s div SECTOR_SIZE in
      case set_kind s of
        TkGpt \<Rightarrow>
          (case usable_range (gpt_geometry s) total_sectors of
             Inr r \<Rightarrow> r
           | Inl _ \<Rightarrow> (FIRST_USABLE_LBA, FIRST_USABLE_LBA - 1))
      | TkMbr \<Rightarrow>
          if total_sectors < 2 then (1, 0)
          else (1, min (total_sectors - 1) MBR_LBA_MAX))"

definition resolve :: "partition_set \<Rightarrow> partition_ref \<Rightarrow> error + nat" where
  "resolve s target =
     (case target of
        Index i \<Rightarrow> if i \<ge> length (partitions s) then Err (Invalid ''index out of range'') else Ok i
      | Uuid u \<Rightarrow> ok_or (map_option fst (List.find (\<lambda>(i, p). p_uuid p = Some u)
                                     (enumerate 0 (partitions s))))
                   (Invalid ''uuid not found''))"

definition occupied_spans :: "partition_set \<Rightarrow> nat option \<Rightarrow> error + (u64 \<times> u64) list" where
  "occupied_spans s skip =
     rbind (traverse (\<lambda>(j, p). sector_span p)
              (filter (\<lambda>(j, p). Some j \<noteq> skip) (enumerate 0 (partitions s))))
       (\<lambda>spans. Ok (if set_kind s = TkMbr
                    then spans @ List.map_filter reserved_span (reserved s) else spans))"

text \<open>The walk of \<open>find_free\<close> over the occupied ranges in order.\<close>

fun first_fit :: "u64 \<Rightarrow> u64 \<Rightarrow> u64 \<Rightarrow> (u64 \<times> u64) list \<Rightarrow> u64 option" where
  "first_fit len last_usable cursor [] =
     (if saturating_sub (saturating_add cursor len) 1 \<le> last_usable then Some cursor else None)"
| "first_fit len last_usable cursor ((a, b) # spans) =
     (let wanted_end = saturating_sub (saturating_add cursor len) 1 in
      if wanted_end < a \<and> wanted_end \<le> last_usable then Some cursor
      else first_fit len last_usable (max cursor (align_up (b + 1) ALIGNMENT_SECTORS)) spans)"

definition find_free :: "partition_set \<Rightarrow> u64 \<Rightarrow> u64 \<Rightarrow> u64 \<Rightarrow> error + u64" where
  "find_free s length_sectors first_usable last_usable =
     rbind (occupied_spans s None) (\<lambda>spans.
       ok_or (first_fit length_sectors last_usable (align_up first_usable ALIGNMENT_SECTORS) (sort spans))
         (Invalid ''no free space large enough''))"

section \<open>The edits\<close>

definition clashes :: "u64 \<Rightarrow> u64 \<Rightarrow> (u64 \<times> u64) list \<Rightarrow> bool" where
  "clashes start_lba end_lba = list_ex (\<lambda>(a, b). start_lba \<le> b \<and> end_lba \<ge> a)"

text \<open>Where \<open>add\<close> puts the partition: its first sector and its length in sectors.\<close>

definition place_new :: "partition_set \<Rightarrow> u64 option \<Rightarrow> u64 \<Rightarrow> error + (u64 \<times> u64)" where
  "place_new s start_hint len =
     (if len = 0 then Err (Invalid ''zero length'')
      else if set_kind s = TkMbr \<and> length (partitions s) + length (reserved s) \<ge> ENTRY_COUNT
      then Err (Invalid ''MBR primary table is full (4 entries)'')
      else if set_kind s = TkGpt \<and> length (partitions s) \<ge> unat (num_entries (gpt_geometry s))
      then Err (Invalid ''the GPT's entry array is full'')
      else let length_sectors = align_up (div_ceil len SECTOR_SIZE) ALIGNMENT_SECTORS;
               (first_usable, last_usable) = set_usable_range s
           in if first_usable > last_usable then Err DeviceTooSmall
              else rbind (case start_hint of
                     Some byte \<Rightarrow> Ok (align_up (max (div_ceil byte SECTOR_SIZE) first_usable) ALIGNMENT_SECTORS)
                   | None \<Rightarrow> find_free s length_sectors first_usable last_usable) (\<lambda>start_lba.
                rbind (ok_or (checked_add start_lba (length_sectors - 1)) (Invalid ''partition end overflows'')) (\<lambda>end_lba.
                if end_lba > last_usable then Err (Invalid ''partition extends past last usable LBA'')
                else if set_kind s = TkMbr \<and> (start_lba > MBR_LBA_MAX \<or> length_sectors > MBR_LBA_MAX)
                then Err (Invalid ''partition exceeds MBR 32-bit LBA range'')
                else rbind (occupied_spans s None) (\<lambda>spans.
                  if clashes start_lba end_lba spans then Err (Invalid ''partition overlaps existing entry'')
                  else Ok (start_lba, length_sectors)))))"

definition kind_for :: "table_kind \<Rightarrow> partition_type_id \<Rightarrow> error + partition_kind" where
  "kind_for table type_id =
     (case table of
        TkGpt \<Rightarrow> rbind (to_gpt_guid type_id) (\<lambda>g. Ok (Gpt g 0))
      | TkMbr \<Rightarrow> rbind (to_mbr_byte type_id) (\<lambda>b. Ok (Mbr b False)))"

definition add_partition ::
    "entropy \<Rightarrow> partition_set \<Rightarrow> u64 option \<Rightarrow> u64 \<Rightarrow> partition_type_id \<Rightarrow> ustring option
      \<Rightarrow> (error + nat) \<times> partition_set" where
  "add_partition e s start_hint len type_id label =
     (case rbind (place_new s start_hint len) (\<lambda>(start_lba, length_sectors).
             rbind (kind_for (set_kind s) type_id) (\<lambda>kind.
               Ok \<lparr>p_start = start_lba * SECTOR_SIZE, p_length = length_sectors * SECTOR_SIZE,
                    p_kind = kind, p_label = label,
                    p_uuid = (if set_kind s = TkGpt then Some (random_uuid e) else None),
                    p_slot = None, p_issues = 0,
                    p_available_length = length_sectors * SECTOR_SIZE\<rparr>)) of
        Inl err \<Rightarrow> (Err err, s)
      | Inr part \<Rightarrow>
          (Ok (length (partitions s)), s\<lparr>partitions := partitions s @ [part]\<rparr>))"

text \<open>
  The overlap bit of every entry whose sectors can be computed, from the set as it
  stands: the spans with their indices, and the writes through those indices.
\<close>

definition set_overlap_bit :: "nat \<times> bool \<Rightarrow> partition list \<Rightarrow> partition list" where
  "set_overlap_bit = (\<lambda>(i, overlaps) ps.
     ps[i := (ps ! i)\<lparr>p_issues := (if overlaps then p_issues (ps ! i) OR OVERLAPS_ANOTHER
                                   else p_issues (ps ! i) AND NOT OVERLAPS_ANOTHER)\<rparr>])"

definition indexed_spans :: "partition list \<Rightarrow> (nat \<times> u64 \<times> u64) list" where
  "indexed_spans ps = List.map_filter (\<lambda>(i, p). case sector_span p of
     Inr span \<Rightarrow> Some (i, span) | Inl _ \<Rightarrow> None) (enumerate 0 ps)"

definition refresh_overlap_issues :: "partition_set \<Rightarrow> partition_set" where
  "refresh_overlap_issues s =
     (if set_kind s \<noteq> TkGpt then s
      else let spans = indexed_spans (partitions s)
           in s\<lparr>partitions := fold set_overlap_bit
                (zip (map fst spans) (mark_overlaps (map snd spans))) (partitions s)\<rparr>)"

definition remove_at :: "nat \<Rightarrow> 'a list \<Rightarrow> 'a list" where
  "remove_at i xs = take i xs @ drop (i + 1) xs"

definition remove_partition :: "partition_set \<Rightarrow> partition_ref \<Rightarrow> (error + unit) \<times> partition_set" where
  "remove_partition s target =
     (case resolve s target of
        Inl err \<Rightarrow> (Err err, s)
      | Inr i \<Rightarrow> (Ok (), refresh_overlap_issues (s\<lparr>partitions := remove_at i (partitions s)\<rparr>)))"

definition plan_resize :: "partition_set \<Rightarrow> partition_ref \<Rightarrow> u64 \<Rightarrow> error + (nat \<times> u64)" where
  "plan_resize s target new_length =
     (if new_length = 0 then Err (Invalid ''zero length'')
      else rbind (resolve s target) (\<lambda>i.
        let new_sectors = align_up (div_ceil new_length SECTOR_SIZE) ALIGNMENT_SECTORS;
            (_, last_usable) = set_usable_range s;
            start_lba = p_start (partitions s ! i) div SECTOR_SIZE
        in rbind (ok_or (checked_add start_lba (new_sectors - 1)) (Invalid ''partition end overflows'')) (\<lambda>new_end.
           if new_end > last_usable then Err (Invalid ''resize extends past last usable LBA'')
           else if set_kind s = TkMbr \<and> new_sectors > MBR_LBA_MAX
           then Err (Invalid ''resize exceeds MBR 32-bit LBA range'')
           else rbind (occupied_spans s (Some i)) (\<lambda>spans.
             if clashes start_lba new_end spans then Err (Invalid ''resize would overlap another partition'')
             else Ok (i, new_sectors)))))"

definition resize_partition :: "partition_set \<Rightarrow> partition_ref \<Rightarrow> u64 \<Rightarrow> (error + unit) \<times> partition_set" where
  "resize_partition s target new_length =
     (case plan_resize s target new_length of
        Inl err \<Rightarrow> (Err err, s)
      | Inr (i, new_sectors) \<Rightarrow>
          let p = partitions s ! i;
              p = p\<lparr>p_length := new_sectors * SECTOR_SIZE, p_issues := p_issues p AND NOT PAST_LAST_USABLE\<rparr>
          in (Ok (), refresh_overlap_issues (s\<lparr>partitions := (partitions s)[i := p]\<rparr>)))"

section \<open>The commit\<close>

definition write_and_flush ::
    "(u8 list \<Rightarrow> u32) \<Rightarrow> partition_set \<Rightarrow> ('d, 'x) block_device_scheme \<Rightarrow> 'd \<Rightarrow> (error + u32 list) \<times> 'd" where
  "write_and_flush crc s dv d =
     (case (case set_kind s of
              TkGpt \<Rightarrow> write_gpt_assigning_slots crc dv d (partitions s) (set_guid s) (gpt_geometry s)
                         (gpt_entry_tails s) (reserved s)
            | TkMbr \<Rightarrow> write_mbr_assigning_slots dv d (partitions s) (reserved s)) of
        (Inl err, d') \<Rightarrow> (Err err, d')
      | (Inr slots, d') \<Rightarrow>
          (case dev_flush dv d' of
             (Inl err, d'') \<Rightarrow> (Err (Block err), d'')
           | (Inr _, d'') \<Rightarrow> (Ok slots, d'')))"

definition commit ::
    "(u8 list \<Rightarrow> u32) \<Rightarrow> partition_set \<Rightarrow> ('d, 'x) block_device_scheme \<Rightarrow> 'd \<Rightarrow> (error + unit) \<times> 'd" where
  "commit crc s dv d = map_prod (map_ok (\<lambda>_. ())) id (write_and_flush crc s dv d)"

definition commit_mut ::
    "(u8 list \<Rightarrow> u32) \<Rightarrow> partition_set \<Rightarrow> ('d, 'x) block_device_scheme \<Rightarrow> 'd
      \<Rightarrow> (error + unit) \<times> partition_set \<times> 'd" where
  "commit_mut crc s dv d =
     (case write_and_flush crc s dv d of
        (Inl err, d') \<Rightarrow> (Err err, s, d')
      | (Inr slots, d') \<Rightarrow>
          (Ok (), s\<lparr>partitions := map2 (\<lambda>p slot. p\<lparr>p_slot := Some slot\<rparr>) (partitions s) slots
             @ drop (length slots) (partitions s)\<rparr>, d'))"

section \<open>Alignment\<close>

lemma round_up_2048:
  fixes n :: nat
  shows "n \<le> (n + 2047) div 2048 * 2048" and "(n + 2047) div 2048 * 2048 < n + 2048"
    and "m mod 2048 = 0 \<Longrightarrow> n \<le> m \<Longrightarrow> (n + 2047) div 2048 * 2048 \<le> m"
proof -
  define q r where "q = n div 2048" and "r = n mod 2048"
  have n: "n = q * 2048 + r" "r < 2048" by (simp_all add: q_def r_def)
  have "(n + 2047) div 2048 = (if r = 0 then q else q + 1)"
    using div_round_up [of 2048 n] by (simp add: q_def r_def)
  then show "n \<le> (n + 2047) div 2048 * 2048" "(n + 2047) div 2048 * 2048 < n + 2048"
    using n by auto
  assume "m mod 2048 = 0" "n \<le> m"
  then obtain k where m: "m = k * 2048" by (auto elim: dvdE simp: mod_eq_0_iff_dvd mult.commute)
  then have "(n + 2047) div 2048 < k + 1" using \<open>n \<le> m\<close> by (simp add: div_less_iff_less_mult)
  then show "(n + 2047) div 2048 * 2048 \<le> m" using m by simp
qed

lemma unat_align_up:
  assumes "unat v < 2 ^ 63"
  shows "unat (align_up v 2048) = (unat v + 2047) div 2048 * 2048"
proof -
  let ?r = "unat v mod 2048"
  have r: "unat (v mod 2048) = ?r" by (simp add: unat_mod_distrib)
  show ?thesis
  proof (cases "?r = 0")
    case True
    then have "v mod 2048 = 0" using r by (simp add: word_unat_eq_iff)
    moreover have "(unat v + 2047) div 2048 * 2048 = unat v"
      using round_up_2048(1) [of "unat v"] round_up_2048(3) [OF True order_refl] by linarith
    ultimately show ?thesis by (simp add: align_up_def)
  next
    case False
    have lt: "?r < 2048" by simp
    have s: "unat (2048 - v mod 2048) = 2048 - ?r"
      using lt by (subst unat_sub) (simp_all add: word_le_nat_alt r)
    have nz: "v mod 2048 \<noteq> 0" using False r by (auto simp: word_unat_eq_iff)
    have "unat v + unat (2048 - v mod 2048) < 2 ^ LENGTH(64)" unfolding s using assms by simp
    from unat_add_lem [THEN iffD1, OF this]
    have "unat (v + (2048 - v mod 2048)) = unat v + (2048 - ?r)" by (simp only: s)
    moreover have "unat v + (2048 - ?r) = (unat v + 2047) div 2048 * 2048"
    proof -
      have "unat v = unat v div 2048 * 2048 + ?r" by simp
      moreover have "(unat v + 2047) div 2048 = unat v div 2048 + 1"
        using div_round_up [of 2048 "unat v"] False by simp
      ultimately show ?thesis using lt by linarith
    qed
    ultimately show ?thesis using nz by (simp add: align_up_def Let_def)
  qed
qed

section \<open>The search for free space\<close>

text \<open>A start on a 1 MiB boundary whose sectors end in time and meet no occupied range.\<close>

definition fits_at :: "u64 \<Rightarrow> u64 \<Rightarrow> (u64 \<times> u64) list \<Rightarrow> u64 \<Rightarrow> bool" where
  "fits_at len last_usable spans t \<longleftrightarrow> unat t mod 2048 = 0 \<and>
     unat t + unat len - 1 \<le> unat last_usable \<and>
     (\<forall>(a, b) \<in> set spans. unat t + unat len - 1 < unat a \<or> unat b < unat t)"

text \<open>
  Past a span that is in the way: no fit starts between the cursor and the boundary after the
  span, and from there on the span does not matter.
\<close>

lemma skip_span:
  assumes w: "\<not> (unat cursor + unat len - 1 < unat a \<and> unat cursor + unat len - 1 \<le> unat last_usable)"
    and b: "unat b < 2 ^ 55" and c: "c = max cursor (align_up (b + 1) 2048)"
  shows "unat c = max (unat cursor) ((unat b + 1 + 2047) div 2048 * 2048)"
    and "cursor \<le> t \<Longrightarrow> fits_at len last_usable ((a, b) # spans) t \<Longrightarrow> c \<le> t"
    and "c \<le> t \<Longrightarrow> fits_at len last_usable ((a, b) # spans) t \<longleftrightarrow> fits_at len last_usable spans t"
proof -
  let ?A = "(unat b + 1 + 2047) div 2048 * 2048"
  have "unat (b + 1) = unat b + 1" "unat b + 1 < 2 ^ 63" using b by (simp_all add: unat_word_ariths)
  then have "unat (align_up (b + 1) 2048) = ?A" using unat_align_up [of "b + 1"] by simp
  then show uc: "unat c = max (unat cursor) ?A" unfolding c by (auto simp: max_def word_le_nat_alt)
  show "c \<le> t" if t: "cursor \<le> t" "fits_at len last_usable ((a, b) # spans) t"
  proof (rule ccontr)
    assume "\<not> c \<le> t"
    then have lt: "unat t < ?A" using t(1) uc by (auto simp: word_le_nat_alt max_def split: if_splits)
    have "\<not> unat b + 1 \<le> unat t"
      using round_up_2048(3) [of "unat t" "unat b + 1"] t(2) lt by (auto simp: fits_at_def)
    then have "unat t + unat len - 1 < unat a" using t(2) by (auto simp: fits_at_def)
    then show False using w t by (auto simp: fits_at_def word_le_nat_alt word_less_nat_alt)
  qed
  show "fits_at len last_usable ((a, b) # spans) t \<longleftrightarrow> fits_at len last_usable spans t" if "c \<le> t"
    using that uc round_up_2048(1) [of "unat b + 1"] by (auto simp: fits_at_def word_le_nat_alt)
qed

lemma first_fit_spec:
  assumes "0 < unat len" and "unat len < 2 ^ 60" and "unat cursor < 2 ^ 60" and "unat cursor mod 2048 = 0"
    and "sorted spans" and "\<forall>(a, b) \<in> set spans. a \<le> b \<and> unat b < 2 ^ 55"
  shows "case first_fit len last_usable cursor spans of
      Some s \<Rightarrow> cursor \<le> s \<and> fits_at len last_usable spans s \<and>
        (\<forall>t. cursor \<le> t \<longrightarrow> fits_at len last_usable spans t \<longrightarrow> s \<le> t)
    | None \<Rightarrow> \<forall>t. cursor \<le> t \<longrightarrow> \<not> fits_at len last_usable spans t"
  using assms
proof (induction len last_usable cursor spans rule: first_fit.induct)
  case (1 len last_usable cursor)
  then have w: "unat (saturating_sub (saturating_add cursor len) 1) = unat cursor + unat len - 1"
    by (simp add: unat_saturating_sub unat_saturating_add)
  show ?case
    using 1 w by (auto simp: fits_at_def word_le_nat_alt)
next
  case (2 len last_usable cursor a b spans)
  let ?w = "saturating_sub (saturating_add cursor len) 1" and ?c = "max cursor (align_up (b + 1) 2048)"
  have w: "unat ?w = unat cursor + unat len - 1"
    using "2.prems" by (simp add: unat_saturating_sub unat_saturating_add)
  have later: "a \<le> fst x" if "x \<in> set spans" for x
    using "2.prems"(5) that by (auto simp: less_eq_prod_def)
  show ?case
  proof (cases "?w < a \<and> ?w \<le> last_usable")
    case True
    have "fits_at len last_usable ((a, b) # spans) cursor"
      using True w "2.prems"(4) later
      by (fastforce simp: fits_at_def word_less_nat_alt word_le_nat_alt)
    then show ?thesis using True by (simp add: Let_def)
  next
    case False
    have nw: "\<not> (unat cursor + unat len - 1 < unat a \<and> unat cursor + unat len - 1 \<le> unat last_usable)"
      using False w by (simp add: word_less_nat_alt word_le_nat_alt)
    have b: "unat b < 2 ^ 55" using "2.prems"(6) by simp
    note uc = skip_span(1) [OF nw b refl] and skip = skip_span(2) [OF nw b refl] and past = skip_span(3) [OF nw b refl]
    have c60: "unat ?c < 2 ^ 60" "unat ?c mod 2048 = 0"
      unfolding uc using "2.prems"(3,4,6) round_up_2048(2) [of "unat b + 1"] by (auto simp: max_def)
    have IH: "case first_fit len last_usable ?c spans of
      Some s \<Rightarrow> ?c \<le> s \<and> fits_at len last_usable spans s \<and>
        (\<forall>t. ?c \<le> t \<longrightarrow> fits_at len last_usable spans t \<longrightarrow> s \<le> t)
    | None \<Rightarrow> \<forall>t. ?c \<le> t \<longrightarrow> \<not> fits_at len last_usable spans t"
      using "2.IH" [unfolded ALIGNMENT_SECTORS_def, OF refl] False c60 "2.prems"(1,2,5,6) by simp
    have ff: "first_fit len last_usable cursor ((a, b) # spans) = first_fit len last_usable ?c spans"
      using False by (auto simp: Let_def)
    have cc: "cursor \<le> ?c" by simp
    show ?thesis
    proof (cases "first_fit len last_usable ?c spans")
      case None
      then have "\<forall>t. ?c \<le> t \<longrightarrow> \<not> fits_at len last_usable spans t" using IH by simp
      then show ?thesis unfolding ff None option.case using skip past by blast
    next
      case (Some s)
      then have s: "?c \<le> s" "fits_at len last_usable spans s"
        "\<forall>t. ?c \<le> t \<longrightarrow> fits_at len last_usable spans t \<longrightarrow> s \<le> t" using IH by auto
      then show ?thesis
        unfolding ff Some option.case using skip past order_trans [OF cc] by blast
    qed
  qed
qed

section \<open>The ranges already taken\<close>

lemma traverse_snd: "traverse (\<lambda>(j, p). f p) xs = traverse f (map snd xs)"
  by (induction xs) (auto simp: case_prod_beta)

lemma enumerate_skip:
  "map snd (filter (\<lambda>(j, p). Some j \<noteq> Some i) (enumerate n ps)) = (if n \<le> i then remove_at (i - n) ps else ps)"
proof (induction ps arbitrary: n)
  case (Cons p ps)
  consider "i = n" | "i < n" | "n < i" by linarith
  then show ?case
  proof cases
    case 3
    then have "i - n = Suc (i - Suc n)" by simp
    then show ?thesis using Cons 3 by (simp add: remove_at_def)
  qed (use Cons in \<open>simp_all add: remove_at_def\<close>)
qed (simp add: remove_at_def)

definition reserved_spans :: "partition_set \<Rightarrow> (u64 \<times> u64) list" where
  "reserved_spans s = (if set_kind s = TkMbr then List.map_filter reserved_span (reserved s) else [])"

definition others :: "partition_set \<Rightarrow> nat option \<Rightarrow> partition list" where
  "others s skip = (case skip of None \<Rightarrow> partitions s | Some i \<Rightarrow> remove_at i (partitions s))"

lemma occupied_spans_Ok:
  "occupied_spans s skip = Ok spans \<longleftrightarrow>
     (\<forall>p \<in> set (others s skip). \<exists>x. sector_span p = Ok x) \<and> spans = map span_of (others s skip) @ reserved_spans s"
proof -
  have o: "map snd (filter (\<lambda>(j, p). Some j \<noteq> skip) (enumerate 0 (partitions s))) = others s skip"
    using enumerate_skip [of _ 0 "partitions s"]
    by (cases skip) (auto simp: others_def filter_True case_prod_beta)
  have t: "traverse sector_span ps = Ok ys \<longleftrightarrow> (\<forall>p \<in> set ps. \<exists>x. sector_span p = Ok x) \<and> ys = map span_of ps" for ps ys
    by (induction ps arbitrary: ys) (auto simp: span_of_def)
  show ?thesis
    unfolding occupied_spans_def traverse_snd o reserved_spans_def using t by auto
qed

lemma clashes_iff: "clashes a b spans \<longleftrightarrow> (\<exists>x \<in> set spans. overlapping (a, b) x)"
  by (simp add: clashes_def list_ex_iff overlapping_def case_prod_beta)

lemma reserved_span_bound: "reserved_span r = Some (a, b) \<Longrightarrow> a \<le> b \<and> unat b < 2 ^ 55"
proof -
  assume r: "reserved_span r = Some (a, b)"
  let ?s = "ucast (le32 (r_bytes r) 8) :: u64" and ?n = "ucast (le32 (r_bytes r) 12) :: u64"
  have "b = ?s + ?n - 1" "?n \<noteq> 0" using r by (auto simp: reserved_span_def Let_def split: if_splits)
  moreover have "unat ?s < 2 ^ 32" "unat ?n < 2 ^ 32"
    using unat_lt [of "le32 (r_bytes r) 8"] unat_lt [of "le32 (r_bytes r) 12"] by (simp_all add: unat_ucast)
  moreover from this have "unat (?s + ?n) = unat ?s + unat ?n" by (simp add: unat_plus_if')
  ultimately have "unat b < 2 ^ 55" by (simp add: unat_sub_if' word_unat_eq_iff split: if_splits)
  then show ?thesis using reserved_span_ordered [OF r] by simp
qed

lemma occupied_bounds:
  assumes "occupied_spans s skip = Ok spans"
  shows "\<forall>(a, b) \<in> set spans. a \<le> b \<and> unat b < 2 ^ 55"
proof -
  have "a \<le> b \<and> unat b < 2 ^ 55" if "(a, b) \<in> set spans" for a b
  proof -
    from that assms consider p where "p \<in> set (others s skip)" "sector_span p = Ok (a, b)"
      | r where "reserved_span r = Some (a, b)"
      by (fastforce simp: occupied_spans_Ok reserved_spans_def set_map_filter span_of_def split: if_splits)
    then show ?thesis
      using sector_span_ordered sector_span_bound reserved_span_bound by cases blast+
  qed
  then show ?thesis by blast
qed

text \<open>
  C9: The search for free space is first fit, and complete. When \<open>find_free\<close>
  answers, the start lies on a 1 MiB boundary no earlier than the aligned first
  usable sector, the whole range ends by the last usable sector and shares no
  sector with a partition or a reserved range, and no earlier aligned start would
  do; it fails for want of space only when no aligned start would do at all.
\<close>

theorem find_free_first_fit:
  assumes "occupied_spans s None = Ok spans" and "0 < unat len" and "unat len < 2 ^ 60" and "unat f < 2 ^ 59"
  shows "case find_free s len f l of
      Inr start \<Rightarrow> align_up f 2048 \<le> start \<and> fits_at len l spans start \<and>
        (\<forall>t. align_up f 2048 \<le> t \<longrightarrow> fits_at len l spans t \<longrightarrow> start \<le> t)
    | Inl _ \<Rightarrow> \<forall>t. align_up f 2048 \<le> t \<longrightarrow> \<not> fits_at len l spans t"
proof -
  have al: "unat (align_up f 2048) = (unat f + 2047) div 2048 * 2048" using assms(4) by (simp add: unat_align_up)
  have c: "unat (align_up f 2048) < 2 ^ 60" "unat (align_up f 2048) mod 2048 = 0"
    unfolding al using round_up_2048(2) [of "unat f"] assms(4) by simp_all
  have "\<forall>(a, b) \<in> set (sort spans). a \<le> b \<and> unat b < 2 ^ 55" using occupied_bounds [OF assms(1)] by simp
  from first_fit_spec [OF assms(2,3) c sorted_sort this, of l]
  show ?thesis
    using assms(1) by (simp add: find_free_def ok_or_def fits_at_def split: option.splits)
qed

theorem find_free_first_fit_witness:
  "find_free (empty_mbr 10485760) 2048 1 20479 = Ok 2048 \<and>
   fits_at 2048 20479 [] 2048"
proof -
  have o: "occupied_spans (empty_mbr 10485760) None = Ok []" by code_simp
  have f: "find_free (empty_mbr 10485760) 2048 1 20479 = Ok 2048" by code_simp
  show ?thesis using find_free_first_fit [OF o, of 2048 1 20479] f by simp
qed

section \<open>The invariant of a set\<close>

text \<open>
  What the edits keep: every partition has a legal range and type for its table,
  no two occupied ranges meet, and the slots can be assigned.
\<close>

definition set_ok :: "partition_set \<Rightarrow> bool" where
  "set_ok s \<longleftrightarrow>
     disjoint_spans (map span_of (partitions s) @ reserved_spans s) \<and>
     (case set_kind s of
        TkGpt \<Rightarrow> length (partitions s) \<le> unat (num_entries (gpt_geometry s)) \<and>
          slots_available (partitions s) (num_entries (gpt_geometry s)) [] \<and>
          (\<exists>u. usable_range (gpt_geometry s) (disk_size s div 512) = Ok u \<and>
             (\<forall>p \<in> set (partitions s). gpt_valid u p \<and> p_uuid p \<noteq> None \<and> bytes16 p))
      | TkMbr \<Rightarrow> length (partitions s) + length (reserved s) \<le> 4 \<and> 512 \<le> unat (disk_size s) \<and>
          slots_available (partitions s) 4 (map r_slot (reserved s)) \<and>
          (\<forall>p \<in> set (partitions s). mbr_valid (disk_size s) p))"

text \<open>The writer's plan for the set, on a writable device of the set's size.\<close>

definition set_plan_ok :: "partition_set \<Rightarrow> bool" where
  "set_plan_ok s \<longleftrightarrow> (case set_kind s of
     TkGpt \<Rightarrow> \<exists>pl. plan_gpt True (disk_size s) (partitions s) (gpt_geometry s) (gpt_entry_tails s) = Ok pl
   | TkMbr \<Rightarrow> \<exists>slots. plan_mbr True (disk_size s) (partitions s) (reserved s) = Ok slots)"

lemma set_ok_plan:
  assumes "\<forall>p \<in> set (partitions s). bytes16 p"
  shows "set_ok s \<longleftrightarrow> set_plan_ok s"
proof (cases "set_kind s")
  case TkGpt
  then show ?thesis
    using plan_gpt_iff [OF assms, of True "disk_size s" "gpt_geometry s" "gpt_entry_tails s"] assms
    by (auto simp: set_ok_def set_plan_ok_def reserved_spans_def)
next
  case TkMbr
  then show ?thesis
    using mbr_plan_iff [of True "disk_size s" "partitions s" "reserved s"]
    by (auto simp: set_ok_def set_plan_ok_def reserved_spans_def)
qed

lemma usable_gpt:
  assumes "set_kind s = TkGpt" and "set_usable_range s = (f, l)" and "f \<le> l"
  shows "usable_range (gpt_geometry s) (disk_size s div 512) = Ok (f, l)"
  using assms
  by (auto simp: set_usable_range_def Let_def FIRST_USABLE_LBA_def ENTRY_ARRAY_SECTORS_def split: sum.splits)

lemma usable_bounds:
  assumes "set_usable_range s = (f, l)" and "f \<le> l"
  shows "1 \<le> unat f" and "unat l < unat (disk_size s) div 512" and "unat f \<le> unat l"
    and "set_kind s = TkMbr \<Longrightarrow> unat l < 2 ^ 32"
proof -
  have ts: "unat (disk_size s div 512) = unat (disk_size s) div 512" by (simp add: unat_div_distrib)
  show "unat f \<le> unat l" using assms(2) by (simp add: word_le_nat_alt)
  have "1 \<le> unat f \<and> unat l < unat (disk_size s) div 512 \<and> (set_kind s = TkMbr \<longrightarrow> unat l < 2 ^ 32)"
  proof (cases "set_kind s")
    case TkGpt
    show ?thesis
      using usable_range_Ok(2) [OF usable_gpt [OF TkGpt assms]] TkGpt ts
      by (auto simp: regions_fit_def Let_def)
  next
    case TkMbr
    then have f: "f = 1" and l: "l = min (disk_size s div 512 - 1) 0xFFFFFFFF" and big: "\<not> disk_size s div 512 < 2"
      using assms by (auto simp: set_usable_range_def Let_def split: if_splits)
    have "unat (disk_size s div 512 - 1) = unat (disk_size s) div 512 - 1"
      using big ts by (subst unat_sub) (auto simp: word_less_nat_alt word_le_nat_alt)
    then have "unat l = min (unat (disk_size s) div 512 - 1) 0xFFFFFFFF"
      unfolding l by (auto simp: min_def word_le_nat_alt)
    then show ?thesis using f big ts by (auto simp: word_less_nat_alt)
  qed
  then show "1 \<le> unat f" "unat l < unat (disk_size s) div 512" "set_kind s = TkMbr \<Longrightarrow> unat l < 2 ^ 32"
    by auto
qed

text \<open>A partition given by its first sector and its number of sectors.\<close>

lemma sectors_span:
  assumes "p_start p = S * 512" and "p_length p = L * 512" and "0 < unat L" and "unat S + unat L < 2 ^ 55"
  shows "sector_span p = Ok (S, S + L - 1)" and "unat (p_start p) = 512 * unat S"
    and "unat (p_length p) = 512 * unat L" and "unat (S + L - 1) = unat S + unat L - 1"
proof -
  show s: "unat (p_start p) = 512 * unat S" and l: "unat (p_length p) = 512 * unat L"
    unfolding assms(1,2) using assms(4) by (auto intro: unat_times_512)
  have "unat (S + L) = unat S + unat L" using assms(4) by (simp add: unat_plus_if')
  then show e: "unat (S + L - 1) = unat S + unat L - 1"
    using assms(3) by (subst unat_sub) (auto simp: word_le_nat_alt)
  have "(512 * unat S + 512 * unat L - 1) div 512 = unat S + unat L - 1"
    using assms(3) by (intro div_nat_eqI) auto
  then show "sector_span p = Ok (S, S + L - 1)"
    unfolding sector_span_eq_Ok s l e using assms(3,4) by simp
qed

lemma rounded_length:
  assumes "len \<noteq> (0 :: u64)"
  shows "0 < unat (align_up (div_ceil len 512) 2048)" and "unat (align_up (div_ceil len 512) 2048) \<le> 2 ^ 55 + 2048"
    and "unat len \<le> 512 * unat (align_up (div_ceil len 512) 2048)"
proof -
  let ?n = "(unat len + 511) div 512"
  have c: "unat (div_ceil len 512) = ?n" by (simp add: unat_div_ceil)
  have n: "?n \<le> 2 ^ 55" "unat len \<le> 512 * ?n" "0 < ?n"
    using unat_lt [of len] assms unat_gt_0 [of len] by auto
  have u: "unat (align_up (div_ceil len 512) 2048) = (?n + 2047) div 2048 * 2048"
    using unat_align_up [of "div_ceil len 512"] c n by simp
  show "0 < unat (align_up (div_ceil len 512) 2048)" "unat (align_up (div_ceil len 512) 2048) \<le> 2 ^ 55 + 2048"
    "unat len \<le> 512 * unat (align_up (div_ceil len 512) 2048)"
    unfolding u using round_up_2048(1,2) [of ?n] n by linarith+
qed

section \<open>Adding a partition\<close>


lemma hint_start:
  assumes "unat f < 2 ^ 55"
  shows "unat f \<le> unat (align_up (max (div_ceil byte 512) f) 2048)"
proof -
  have "unat (div_ceil byte 512) \<le> 2 ^ 55"
    using unat_lt [of byte] by (simp add: unat_div_ceil)
  then have "unat (max (div_ceil byte 512) f) \<le> 2 ^ 55" using assms by (simp add: max_def)
  then have "unat (align_up (max (div_ceil byte 512) f) 2048)
      = (unat (max (div_ceil byte 512) f) + 2047) div 2048 * 2048"
    by (intro unat_align_up) simp
  then have "unat (max (div_ceil byte 512) f) \<le> unat (align_up (max (div_ceil byte 512) f) 2048)"
    using round_up_2048(1) by simp
  then show ?thesis by (auto simp: max_def word_le_nat_alt split: if_splits)
qed

lemma find_free_lower:
  assumes "occupied_spans s None = Ok spans" and "0 < unat len" and "unat len < 2 ^ 60" and "unat f < 2 ^ 59"
    and "find_free s len f l = Ok start"
  shows "align_up f 2048 \<le> start"
proof -
  have al: "unat (align_up f 2048) = (unat f + 2047) div 2048 * 2048" using assms(4) by (simp add: unat_align_up)
  have c: "unat (align_up f 2048) < 2 ^ 60" "unat (align_up f 2048) mod 2048 = 0"
    unfolding al using round_up_2048(2) [of "unat f"] assms(4) by simp_all
  have "\<forall>(a, b) \<in> set (sort spans). a \<le> b \<and> unat b < 2 ^ 55" using occupied_bounds [OF assms(1)] by simp
  from first_fit_spec [OF assms(2,3) c sorted_sort this, of l]
  show ?thesis using assms(1,5) by (simp add: find_free_def)
qed

lemma place_new_Ok:
  assumes "place_new s hint len = Ok (S, L)"
  obtains f l where "set_usable_range s = (f, l)" and "f \<le> l" and "unat f \<le> unat S"
    and "unat S + unat L - 1 \<le> unat l" and "L = align_up (div_ceil len 512) 2048" and "len \<noteq> 0"
    and "\<not> clashes S (S + L - 1) (map span_of (partitions s) @ reserved_spans s)"
    and "\<forall>p \<in> set (partitions s). \<exists>x. sector_span p = Ok x"
    and "set_kind s = TkMbr \<Longrightarrow> length (partitions s) + length (reserved s) < 4 \<and> S \<le> 0xFFFFFFFF \<and> L \<le> 0xFFFFFFFF"
    and "set_kind s = TkGpt \<Longrightarrow> length (partitions s) < unat (num_entries (gpt_geometry s))"
proof -
  obtain f l where u: "set_usable_range s = (f, l)" by (cases "set_usable_range s")
  obtain e spans where len: "len \<noteq> 0" and fl: "\<not> f > l"
    and full: "\<not> (set_kind s = TkMbr \<and> length (partitions s) + length (reserved s) \<ge> 4)"
      "\<not> (set_kind s = TkGpt \<and> length (partitions s) \<ge> unat (num_entries (gpt_geometry s)))"
    and L: "L = align_up (div_ceil len 512) 2048"
    and start: "(case hint of Some byte \<Rightarrow> Ok (align_up (max (div_ceil byte 512) f) 2048)
       | None \<Rightarrow> find_free s L f l) = Ok S"
    and e: "checked_add S (L - 1) = Some e" "\<not> e > l"
    and m: "\<not> (set_kind s = TkMbr \<and> (S > 0xFFFFFFFF \<or> L > 0xFFFFFFFF))"
    and o: "occupied_spans s None = Ok spans" "\<not> clashes S e spans"
    using assms [unfolded place_new_def SECTOR_SIZE_def ALIGNMENT_SECTORS_def] u
    by (auto simp: Let_def split: if_splits)
  note rl = rounded_length [OF len, folded L]
  have fl': "f \<le> l" using fl by simp
  have f55: "unat f < 2 ^ 55"
    using usable_bounds(2,3) [OF u fl'] unat_lt [of "disk_size s"] by simp
  have fS: "unat f \<le> unat S"
  proof (cases hint)
    case (Some byte)
    then show ?thesis using start hint_start [OF f55, of byte] by simp
  next
    case None
    have "align_up f 2048 \<le> S"
      using find_free_lower [OF o(1)] None start rl f55 by simp
    moreover have "unat f \<le> unat (align_up f 2048)"
      using unat_align_up [of f] f55 round_up_2048(1) [of "unat f"] by simp
    ultimately show ?thesis by (simp add: word_le_nat_alt)
  qed
  have L1: "unat (L - 1) = unat L - 1" using rl(1) by (subst unat_sub) (auto simp: word_le_nat_alt)
  then have ue: "unat e = unat S + unat L - 1" using e(1) rl(1) by (simp add: checked_add_eq_Some)
  have "S + (L - 1) = e" using e(1) by (simp add: checked_add_def split: if_splits)
  then have ee: "e = S + L - 1" by (simp only: add_diff_eq)
  show ?thesis
  proof (rule that [OF u fl' fS _ L len])
    show "unat S + unat L - 1 \<le> unat l" using e(2) ue by (simp add: word_less_nat_alt)
    show "\<not> clashes S (S + L - 1) (map span_of (partitions s) @ reserved_spans s)"
      "\<forall>p \<in> set (partitions s). \<exists>x. sector_span p = Ok x"
      using o ee by (auto simp: occupied_spans_Ok others_def)
  qed (use full m in auto)
qed

lemma disjoint_spans_snoc:
  "disjoint_spans (xs @ [x] @ ys) \<longleftrightarrow> disjoint_spans (xs @ ys) \<and> (\<forall>y \<in> set (xs @ ys). \<not> overlapping x y)"
proof -
  have "disjoint_spans (xs @ [x] @ ys) \<longleftrightarrow> disjoint_spans (x # xs @ ys)"
    by (rule disjoint_spans_mset) simp
  then show ?thesis by (auto simp: disjoint_spans_def)
qed

lemma slots_available_snoc:
  "slots_available ps n pre \<Longrightarrow> p_slot p = None \<Longrightarrow> length pre + length ps < unat n \<Longrightarrow>
     slots_available (ps @ [p]) n pre"
  by (simp add: slots_available_def List.map_filter_simps map_filter_append)

lemma length_random_uuid:
  "\<forall>b. urandom e = Some b \<longrightarrow> length b = 16 \<Longrightarrow> length (random_uuid e) = 16"
  by (auto simp: random_uuid_def fill_from_urandom_def fill_from_prng_def Let_def split: option.splits)

text \<open>A type the writer can write: any but the all-zero GUID of an unused entry.\<close>

definition writable_type :: "table_kind \<Rightarrow> partition_type_id \<Rightarrow> bool" where
  "writable_type table t \<longleftrightarrow> (case t of
     GptCustom g \<Rightarrow> table = TkMbr \<or> (length g = 16 \<and> g \<noteq> UNUSED) | _ \<Rightarrow> True)"

lemma not_unused: "g ! 2 \<noteq> 0 \<Longrightarrow> g \<noteq> UNUSED"
  by (auto simp: UNUSED_def)

lemma kind_for_gpt:
  assumes "kind_for TkGpt t = Ok k" and "writable_type TkGpt t"
  shows "\<exists>g. k = Gpt g 0 \<and> length g = 16 \<and> g \<noteq> UNUSED"
  using assms
  by (cases t) (auto simp: kind_for_def writable_type_def EFI_SYSTEM_def MICROSOFT_BASIC_DATA_def
      LINUX_FILESYSTEM_def LINUX_SWAP_def APPLE_HFS_PLUS_def APPLE_APFS_def intro!: not_unused)

lemma added_gpt_valid:
  assumes "p_start p = S * 512" and "p_length p = L * 512" and "0 < unat L" and "unat S + unat L < 2 ^ 55"
    and "p_kind p = Gpt g a" and "g \<noteq> UNUSED" and "unat f \<le> unat S" and "unat S + unat L - 1 \<le> unat l"
  shows "gpt_valid (f, l) p"
  using sectors_span [OF assms(1-4)] assms(5-8) by (simp add: gpt_valid_def word_le_nat_alt)

lemma added_mbr_valid:
  assumes "p_start p = S * 512" and "p_length p = L * 512" and "0 < unat L" and "unat S + unat L < 2 ^ 55"
    and "p_kind p = Mbr tb a" and "1 \<le> unat S" and "unat S < 2 ^ 32" and "unat L < 2 ^ 32"
    and "unat S + unat L \<le> unat bytes div 512"
  shows "mbr_valid bytes p"
proof -
  note sp = sectors_span [OF assms(1-4)]
  have "512 * unat S + 512 * unat L \<le> unat bytes" using assms(9) by simp
  then show ?thesis
    using sp assms(3,5-8) by (simp add: mbr_valid_def)
qed

text \<open>A partition without its issue bits.\<close>

definition strip :: "partition \<Rightarrow> partition" where
  "strip p = p\<lparr>p_issues := 0\<rparr>"

lemma strip_set_overlap_bit: "map strip (set_overlap_bit x ps) = map strip ps"
proof (cases x)
  case (Pair i o)
  have "map strip (ps[i := q]) = map strip ps" if "strip q = strip (ps ! i)" for q
    using that by (cases "i < length ps") (simp_all add: map_update list_update_same_conv list_update_beyond)
  then show ?thesis unfolding Pair set_overlap_bit_def prod.case by (simp add: strip_def)
qed

lemma strip_refresh: "map strip (partitions (refresh_overlap_issues s)) = map strip (partitions s)"
proof -
  have "map strip (fold set_overlap_bit xs ps) = map strip ps" for xs ps
    by (induction xs arbitrary: ps) (simp_all add: strip_set_overlap_bit)
  then show ?thesis by (simp add: refresh_overlap_issues_def Let_def)
qed

lemma strip_simps [simp]:
  "span_of (strip p) = span_of p" "p_slot (strip p) = p_slot p" "p_uuid (strip p) = p_uuid p"
  "gpt_valid u (strip p) = gpt_valid u p" "mbr_valid n (strip p) = mbr_valid n p" "bytes16 (strip p) = bytes16 p"
  by (simp_all add: strip_def span_of_def sector_span_def gpt_valid_def mbr_valid_def bytes16_def)

text \<open>The invariant again, as a condition on the list of partitions of a set.\<close>

definition valid_in :: "partition_set \<Rightarrow> partition \<Rightarrow> bool" where
  "valid_in s p \<longleftrightarrow> (case set_kind s of
     TkGpt \<Rightarrow> (\<exists>u. usable_range (gpt_geometry s) (disk_size s div 512) = Ok u \<and>
                gpt_valid u p \<and> p_uuid p \<noteq> None \<and> bytes16 p)
   | TkMbr \<Rightarrow> mbr_valid (disk_size s) p)"

definition table_room :: "partition_set \<Rightarrow> partition list \<Rightarrow> bool" where
  "table_room s ps \<longleftrightarrow> (case set_kind s of
     TkGpt \<Rightarrow> length ps \<le> unat (num_entries (gpt_geometry s)) \<and>
       slots_available ps (num_entries (gpt_geometry s)) [] \<and>
       (\<exists>u. usable_range (gpt_geometry s) (disk_size s div 512) = Ok u)
   | TkMbr \<Rightarrow> length ps + length (reserved s) \<le> 4 \<and> 512 \<le> unat (disk_size s) \<and>
       slots_available ps 4 (map r_slot (reserved s)))"

lemma set_ok_parts:
  "set_ok (s\<lparr>partitions := ps\<rparr>) \<longleftrightarrow>
     disjoint_spans (map span_of ps @ reserved_spans s) \<and> table_room s ps \<and> (\<forall>p \<in> set ps. valid_in s p)"
  by (cases "set_kind s") (auto simp: set_ok_def table_room_def valid_in_def reserved_spans_def)

lemma table_room_slots:
  assumes "map p_slot ps = map p_slot qs"
  shows "table_room s ps = table_room s qs"
proof -
  have "recorded ps = recorded qs" using assms by (simp add: recorded_eq)
  moreover have "length ps = length qs" using assms by (rule map_eq_imp_length_eq)
  ultimately show ?thesis by (simp add: table_room_def slots_available_def split: table_kind.split)
qed

lemma valid_in_strip [simp]: "valid_in s (strip p) = valid_in s p"
  by (simp add: valid_in_def split: table_kind.split)

lemma set_ok_strip: "set_ok (s\<lparr>partitions := map strip ps\<rparr>) = set_ok (s\<lparr>partitions := ps\<rparr>)"
proof -
  have "map span_of (map strip ps) = map span_of ps" by simp
  moreover have "table_room s (map strip ps) = table_room s ps" by (rule table_room_slots) simp
  ultimately show ?thesis by (simp only: set_ok_parts set_map ball_simps valid_in_strip)
qed

text \<open>The invariant does not read the issue bits, which are all a refresh changes.\<close>

lemma refresh_frame: "refresh_overlap_issues s = s\<lparr>partitions := partitions (refresh_overlap_issues s)\<rparr>"
  by (simp add: refresh_overlap_issues_def Let_def)

lemma set_ok_refresh: "set_ok (refresh_overlap_issues s) = set_ok s"
  by (subst refresh_frame, subst set_ok_strip [symmetric], subst strip_refresh, subst set_ok_strip) simp

lemma set_ok_drop:
  assumes "set_ok (s\<lparr>partitions := xs @ [p] @ ys\<rparr>)"
  shows "set_ok (s\<lparr>partitions := xs @ ys\<rparr>)"
proof -
  have "disjoint_spans (map span_of (xs @ ys) @ reserved_spans s)"
    using assms disjoint_spans_snoc [of "map span_of xs" "span_of p" "map span_of ys @ reserved_spans s"]
    by (simp add: set_ok_parts)
  moreover have "slots_available (xs @ ys) n pre" if "slots_available (xs @ [p] @ ys) n pre" for n pre
    using that by (cases "p_slot p") (auto simp: slots_available_def map_filter_append List.map_filter_simps)
  then have "table_room s (xs @ ys)"
    using assms by (auto simp: set_ok_parts table_room_def split: table_kind.splits)
  ultimately show ?thesis using assms by (simp add: set_ok_parts)
qed

lemma set_ok_replace:
  assumes "set_ok (s\<lparr>partitions := xs @ [p] @ ys\<rparr>)" and "valid_in s q" and "p_slot q = p_slot p"
    and "\<forall>y \<in> set (map span_of (xs @ ys) @ reserved_spans s). \<not> overlapping (span_of q) y"
  shows "set_ok (s\<lparr>partitions := xs @ [q] @ ys\<rparr>)"
proof -
  have "disjoint_spans (map span_of (xs @ [q] @ ys) @ reserved_spans s)"
    using assms disjoint_spans_snoc [of "map span_of xs" _ "map span_of ys @ reserved_spans s"]
    by (simp add: set_ok_parts)
  moreover have "table_room s (xs @ [q] @ ys) = table_room s (xs @ [p] @ ys)"
    using assms(3) by (intro table_room_slots) simp
  ultimately show ?thesis using assms(1,2) by (auto simp: set_ok_parts)
qed

lemma valid_in_sectors:
  assumes "set_usable_range s = (f, l)" and "f \<le> l"
    and "p_start p = S * 512" and "p_length p = L * 512" and "0 < unat L"
    and "unat f \<le> unat S" and "unat S + unat L - 1 \<le> unat l"
    and "set_kind s = TkMbr \<Longrightarrow> unat L < 2 ^ 32 \<and> (\<exists>tb a. p_kind p = Mbr tb a)"
    and "set_kind s = TkGpt \<Longrightarrow> (\<exists>g a. p_kind p = Gpt g a \<and> g \<noteq> UNUSED) \<and> p_uuid p \<noteq> None \<and> bytes16 p"
  shows "valid_in s p" and "sector_span p = Ok (S, S + L - 1)"
proof -
  note ub = usable_bounds [OF assms(1,2)]
  have fit: "unat S + unat L \<le> unat (disk_size s) div 512" using assms(5,7) ub(2) by linarith
  then have b55: "unat S + unat L < 2 ^ 55" using unat_lt [of "disk_size s"] by simp
  show "sector_span p = Ok (S, S + L - 1)" by (rule sectors_span(1) [OF assms(3-5) b55])
  show "valid_in s p"
  proof (cases "set_kind s")
    case TkGpt
    then show ?thesis
      using usable_gpt [OF TkGpt assms(1,2)] added_gpt_valid [OF assms(3-5) b55 _ _ assms(6,7)] assms(9)
      by (auto simp: valid_in_def)
  next
    case TkMbr
    then have "mbr_valid (disk_size s) p"
      using added_mbr_valid [OF assms(3-5) b55 _ _ _ _ fit] assms(5-8) ub(1) ub(4) by auto
    then show ?thesis by (simp add: valid_in_def TkMbr)
  qed
qed


text \<open>The partition \<open>add\<close> builds, and the set with it at the end.\<close>

lemma set_ok_snoc:
  assumes "set_ok s" and "valid_in s p" and "p_slot p = None"
    and "\<forall>y \<in> set (map span_of (partitions s) @ reserved_spans s). \<not> overlapping (span_of p) y"
    and "set_kind s = TkMbr \<Longrightarrow> length (partitions s) + length (reserved s) < 4"
    and "set_kind s = TkGpt \<Longrightarrow> length (partitions s) < unat (num_entries (gpt_geometry s))"
  shows "set_ok (s\<lparr>partitions := partitions s @ [p]\<rparr>)"
proof -
  have ok: "set_ok (s\<lparr>partitions := partitions s\<rparr>)" using assms(1) by simp
  have "disjoint_spans (map span_of (partitions s @ [p]) @ reserved_spans s)"
    using ok assms(4) disjoint_spans_snoc [of "map span_of (partitions s)" "span_of p" "reserved_spans s"]
    unfolding set_ok_parts by simp
  moreover have "table_room s (partitions s @ [p])"
    using ok assms(3,5,6) unfolding set_ok_parts table_room_def
    by (auto split: table_kind.splits intro: slots_available_snoc)
  ultimately show ?thesis using ok assms(2) unfolding set_ok_parts by simp
qed

definition new_partition ::
    "entropy \<Rightarrow> partition_set \<Rightarrow> u64 \<Rightarrow> u64 \<Rightarrow> partition_kind \<Rightarrow> ustring option \<Rightarrow> partition" where
  "new_partition e s S L k label =
     \<lparr>p_start = S * 512, p_length = L * 512, p_kind = k, p_label = label,
      p_uuid = (if set_kind s = TkGpt then Some (random_uuid e) else None),
      p_slot = None, p_issues = 0, p_available_length = L * 512\<rparr>"

lemma new_partition_simps [simp]:
  "p_start (new_partition e s S L k label) = S * 512" "p_length (new_partition e s S L k label) = L * 512"
  "p_kind (new_partition e s S L k label) = k" "p_label (new_partition e s S L k label) = label"
  "p_uuid (new_partition e s S L k label) = (if set_kind s = TkGpt then Some (random_uuid e) else None)"
  "p_slot (new_partition e s S L k label) = None"
  by (simp_all add: new_partition_def)

lemma add_partition_Ok:
  assumes "add_partition e s hint len t label = (Ok i, s')"
  obtains S L k where "place_new s hint len = Ok (S, L)" and "kind_for (set_kind s) t = Ok k"
    and "i = length (partitions s)" and "s' = s\<lparr>partitions := partitions s @ [new_partition e s S L k label]\<rparr>"
  using assms by (auto simp: add_partition_def new_partition_def split: sum.splits)

lemma kind_for_Ok:
  assumes "kind_for table t = Ok k" and "writable_type table t"
  shows "table = TkMbr \<Longrightarrow> \<exists>tb a. k = Mbr tb a"
    and "table = TkGpt \<Longrightarrow> \<exists>g a. k = Gpt g a \<and> length g = 16 \<and> g \<noteq> UNUSED"
  using assms kind_for_gpt [of t k] by (auto simp: kind_for_def split: table_kind.splits)

lemma add_partition_ok:
  assumes ok: "set_ok s" and t: "writable_type (set_kind s) t"
    and ent: "\<forall>b. urandom e = Some b \<longrightarrow> length b = 16"
    and add: "add_partition e s hint len t label = (Ok i, s')"
  shows "set_ok s'"
    and "\<exists>p. partitions s' = partitions s @ [p] \<and> i = length (partitions s) \<and>
           unat len \<le> unat (p_length p) \<and> p_label p = label"
proof -
  obtain S L k where pn: "place_new s hint len = Ok (S, L)" and k: "kind_for (set_kind s) t = Ok k"
    and i: "i = length (partitions s)" and s': "s' = s\<lparr>partitions := partitions s @ [new_partition e s S L k label]\<rparr>"
    using add_partition_Ok [OF add] .
  let ?p = "new_partition e s S L k label"
  obtain f l where u: "set_usable_range s = (f, l)" "f \<le> l" and pos: "unat f \<le> unat S" "unat S + unat L - 1 \<le> unat l"
    and L: "L = align_up (div_ceil len 512) 2048" "len \<noteq> 0"
    and nc: "\<not> clashes S (S + L - 1) (map span_of (partitions s) @ reserved_spans s)"
    and mbr: "set_kind s = TkMbr \<Longrightarrow> length (partitions s) + length (reserved s) < 4 \<and> S \<le> 0xFFFFFFFF \<and> L \<le> 0xFFFFFFFF"
    and gpt: "set_kind s = TkGpt \<Longrightarrow> length (partitions s) < unat (num_entries (gpt_geometry s))"
    using place_new_Ok [OF pn] by blast
  note rl = rounded_length [OF L(2), folded L(1)]
  have v: "valid_in s ?p" "sector_span ?p = Ok (S, S + L - 1)"
    using kind_for_Ok [OF k t] length_random_uuid [OF ent] mbr
    by (auto intro!: valid_in_sectors [OF u _ _ rl(1) pos] simp: bytes16_def word_le_nat_alt)
  show "set_ok s'"
    unfolding s' using nc mbr gpt v
    by (intro set_ok_snoc [OF ok]) (auto simp: clashes_iff span_of_eq)
  have "unat L * 512 < 2 ^ 64"
    using pos(2) usable_bounds(2) [OF u] unat_lt [of "disk_size s"] by simp
  then have "unat (p_length ?p) = 512 * unat L" by (simp add: unat_times_512)
  then show "\<exists>p. partitions s' = partitions s @ [p] \<and> i = length (partitions s) \<and>
      unat len \<le> unat (p_length p) \<and> p_label p = label"
    using rl(3) i by (simp add: s')
qed

section \<open>Removing and resizing\<close>

text \<open>The partition a reference names: the one at its index, or the first that has its UUID.\<close>

definition named_by :: "partition_set \<Rightarrow> partition_ref \<Rightarrow> nat \<Rightarrow> bool" where
  "named_by s target i \<longleftrightarrow> i < length (partitions s) \<and>
     (case target of Index j \<Rightarrow> j = i
      | Uuid u \<Rightarrow> p_uuid (partitions s ! i) = Some u \<and> (\<forall>j < i. p_uuid (partitions s ! j) \<noteq> Some u))"

lemma resolve_iff: "resolve s target = Ok i \<longleftrightarrow> named_by s target i"
proof (cases target)
  case (Uuid u)
  have "resolve s target = Ok i \<longleftrightarrow> (\<exists>p. List.find (\<lambda>(i, p). p_uuid p = Some u) (enumerate 0 (partitions s)) = Some (i, p))"
    unfolding resolve_def Uuid by (auto simp: ok_or_def split: option.splits)
  also have "\<dots> \<longleftrightarrow> named_by s target i"
    unfolding named_by_def Uuid
    by (auto simp: find_Some_iff nth_enumerate_eq intro!: exI [of _ "partitions s ! i"] exI [of _ i])
  finally show ?thesis .
qed (auto simp: resolve_def named_by_def)

lemma resolve_Ok: "resolve s target = Ok i \<Longrightarrow> i < length (partitions s)"
  by (simp add: resolve_iff named_by_def)

lemma split_at: "i < length xs \<Longrightarrow> take i xs @ [xs ! i] @ drop (Suc i) xs = xs"
  by (simp add: id_take_nth_drop [symmetric])

lemma remove_partition_ok:
  assumes "set_ok s" and "remove_partition s target = (Ok (), s')"
  shows "set_ok s'"
proof -
  obtain i where i: "resolve s target = Ok i"
    and s': "s' = refresh_overlap_issues (s\<lparr>partitions := remove_at i (partitions s)\<rparr>)"
    using assms(2) by (auto simp: remove_partition_def split: sum.splits)
  have "set_ok (s\<lparr>partitions := take i (partitions s) @ [partitions s ! i] @ drop (Suc i) (partitions s)\<rparr>)"
    unfolding split_at [OF resolve_Ok [OF i]] using assms(1) by simp
  from set_ok_drop [OF this] show ?thesis by (simp add: s' set_ok_refresh remove_at_def)
qed

text \<open>A valid partition starts on the sector its span says, at or after the first usable one.\<close>

lemma valid_in_start:
  assumes "valid_in s p" and "set_usable_range s = (f, l)" and "f \<le> l"
  shows "p_start p = (p_start p div 512) * 512" and "unat f \<le> unat (p_start p div 512)"
    and "set_kind s = TkMbr \<Longrightarrow> \<exists>tb a. p_kind p = Mbr tb a"
    and "set_kind s = TkGpt \<Longrightarrow> (\<exists>g a. p_kind p = Gpt g a \<and> g \<noteq> UNUSED) \<and> p_uuid p \<noteq> None \<and> bytes16 p"
proof -
  have d: "unat (p_start p div 512) = unat (p_start p) div 512" by (simp add: unat_div_distrib)
  have "unat (p_start p) mod 512 = 0 \<and> unat f \<le> unat (p_start p) div 512"
  proof (cases "set_kind s")
    case TkGpt
    then show ?thesis
      using assms(1) usable_gpt [OF TkGpt assms(2,3)]
      by (auto simp: valid_in_def gpt_valid_def sector_span_eq_Ok word_le_nat_alt)
  next
    case TkMbr
    then show ?thesis
      using assms by (auto simp: valid_in_def mbr_valid_def set_usable_range_def Let_def split: if_splits)
  qed
  then show "p_start p = (p_start p div 512) * 512" "unat f \<le> unat (p_start p div 512)"
    using unat_lt [of "p_start p"] unat_times_512 [of "p_start p div 512"] d
    by (auto simp: word_unat_eq_iff)
  show "set_kind s = TkMbr \<Longrightarrow> \<exists>tb a. p_kind p = Mbr tb a"
    and "set_kind s = TkGpt \<Longrightarrow> (\<exists>g a. p_kind p = Gpt g a \<and> g \<noteq> UNUSED) \<and> p_uuid p \<noteq> None \<and> bytes16 p"
    using assms(1) by (auto simp: valid_in_def mbr_valid_def gpt_valid_def)
qed

lemma set_ok_usable:
  assumes "set_ok s" and "p \<in> set (partitions s)" and "set_usable_range s = (f, l)"
  shows "f \<le> l"
proof (cases "set_kind s")
  case TkGpt
  then obtain u where "usable_range (gpt_geometry s) (disk_size s div 512) = Ok u" "gpt_valid u p"
    using assms(1,2) by (auto simp: set_ok_def)
  then show ?thesis
    using TkGpt assms(3) sector_span_ordered by (fastforce simp: set_usable_range_def gpt_valid_def)
next
  case TkMbr
  then have "mbr_valid (disk_size s) p" using assms(1,2) by (auto simp: set_ok_def)
  then have "1024 \<le> unat (disk_size s)" by (auto simp: mbr_valid_def)
  then have "2 \<le> unat (disk_size s div 512)" by (simp add: unat_div_distrib)
  then have "\<not> disk_size s div 512 < 2" "1 \<le> disk_size s div 512 - 1"
    by (auto simp: word_less_nat_alt word_le_nat_alt unat_sub)
  then show ?thesis using TkMbr assms(3) by (auto simp: set_usable_range_def)
qed

lemma plan_resize_Ok:
  assumes "plan_resize s target len = Ok (i, N)" and "set_usable_range s = (f, l)"
  shows "len \<noteq> 0" and "resolve s target = Ok i" and "N = align_up (div_ceil len 512) 2048"
    and "unat (p_start (partitions s ! i) div 512) + unat N - 1 \<le> unat l"
    and "set_kind s = TkMbr \<Longrightarrow> N \<le> 0xFFFFFFFF"
    and "\<not> clashes (p_start (partitions s ! i) div 512) (p_start (partitions s ! i) div 512 + N - 1)
           (map span_of (remove_at i (partitions s)) @ reserved_spans s)"
proof -
  let ?S = "p_start (partitions s ! i) div 512"
  obtain e spans where r: "len \<noteq> 0" "resolve s target = Ok i" "N = align_up (div_ceil len 512) 2048"
    and e: "checked_add ?S (N - 1) = Some e" "\<not> e > l" and m: "\<not> (set_kind s = TkMbr \<and> N > 0xFFFFFFFF)"
    and o: "occupied_spans s (Some i) = Ok spans" "\<not> clashes ?S e spans"
    using assms [unfolded plan_resize_def SECTOR_SIZE_def ALIGNMENT_SECTORS_def]
    by (auto simp: Let_def split: if_splits)
  note rl = rounded_length [OF r(1), folded r(3)]
  show "len \<noteq> 0" "resolve s target = Ok i" "N = align_up (div_ceil len 512) 2048" by fact+
  show "N \<le> 0xFFFFFFFF" if "set_kind s = TkMbr" using m that by simp
  have "unat (N - 1) = unat N - 1" using rl(1) by (subst unat_sub) (auto simp: word_le_nat_alt)
  then have ue: "unat e = unat ?S + unat N - 1" using e(1) rl(1) by (simp add: checked_add_eq_Some)
  then show "unat ?S + unat N - 1 \<le> unat l" using e(2) by (simp add: word_less_nat_alt)
  have "?S + (N - 1) = e" using e(1) by (simp add: checked_add_def split: if_splits)
  then have "e = ?S + N - 1" by (simp only: add_diff_eq)
  then show "\<not> clashes ?S (?S + N - 1) (map span_of (remove_at i (partitions s)) @ reserved_spans s)"
    using o by (auto simp: occupied_spans_Ok others_def)
qed

lemma set_ok_valid: "set_ok s \<Longrightarrow> p \<in> set (partitions s) \<Longrightarrow> valid_in s p"
  by (auto simp: set_ok_def valid_in_def split: table_kind.splits)

lemma resize_partition_ok:
  assumes ok: "set_ok s" and r: "resize_partition s target len = (Ok (), s')"
  shows "set_ok s'"
proof -
  obtain f l where u: "set_usable_range s = (f, l)" by (cases "set_usable_range s")
  obtain i N where pl: "plan_resize s target len = Ok (i, N)"
    and s': "s' = refresh_overlap_issues (s\<lparr>partitions := (partitions s)[i := (partitions s ! i)
       \<lparr>p_length := N * 512, p_issues := p_issues (partitions s ! i) AND NOT PAST_LAST_USABLE\<rparr>]\<rparr>)"
    using r by (auto simp: resize_partition_def Let_def split: sum.splits)
  note P = plan_resize_Ok [OF pl u]
  let ?p = "partitions s ! i" and ?xs = "take i (partitions s)" and ?ys = "drop (Suc i) (partitions s)"
  let ?q = "?p\<lparr>p_length := N * 512, p_issues := p_issues ?p AND NOT PAST_LAST_USABLE\<rparr>"
  note i = resolve_Ok [OF P(2)]
  have fl: "f \<le> l" and v: "valid_in s ?p"
    using set_ok_usable [OF ok nth_mem [OF i] u] set_ok_valid [OF ok nth_mem [OF i]] .
  note st = valid_in_start [OF v u fl] and rl = rounded_length [OF P(1), folded P(3)]
  have q: "valid_in s ?q" "sector_span ?q = Ok (p_start ?p div 512, p_start ?p div 512 + N - 1)"
    using st P(5)
    by (auto intro!: valid_in_sectors [OF u fl _ _ rl(1) st(2) P(4)] simp: bytes16_def word_le_nat_alt)
  have "set_ok (s\<lparr>partitions := ?xs @ [?p] @ ?ys\<rparr>)" unfolding split_at [OF i] using ok by simp
  then have "set_ok (s\<lparr>partitions := ?xs @ [?q] @ ?ys\<rparr>)"
  proof (rule set_ok_replace [OF _ q(1)])
    show "\<forall>y \<in> set (map span_of (?xs @ ?ys) @ reserved_spans s). \<not> overlapping (span_of ?q) y"
      unfolding span_of_eq [OF q(2)] using P(6) by (simp add: clashes_iff remove_at_def)
  qed simp
  then show ?thesis using i by (simp add: s' set_ok_refresh upd_conv_take_nth_drop)
qed


text \<open>
  C6: Adding a partition keeps the table writable. From a set that satisfies the
  invariant (all ranges legal and pairwise disjoint, slots assignable), with a type
  the writer can write, \<open>add\<close> either fails and leaves the set as it was,
  or appends one partition at the returned index, no shorter than asked for and with
  the label asked for, and the invariant still holds.
\<close>

theorem add_keeps_set:
  assumes "set_ok s" and "writable_type (set_kind s) t" and "\<forall>b. urandom e = Some b \<longrightarrow> length b = 16"
  shows "case add_partition e s hint len t label of
      (Inl _, s') \<Rightarrow> s' = s
    | (Inr i, s') \<Rightarrow> set_ok s' \<and> (\<exists>p. partitions s' = partitions s @ [p] \<and> i = length (partitions s) \<and>
        unat len \<le> unat (p_length p) \<and> p_label p = label)"
proof (cases "add_partition e s hint len t label")
  case (Pair r s')
  show ?thesis
  proof (cases r)
    case (Inl err)
    then show ?thesis using Pair by (auto simp: add_partition_def split: sum.splits)
  next
    case (Inr i)
    from add_partition_ok [OF assms Pair [unfolded Inr]] show ?thesis unfolding Pair Inr by simp
  qed
qed

theorem add_keeps_set_witness:
  "case add_partition \<lparr>urandom = None, clock_nanos = None, process_id = 7\<rparr> (empty_mbr 10485760) (Some 0) 1048576
       LinuxFilesystem None of
      (Inl _, s') \<Rightarrow> False
    | (Inr i, s') \<Rightarrow> set_ok s' \<and> i = 0 \<and> map span_of (partitions s') = [(2048, 4095)]"
proof -
  let ?e = "\<lparr>urandom = None, clock_nanos = None, process_id = 7\<rparr> :: entropy"
  have ok: "set_ok (empty_mbr 10485760)"
    by (simp add: set_ok_def empty_mbr_def reserved_spans_def disjoint_spans_def slots_available_def
        List.map_filter_simps)
  have r: "map_prod id (\<lambda>s. map span_of (partitions s)) (add_partition ?e (empty_mbr 10485760) (Some 0) 1048576
      LinuxFilesystem None) = (Ok 0, [(2048, 4095)])"
    by code_simp
  show ?thesis
    using add_keeps_set [OF ok, where t = LinuxFilesystem and e = ?e and hint = "Some 0" and len = 1048576 and label = None] r
    by (auto simp: writable_type_def split: prod.splits sum.splits)
qed

text \<open>
  C8: Removing a partition keeps the table writable: exactly the partition the reference names
  goes, for an index the one there and for a UUID the first that has it; the others keep
  everything but their overlap bits, and the invariant still holds. \<open>remove\<close> fails just when the
  reference names no partition, and then leaves the set as it was.
\<close>

theorem remove_keeps_set:
  assumes "set_ok s"
  shows "case remove_partition s target of
      (Inl _, s') \<Rightarrow> s' = s \<and> (\<nexists>i. named_by s target i)
    | (Inr _, s') \<Rightarrow> set_ok s' \<and> (\<exists>i. named_by s target i \<and>
        map strip (partitions s') = map strip (remove_at i (partitions s)))"
proof (cases "resolve s target")
  case (Inl err)
  then show ?thesis by (auto simp: remove_partition_def resolve_iff [symmetric])
next
  case (Inr i)
  then obtain s' where s': "remove_partition s target = (Ok (), s')"
    "s' = refresh_overlap_issues (s\<lparr>partitions := remove_at i (partitions s)\<rparr>)"
    by (simp add: remove_partition_def)
  then have "map strip (partitions s') = map strip (remove_at i (partitions s))" by (simp add: strip_refresh)
  then show ?thesis using remove_partition_ok [OF assms s'(1)] s'(1) Inr by (auto simp: resolve_iff)
qed

text \<open>
  C7: Resizing a partition keeps the table writable: on success the partition named has
  changed, and of it only the length, now at least what was asked for, and issue
  bits; the new range stays inside the disk and clear of every other partition and
  reserved range, so the invariant still holds. On failure nothing changes.
\<close>

theorem resize_keeps_set:
  assumes "set_ok s"
  shows "case resize_partition s target len of
      (Inl _, s') \<Rightarrow> s' = s
    | (Inr _, s') \<Rightarrow> set_ok s' \<and> (\<exists>i n. resolve s target = Ok i \<and> named_by s target i \<and> i < length (partitions s) \<and> unat len \<le> unat n \<and>
        map strip (partitions s') = map strip ((partitions s)[i := (partitions s ! i)\<lparr>p_length := n\<rparr>]))"
proof (cases "plan_resize s target len")
  case (Inl err)
  then show ?thesis by (simp add: resize_partition_def)
next
  case (Inr r)
  obtain f l where u: "set_usable_range s = (f, l)" by (cases "set_usable_range s")
  obtain i N where pl: "plan_resize s target len = Ok (i, N)" using Inr by (cases r) simp
  note P = plan_resize_Ok [OF pl u]
  note i = resolve_Ok [OF P(2)]
  let ?p = "partitions s ! i"
  obtain s' where s': "resize_partition s target len = (Ok (), s')"
    "s' = refresh_overlap_issues (s\<lparr>partitions := (partitions s)[i := ?p\<lparr>p_length := N * 512,
       p_issues := p_issues ?p AND NOT PAST_LAST_USABLE\<rparr>]\<rparr>)"
    using pl by (simp add: resize_partition_def Let_def)
  have "map strip (partitions s') = map strip ((partitions s)[i := ?p\<lparr>p_length := N * 512\<rparr>])"
    by (simp add: s'(2) strip_refresh map_update strip_def)
  moreover have "f \<le> l" by (rule set_ok_usable [OF assms nth_mem [OF i] u])
  then have "unat N < 2 ^ 55" using P(4) usable_bounds(2) [OF u] unat_lt [of "disk_size s"] by simp
  then have "unat len \<le> unat (N * 512)"
    using rounded_length(3) [OF P(1), folded P(3)] by (simp add: unat_times_512)
  ultimately show ?thesis using resize_partition_ok [OF assms s'(1)] s'(1) P(2) P(2) [unfolded resolve_iff] i by auto
qed

definition wit_entropy :: entropy where
  "wit_entropy = \<lparr>urandom = None, clock_nanos = None, process_id = 7\<rparr>"

definition wit_set1 :: partition_set where
  "wit_set1 = snd (add_partition wit_entropy (empty_mbr 10485760) (Some 0) 1048576 LinuxFilesystem None)"

definition wit_set :: partition_set where
  "wit_set = snd (add_partition wit_entropy wit_set1 (Some 2097152) 1048576 LinuxSwap None)"

lemma pair_snd: "fst x = a \<Longrightarrow> x = (a, snd x)"
  by (cases x) simp

lemma wit_set_ok: "set_ok wit_set"
proof -
  have e: "\<forall>b. urandom wit_entropy = Some b \<longrightarrow> length b = 16" by (simp add: wit_entropy_def)
  have t: "writable_type k LinuxFilesystem" "writable_type k LinuxSwap" for k
    by (simp_all add: writable_type_def)
  have 0: "set_ok (empty_mbr 10485760)"
    by (simp add: set_ok_def empty_mbr_def reserved_spans_def disjoint_spans_def slots_available_def
        List.map_filter_simps)
  have "fst (add_partition wit_entropy (empty_mbr 10485760) (Some 0) 1048576 LinuxFilesystem None) = Ok 0"
    by code_simp
  from add_partition_ok(1) [OF 0 t(1) e pair_snd [OF this]] have 1: "set_ok wit_set1"
    by (simp only: wit_set1_def)
  have "fst (add_partition wit_entropy wit_set1 (Some 2097152) 1048576 LinuxSwap None) = Ok 1"
    by code_simp
  from add_partition_ok(1) [OF 1 t(2) e pair_snd [OF this]] show ?thesis
    by (simp only: wit_set_def)
qed

theorem remove_keeps_set_witness:
  "fst (remove_partition wit_set (Index 0)) = Ok () \<and> set_ok (snd (remove_partition wit_set (Index 0))) \<and>
   map strip (partitions (snd (remove_partition wit_set (Index 0)))) = map strip (remove_at 0 (partitions wit_set))"
proof -
  have r: "fst (remove_partition wit_set (Index 0)) = Ok ()" by code_simp
  show ?thesis
    using remove_keeps_set [OF wit_set_ok, of "Index 0"] r
    by (cases "remove_partition wit_set (Index 0)") (auto simp: named_by_def)
qed

theorem resize_keeps_set_witness:
  "fst (resize_partition wit_set (Index 1) 3000000) = Ok () \<and>
   set_ok (snd (resize_partition wit_set (Index 1) 3000000))"
proof -
  have r: "fst (resize_partition wit_set (Index 1) 3000000) = Ok ()" by code_simp
  show ?thesis
    using resize_keeps_set [OF wit_set_ok, of "Index 1" 3000000] r
    by (cases "resize_partition wit_set (Index 1) 3000000") simp
qed

section \<open>Committing\<close>

text \<open>The slots a plan gives to the partitions of a set.\<close>

definition set_slots :: "partition_set \<Rightarrow> error + u32 list" where
  "set_slots s = (case set_kind s of
     TkGpt \<Rightarrow> assign_slots (partitions s) (num_entries (gpt_geometry s))
   | TkMbr \<Rightarrow> assign_slots_with_taken (partitions s) 4 (map r_slot (reserved s)))"

text \<open>What a commit needs beside the invariant: a writable device of the set's size.\<close>

definition committable :: "('d, 'x) block_device_scheme \<Rightarrow> 'd \<Rightarrow> partition_set \<Rightarrow> bool" where
  "committable dv d s \<longleftrightarrow>
     is_writable dv d \<and> size_bytes dv d = disk_size s \<and> set_ok s \<and> length (set_guid s) = 16 \<and>
     list_all (\<lambda>r. length (r_bytes r) = 16) (reserved s) \<and>
     (set_kind s = TkMbr \<or> (\<exists>mbr. lba0_for dv d (partitions s) (reserved s) = Ok mbr))"

context block_store
begin

lemma write_and_flush_ok:
  assumes d: "invar d" and c: "committable dv d s"
  shows "\<exists>slots d'. write_and_flush crc s dv d = (Ok slots, d') \<and> set_slots s = Ok slots \<and>
    invar d' \<and> is_writable dv d' \<and> size_bytes dv d' = size_bytes dv d"
proof -
  have r16: "\<forall>r \<in> set (reserved s). length (r_bytes r) = 16" using c by (simp add: committable_def list_all_iff)
  have "\<exists>slots d1. (case set_kind s of
      TkGpt \<Rightarrow> write_gpt_assigning_slots crc dv d (partitions s) (set_guid s) (gpt_geometry s) (gpt_entry_tails s) (reserved s)
    | TkMbr \<Rightarrow> write_mbr_assigning_slots dv d (partitions s) (reserved s)) = (Ok slots, d1) \<and>
      set_slots s = Ok slots \<and> invar d1 \<and> is_writable dv d1 \<and> size_bytes dv d1 = size_bytes dv d"
  proof (cases "set_kind s")
    case TkGpt
    then have b: "\<forall>p \<in> set (partitions s). bytes16 p" using c by (auto simp: committable_def set_ok_def)
    obtain pl where pl: "plan_gpt (is_writable dv d) (size_bytes dv d) (partitions s) (gpt_geometry s) (gpt_entry_tails s) = Ok pl"
      using c set_ok_plan [OF b] TkGpt by (auto simp: committable_def set_plan_ok_def)
    have typed: "\<forall>p \<in> set (partitions s). gpt_typed p"
      using c TkGpt by (auto simp: committable_def set_ok_def gpt_typed_iff)
    obtain mbr where m: "lba0_for dv d (partitions s) (reserved s) = Ok mbr" using c TkGpt by (auto simp: committable_def)
    have "length (set_guid s) = 16" using c by (simp add: committable_def)
    from write_gpt_placed [OF d pl typed this lba0_for_length [OF d m r16] m]
    show ?thesis using TkGpt plan_gpt_Ok(6) [OF pl] by (auto simp: set_slots_def)
  next
    case TkMbr
    obtain slots where pl: "plan_mbr (is_writable dv d) (size_bytes dv d) (partitions s) (reserved s) = Ok slots"
      using c TkMbr mbr_plan_iff [of True "disk_size s" "partitions s" "reserved s"]
      by (auto simp: committable_def set_ok_def reserved_spans_def)
    show ?thesis
      using write_mbr_outcome [OF d r16, of "partitions s"] pl TkMbr plan_mbr_Ok(5) [OF pl]
      by (auto simp: set_slots_def)
  qed
  then obtain slots d1 where w: "write_and_flush crc s dv d = (case dev_flush dv d1 of
        (Inl err, d'') \<Rightarrow> (Err (Block err), d'') | (Inr _, d'') \<Rightarrow> (Ok slots, d''))"
    and s: "set_slots s = Ok slots" "invar d1" "is_writable dv d1" "size_bytes dv d1 = size_bytes dv d"
    by (auto simp: write_and_flush_def)
  obtain d' where f: "dev_flush dv d1 = (Ok (), d')" "contents d' = contents d1" "invar d'" "is_writable dv d'"
    using flush_ok [OF s(2,3)] by blast
  have "size_bytes dv d' = size_bytes dv d1"
    using size_contents [OF s(2)] size_contents [OF f(3)] f(2) by (simp add: word_unat_eq_iff)
  then show ?thesis using w s f by auto
qed

end

lemma map2_slots:
  assumes "length slots = length ps"
  shows "map p_slot (map2 (\<lambda>p x. p\<lparr>p_slot := Some x\<rparr>) ps slots) = map Some slots"
    and "map span_of (map2 (\<lambda>p x. p\<lparr>p_slot := Some x\<rparr>) ps slots) = map span_of ps"
  using assms
  by (induction slots ps rule: list_induct2)
    (simp_all add: span_of_def sector_span_def List.map_filter_simps)

lemma valid_in_slot: "valid_in s (p\<lparr>p_slot := x\<rparr>) = valid_in s p"
  by (simp add: valid_in_def gpt_valid_def mbr_valid_def bytes16_def sector_span_def split: table_kind.split)

lemma set_slots_facts:
  assumes "set_slots s = Ok slots" and "set_ok s"
  shows "length slots = length (partitions s)"
    and "set_ok (s\<lparr>partitions := map2 (\<lambda>p x. p\<lparr>p_slot := Some x\<rparr>) (partitions s) slots\<rparr>)"
    and "\<And>i x. i < length (partitions s) \<Longrightarrow> p_slot (partitions s ! i) = Some x \<Longrightarrow> slots ! i = x"
    and "set_slots (s\<lparr>partitions := map2 (\<lambda>p x. p\<lparr>p_slot := Some x\<rparr>) (partitions s) slots\<rparr>) = Ok slots"
proof -
  obtain n pre where a: "assign_slots_with_taken (partitions s) n pre = Ok slots"
    and n: "case set_kind s of TkGpt \<Rightarrow> n = num_entries (gpt_geometry s) \<and> pre = []
              | TkMbr \<Rightarrow> n = 4 \<and> pre = map r_slot (reserved s)"
    using assms(1) by (cases "set_kind s") (auto simp: set_slots_def assign_slots_def)
  note f = assign_slots_facts [OF a]
  show len: "length slots = length (partitions s)" by (rule f(1))
  show "slots ! i = x" if "i < length (partitions s)" "p_slot (partitions s ! i) = Some x" for i x
    using f(5) that .
  let ?ps = "map2 (\<lambda>p x. p\<lparr>p_slot := Some x\<rparr>) (partitions s) slots"
  have ok: "set_ok (s\<lparr>partitions := partitions s\<rparr>)" using assms(2) by simp
  note again = taken_slots.assign_again [OF a map2_slots(1) [OF len]]
  show "set_slots (s\<lparr>partitions := ?ps\<rparr>) = Ok slots"
    using again(2) n by (simp add: set_slots_def assign_slots_def split: table_kind.splits)
  have "table_room s ?ps"
    using again(1) ok n len unfolding set_ok_parts table_room_def by (auto split: table_kind.splits)
  moreover have "\<forall>p \<in> set ?ps. valid_in s p"
    using ok unfolding set_ok_parts by (auto simp: valid_in_slot dest: set_zip_leftD)
  ultimately show "set_ok (s\<lparr>partitions := ?ps\<rparr>)"
    using ok unfolding set_ok_parts map2_slots(2) [OF len] by blast
qed

text \<open>
  C5: What the edits accept, a commit writes. A set that satisfies the invariant
  commits without error on a writable device of its size (for a GPT whose LBA 0 has
  entries, when that sector can be rebuilt); afterwards \<open>commit_mut\<close> has
  recorded a slot on every partition, no slot already recorded has changed, nothing
  else of the set has, the invariant still holds, and committing again assigns
  exactly the same slots.
\<close>

theorem commit_mut_records_slots:
  assumes dev: "block_store dv contents invar" and d: "invar d" and c: "committable dv d s"
  shows "\<exists>s' d'. commit_mut crc s dv d = (Ok (), s', d') \<and> invar d' \<and> set_ok s' \<and>
    s' = s\<lparr>partitions := partitions s'\<rparr> \<and>
    map (\<lambda>p. p\<lparr>p_slot := None\<rparr>) (partitions s') = map (\<lambda>p. p\<lparr>p_slot := None\<rparr>) (partitions s) \<and>
    (\<forall>i < length (partitions s). p_slot (partitions s' ! i) \<noteq> None \<and>
       (p_slot (partitions s ! i) \<noteq> None \<longrightarrow> p_slot (partitions s' ! i) = p_slot (partitions s ! i))) \<and>
    map_ok (map Some) (set_slots s') = Ok (map p_slot (partitions s'))"
proof -
  obtain slots d' where w: "write_and_flush crc s dv d = (Ok slots, d')" "invar d'" and sl: "set_slots s = Ok slots"
    using block_store.write_and_flush_ok [OF dev d c, of crc] by blast
  have ok: "set_ok s" using c by (simp add: committable_def)
  note f = set_slots_facts [OF sl ok]
  define ps where "ps = map2 (\<lambda>p x. p\<lparr>p_slot := Some x\<rparr>) (partitions s) slots"
  define s' where "s' = s\<lparr>partitions := ps\<rparr>"
  have cm: "commit_mut crc s dv d = (Ok (), s', d')"
    using w f(1) by (simp add: commit_mut_def s'_def ps_def)
  have ok': "set_ok s'" using f(2) by (simp add: s'_def ps_def)
  have len: "length ps = length (partitions s)" using f(1) by (simp add: ps_def)
  have slot: "p_slot (ps ! i) = Some (slots ! i)" if "i < length (partitions s)" for i
    using that f(1) by (simp add: ps_def)
  have rest: "map (\<lambda>p. p\<lparr>p_slot := None\<rparr>) ps = map (\<lambda>p. p\<lparr>p_slot := None\<rparr>) (partitions s)"
    unfolding ps_def using f(1) by (intro nth_equalityI) simp_all
  have s2: "set_slots s' = Ok slots" using f(4) by (simp add: s'_def ps_def)
  have "map Some slots = map p_slot ps"
    using f(1) slot len by (intro nth_equalityI) simp_all
  then show ?thesis
    using cm w(2) ok' rest slot f(3) s2 by (intro exI [of _ s'] exI [of _ d']) (auto simp: s'_def)
qed

definition wit_mbr_set :: partition_set where
  "wit_mbr_set = (empty_mbr 2048)\<lparr>partitions := [wit_part], reserved := [wit_reserved]\<rparr>"

lemma wit_mbr_set_committable: "committable memdev (replicate 2048 0) wit_mbr_set"
proof -
  have b: "\<forall>p \<in> set (partitions wit_mbr_set). bytes16 p"
    by (simp add: wit_mbr_set_def bytes16_def wit_part_def)
  have "set_ok wit_mbr_set"
    using set_ok_plan [OF b] wit_plan by (simp add: set_plan_ok_def wit_mbr_set_def empty_mbr_def)
  then show ?thesis
    by (simp add: committable_def wit_mbr_set_def empty_mbr_def wit_reserved_def)
qed

theorem commit_mut_records_slots_witness:
  "\<exists>s' d'. commit_mut wit_crc wit_mbr_set memdev (replicate 2048 0) = (Ok (), s', d') \<and>
     set_ok s' \<and> p_slot (partitions s' ! 0) \<noteq> None"
proof -
  have i: "memdev_invar (replicate 2048 0)" by (simp add: memdev_invar_def)
  have "length (partitions wit_mbr_set) = 1" by (simp add: wit_mbr_set_def)
  then show ?thesis
    using commit_mut_records_slots [OF memdev.block_store_axioms i wit_mbr_set_committable, of wit_crc] by fastforce
qed

text \<open>
  C40: The random UUIDs of new partitions and tables are version 4 UUIDs of RFC
  4122, in the mixed-endian byte order of a GPT: sixteen bytes with the version
  nibble 4 in the high half of byte 7 and the variant bits 10 on top of byte 8,
  whichever of the two random sources supplied the rest, which is left as it was.
\<close>

theorem random_uuid_version4:
  assumes "\<forall>b. urandom e = Some b \<longrightarrow> length b = 16"
  shows "length (random_uuid e) = 16 \<and> drop_bit 4 (random_uuid e ! 7) = 4 \<and> drop_bit 6 (random_uuid e ! 8) = 2 \<and>
    (\<forall>b i. urandom e = Some b \<longrightarrow> i < 16 \<longrightarrow> i \<noteq> 7 \<longrightarrow> i \<noteq> 8 \<longrightarrow> random_uuid e ! i = b ! i)"
proof -
  define bs where "bs = (case urandom e of Some b \<Rightarrow> b | None \<Rightarrow> fill_from_prng e)"
  have len: "length bs = 16"
    using assms by (auto simp: bs_def fill_from_prng_def Let_def split: option.splits)
  have r: "random_uuid e = bs[7 := (bs ! 7 AND 0x0F) OR 0x40, 8 := (bs ! 8 AND 0x3F) OR 0x80]"
    by (simp add: random_uuid_def fill_from_urandom_def bs_def Let_def)
  have "drop_bit 4 ((w AND 0x0F) OR 0x40) = (4 :: u8) \<and> drop_bit 6 ((w AND 0x3F) OR 0x80) = (2 :: u8)" for w :: u8
  proof (intro conjI bit_word_eqI)
    fix n assume "n < LENGTH(8)"
    then have n: "n \<in> {0, 1, 2, 3, 4, 5, 6, 7}" by auto
    then show "bit (drop_bit 4 ((w AND 0x0F) OR 0x40)) n = bit (4 :: u8) n" by (auto simp: bit_simps)
    from n show "bit (drop_bit 6 ((w AND 0x3F) OR 0x80)) n = bit (2 :: u8) n" by (auto simp: bit_simps)
  qed
  then show ?thesis using len by (auto simp: r bs_def)
qed

theorem random_uuid_version4_witness:
  "drop_bit 4 (random_uuid wit_entropy ! 7) = 4 \<and> drop_bit 6 (random_uuid wit_entropy ! 8) = 2"
  using random_uuid_version4 [of wit_entropy] by (simp add: wit_entropy_def)


section \<open>Refreshing the overlap bits\<close>

definition mark_bit :: "bool \<Rightarrow> partition \<Rightarrow> partition" where
  "mark_bit b p = p\<lparr>p_issues := (if b then p_issues p OR OVERLAPS_ANOTHER else p_issues p AND NOT OVERLAPS_ANOTHER)\<rparr>"

lemma fold_set_overlap_bit:
  assumes "distinct (map fst xs)" and "i < length ps"
  shows "fold set_overlap_bit xs ps ! i = (case map_of xs i of None \<Rightarrow> ps ! i | Some b \<Rightarrow> mark_bit b (ps ! i))"
  using assms
proof (induction xs arbitrary: ps)
  case (Cons x xs)
  obtain j b where x: "x = (j, b)" by (cases x)
  have s: "set_overlap_bit x ps = ps[j := mark_bit b (ps ! j)]"
    by (simp add: x set_overlap_bit_def mark_bit_def)
  have "map_of xs j = None" using Cons.prems x by (auto simp: map_of_eq_None_iff)
  then show ?case using Cons s by (auto simp: x nth_list_update split: option.split)
qed simp

lemma length_fold_set_overlap_bit: "length (fold set_overlap_bit xs ps) = length ps"
  by (induction xs arbitrary: ps) (auto simp: set_overlap_bit_def)

lemma distinct_indexed: "distinct (map fst (indexed_spans ps))"
proof -
  have "distinct (map fst (List.map_filter (\<lambda>(i, p). case f p of Inr x \<Rightarrow> Some (i, x) | Inl _ \<Rightarrow> None) (enumerate n ps)))
      \<and> fst ` set (List.map_filter (\<lambda>(i, p). case f p of Inr x \<Rightarrow> Some (i, x) | Inl _ \<Rightarrow> None) (enumerate n ps)) \<subseteq> {n..}"
    for f :: "partition \<Rightarrow> error + u64 \<times> u64" and n
    by (induction ps arbitrary: n) (fastforce simp: List.map_filter_simps split: sum.splits)+
  then show ?thesis by (simp add: indexed_spans_def)
qed

lemma set_indexed: "(i, x) \<in> set (indexed_spans ps) \<longleftrightarrow> i < length ps \<and> sector_span (ps ! i) = Ok x"
proof
  assume "i < length ps \<and> sector_span (ps ! i) = Ok x"
  then have "(i, ps ! i) \<in> set (enumerate 0 ps)" "sector_span (ps ! i) = Ok x" by (auto simp: in_set_enumerate_eq)
  then show "(i, x) \<in> set (indexed_spans ps)"
    by (auto simp: indexed_spans_def set_map_filter intro!: bexI [of _ "(i, ps ! i)"])
qed (auto simp: indexed_spans_def set_map_filter in_set_enumerate_eq split: sum.splits)

text \<open>
  After an edit of a GPT the overlap bits are those a fresh reading would
  give: a partition whose sectors can be computed carries the bit exactly if it
  shares a sector with another such partition, no matter what the bit was before;
  the other issue bits, and everything else, are as they were.
\<close>

theorem refresh_overlap_exact:
  assumes "set_kind s = TkGpt" and "i < length (partitions s)"
  shows "strip (partitions (refresh_overlap_issues s) ! i) = strip (partitions s ! i) \<and>
    p_issues (partitions (refresh_overlap_issues s) ! i) =
      (case sector_span (partitions s ! i) of
         Inl _ \<Rightarrow> p_issues (partitions s ! i)
       | Inr x \<Rightarrow>
           if \<exists>j < length (partitions s). j \<noteq> i \<and> (\<exists>y. sector_span (partitions s ! j) = Ok y \<and> overlapping x y)
           then p_issues (partitions s ! i) OR OVERLAPS_ANOTHER
           else p_issues (partitions s ! i) AND NOT OVERLAPS_ANOTHER)"
proof -
  let ?ps = "partitions s" and ?sp = "indexed_spans (partitions s)"
  let ?m = "mark_overlaps (map snd ?sp)"
  have ord: "\<forall>x \<in> set (map snd ?sp). fst x \<le> snd x"
    using set_indexed [of _ _ ?ps] sector_span_ordered by fastforce
  note mk = mark_overlaps_inv [OF ord]
  have lm: "length ?m = length ?sp" using mk(1) by simp
  have z: "map fst (zip (map fst ?sp) ?m) = map fst ?sp" using lm by simp
  have r: "partitions (refresh_overlap_issues s) ! i =
      (case map_of (zip (map fst ?sp) ?m) i of None \<Rightarrow> ?ps ! i | Some b \<Rightarrow> mark_bit b (?ps ! i))"
    using assms fold_set_overlap_bit [of "zip (map fst ?sp) ?m" i ?ps] distinct_indexed [of ?ps] z
    by (simp add: refresh_overlap_issues_def Let_def)
  have st: "strip (partitions (refresh_overlap_issues s) ! i) = strip (?ps ! i)"
    unfolding r by (simp add: strip_def mark_bit_def split: option.split)
  show ?thesis
  proof (cases "sector_span (?ps ! i)")
    case (Inl e)
    then have "i \<notin> set (map fst ?sp)" using set_indexed [of i _ ?ps] by auto
    then have "map_of (zip (map fst ?sp) ?m) i = None" by (auto simp: map_of_eq_None_iff dest: set_zip_leftD)
    then show ?thesis using st r Inl by simp
  next
    case (Inr x)
    then obtain k where k: "k < length ?sp" "?sp ! k = (i, x)"
      using set_indexed [of i x ?ps] assms(2) by (auto simp: in_set_conv_nth)
    have "map_of (zip (map fst ?sp) ?m) i = Some (?m ! k)"
      using map_of_zip_nth [of "map fst ?sp" ?m k] distinct_indexed [of ?ps] lm k by simp
    moreover have "?m ! k \<longleftrightarrow> (\<exists>j < length ?ps. j \<noteq> i \<and> (\<exists>y. sector_span (?ps ! j) = Ok y \<and> overlapping x y))"
    proof -
      have "?m ! k \<longleftrightarrow> (\<exists>l < length ?sp. l \<noteq> k \<and> overlapping x (snd (?sp ! l)))"
        using mk(2) [of k] k by auto
      also have "\<dots> \<longleftrightarrow> (\<exists>j y. (j, y) \<in> set ?sp \<and> j \<noteq> i \<and> overlapping x y)"
      proof
        assume "\<exists>l < length ?sp. l \<noteq> k \<and> overlapping x (snd (?sp ! l))"
        then obtain l where l: "l < length ?sp" "l \<noteq> k" "overlapping x (snd (?sp ! l))" by blast
        then have "map fst ?sp ! l \<noteq> map fst ?sp ! k" using distinct_indexed [of ?ps] k by (simp only: nth_eq_iff_index_eq length_map not_False_eq_True)
        then have "fst (?sp ! l) \<noteq> i" using l k by simp
        then show "\<exists>j y. (j, y) \<in> set ?sp \<and> j \<noteq> i \<and> overlapping x y" using l by (metis nth_mem prod.collapse)
      next
        assume "\<exists>j y. (j, y) \<in> set ?sp \<and> j \<noteq> i \<and> overlapping x y"
        then show "\<exists>l < length ?sp. l \<noteq> k \<and> overlapping x (snd (?sp ! l))"
          using k by (metis fst_conv in_set_conv_nth snd_conv)
      qed
      finally show ?thesis by (auto simp: set_indexed)
    qed
    ultimately show ?thesis using st r Inr by (simp add: mark_bit_def)
  qed
qed


definition wit_overlapping :: partition_set where
  "wit_overlapping = (empty_gpt wit_entropy 4096)\<lparr>partitions := [wit_gpt_part, wit_gpt_part\<lparr>p_start := 1024\<rparr>]\<rparr>"

theorem refresh_overlap_exact_witness:
  "p_issues (partitions (refresh_overlap_issues wit_overlapping) ! 0) = OVERLAPS_ANOTHER"
proof -
  have k: "set_kind wit_overlapping = TkGpt" and l: "length (partitions wit_overlapping) = 2"
    and p: "partitions wit_overlapping ! 0 = wit_gpt_part" "partitions wit_overlapping ! 1 = wit_gpt_part\<lparr>p_start := 1024\<rparr>"
    by (simp_all add: wit_overlapping_def empty_gpt_def)
  have s: "sector_span wit_gpt_part = Ok (3, 4)" "sector_span (wit_gpt_part\<lparr>p_start := 1024\<rparr>) = Ok (2, 3)"
    "overlapping (3, 4) (2, 3)" "p_issues wit_gpt_part OR OVERLAPS_ANOTHER = OVERLAPS_ANOTHER"
    by code_simp+
  have "\<exists>j < length (partitions wit_overlapping). j \<noteq> 0 \<and>
      (\<exists>y. sector_span (partitions wit_overlapping ! j) = Ok y \<and> overlapping (3, 4) y)"
    using l p s by (intro exI [of _ 1]) simp
  then show ?thesis using refresh_overlap_exact [OF k, of 0] l p s by (simp del: OVERLAPS_ANOTHER_def)
qed

lemma type_zero_accepted: "kind_for TkMbr (MbrCustom 0) = Ok (Mbr 0 False)"
  by (simp add: kind_for_def)

text \<open>
  C29: A type byte of zero marks an unused entry, yet it passes the checks of the edits
  (\<open>MbrCustom(0x00)\<close>) and of the writer: the partition it is given to is written
  with success reported, and a reader of the table no longer finds it in its slot.
\<close>

theorem commit_loses_type_zero:
  assumes dev: "block_store dv contents invar" and d: "invar d" and c: "committable dv d s"
    and k: "set_kind s = TkMbr" "i < length (partitions s)" "type_byte (p_kind (partitions s ! i)) = 0"
  shows "\<exists>slots d' vs. write_mbr_assigning_slots dv d (partitions s) (reserved s) = (Ok slots, d') \<and>
    mbr_parse (take 512 (contents d')) (size_bytes dv d') = Ok vs \<and> (\<forall>v \<in> set vs. p_slot v \<noteq> Some (slots ! i))"
proof -
  have r16: "\<forall>r \<in> set (reserved s). length (r_bytes r) = 16" using c by (simp add: committable_def list_all_iff)
  obtain slots where pl: "plan_mbr (is_writable dv d) (size_bytes dv d) (partitions s) (reserved s) = Ok slots"
    using c k(1) mbr_plan_iff [of True "disk_size s" "partitions s" "reserved s"]
    by (auto simp: committable_def set_ok_def reserved_spans_def)
  obtain d' sec where w: "write_mbr_assigning_slots dv d (partitions s) (reserved s) = (Ok slots, d')"
    "contents d' = copy_at 0 sec (contents d)" "placed (partitions s) slots (reserved s)"
    "written (take 512 (contents d)) (partitions s) slots (reserved s) sec" "512 \<le> length (contents d)"
    using block_store.write_mbr_outcome [OF dev d r16, of "partitions s"] pl by auto
  have ls: "length sec = 512" and t: "take 512 (contents d') = sec"
    using w(2,4,5) by (simp_all add: written_def copy_at_def)
  have si: "unat (slots ! i) < 4" using w(3) k(2) by (auto simp: placed_def)
  have "entry_bytes sec (unat (slots ! i)) ! 4 = 0"
    using w(4,5) k si by (simp add: written_def encode_part_def encode_entry_reads(2))
  then have none: "parse_slot sec n (unat (slots ! i)) = None" for n
    by (simp add: parse_slot_bytes [OF ls si] Let_def)
  obtain vs where vs: "mbr_parse sec (size_bytes dv d') = Ok vs"
      "\<forall>v. v \<in> set vs \<longleftrightarrow> (\<exists>j < 4. parse_slot sec (size_bytes dv d') j = Some v \<and> entry_role (entry_bytes sec j ! 4) = Volume)"
    using mbr_parse_mem [OF ls] by blast
  have "p_slot v \<noteq> Some (slots ! i)" if v: "v \<in> set vs" for v
  proof
    assume p: "p_slot v = Some (slots ! i)"
    obtain j where j: "j < 4" "parse_slot sec (size_bytes dv d') j = Some v" using v vs(2) by blast
    have "slots ! i = of_nat j" using p parse_slot_slot [OF j(2)] by simp
    then have "unat (slots ! i) = j" using j(1) by (simp add: unat_of_nat)
    then show False using none j(2) by simp
  qed
  then show ?thesis using w(1) t vs(1) by auto
qed

definition wit_zero_set :: partition_set where
  "wit_zero_set = wit_mbr_set\<lparr>partitions := [wit_part\<lparr>p_kind := Mbr 0 False\<rparr>]\<rparr>"

theorem commit_loses_type_zero_witness:
  "\<exists>slots d' vs. write_mbr_assigning_slots memdev (replicate 2048 0) [wit_part\<lparr>p_kind := Mbr 0 False\<rparr>] [wit_reserved]
      = (Ok slots, d') \<and>
    mbr_parse (take 512 d') (of_nat (length d')) = Ok vs \<and> (\<forall>v \<in> set vs. p_slot v \<noteq> Some (slots ! 0))"
proof -
  have i: "memdev_invar (replicate 2048 0)" by (simp add: memdev_invar_def)
  have b: "\<forall>p \<in> set (partitions wit_zero_set). bytes16 p"
    by (simp add: wit_zero_set_def bytes16_def wit_part_def)
  have "plan_mbr True 2048 [wit_part\<lparr>p_kind := Mbr 0 False\<rparr>] [wit_reserved] = Ok [0]" by code_simp
  then have "set_ok wit_zero_set"
    using set_ok_plan [OF b] by (simp add: set_plan_ok_def wit_zero_set_def wit_mbr_set_def empty_mbr_def)
  then have c: "committable memdev (replicate 2048 0) wit_zero_set"
    by (simp add: committable_def wit_zero_set_def wit_mbr_set_def empty_mbr_def wit_reserved_def)
  show ?thesis
    using commit_loses_type_zero [OF memdev.block_store_axioms i c, of 0]
    by (simp add: wit_zero_set_def wit_mbr_set_def empty_mbr_def)
qed

end
