(* ===== verification/Rust_Text.thy ===== *)
theory Rust_Text
  imports Utf16
begin

text \<open>
  Text as the source builds it: numbers printed into error messages by \<open>format!\<close>,
  \<open>String::from_utf8_lossy\<close> of the standard library, which replaces every maximal
  ill-formed prefix by the replacement character, and \<open>str::as_bytes\<close>, the UTF-8 encoder it
  decodes.
\<close>

section \<open>Numbers\<close>

definition digit_char :: "nat \<Rightarrow> char" where
  "digit_char d = ''0123456789abcdef'' ! d"

fun show_base :: "nat \<Rightarrow> nat \<Rightarrow> string" where
  "show_base b n = (if n < b \<or> b < 2 then [digit_char (n mod 16)]
     else show_base b (n div b) @ [digit_char (n mod b mod 16)])"

declare show_base.simps [simp del]

definition show_nat :: "nat \<Rightarrow> string" where
  "show_nat = show_base 10"

definition show_hex :: "nat \<Rightarrow> string" where
  "show_hex n = ''0x'' @ show_base 16 n"

definition show_int :: "int \<Rightarrow> string" where
  "show_int i = (if i < 0 then ''-'' @ show_nat (nat (- i)) else show_nat (nat i))"

definition show_bool :: "bool \<Rightarrow> string" where
  "show_bool b = (if b then ''true'' else ''false'')"

text \<open>\<open>{:?}\<close> of a vector of numbers.\<close>

fun show_seq :: "nat list \<Rightarrow> string" where
  "show_seq [] = []"
| "show_seq [n] = show_nat n"
| "show_seq (n # ns) = show_nat n @ '', '' @ show_seq ns"

definition debug_nats :: "nat list \<Rightarrow> string" where
  "debug_nats ns = ''['' @ show_seq ns @ '']''"

section \<open>Lossy UTF-8\<close>

text \<open>
  How a byte may start a character: the number of continuation bytes, the range the first
  of them must lie in, and the bits the byte contributes.
\<close>

definition utf8_lead :: "u8 \<Rightarrow> (nat \<times> u8 \<times> u8 \<times> u32) option" where
  "utf8_lead b =
     (if b < 0x80 then Some (0, 0, 0, ucast b)
      else if 0xC2 \<le> b \<and> b \<le> 0xDF then Some (1, 0x80, 0xBF, ucast (b AND 0x1F))
      else if b = 0xE0 then Some (2, 0xA0, 0xBF, 0)
      else if b = 0xED then Some (2, 0x80, 0x9F, 0xD)
      else if 0xE1 \<le> b \<and> b \<le> 0xEF then Some (2, 0x80, 0xBF, ucast (b AND 0x0F))
      else if b = 0xF0 then Some (3, 0x90, 0xBF, 0)
      else if b = 0xF4 then Some (3, 0x80, 0x8F, 4)
      else if 0xF1 \<le> b \<and> b \<le> 0xF3 then Some (3, 0x80, 0xBF, ucast (b AND 0x07))
      else None)"

text \<open>
  The continuation bytes after a lead byte: the character, or nothing at the first byte
  that does not continue it, with the bytes left over.
\<close>

fun utf8_rest :: "nat \<Rightarrow> u8 \<Rightarrow> u8 \<Rightarrow> u32 \<Rightarrow> u8 list \<Rightarrow> u32 option \<times> u8 list" where
  "utf8_rest 0 lo hi acc bs = (Some acc, bs)"
| "utf8_rest (Suc n) lo hi acc [] = (None, [])"
| "utf8_rest (Suc n) lo hi acc (b # bs) =
     (if lo \<le> b \<and> b \<le> hi then utf8_rest n 0x80 0xBF (push_bit 6 acc OR ucast (b AND 0x3F)) bs
      else (None, b # bs))"

lemma utf8_rest_length: "length (snd (utf8_rest n lo hi acc bs)) \<le> length bs"
  by (induction n lo hi acc bs rule: utf8_rest.induct) auto

function from_utf8_lossy :: "u8 list \<Rightarrow> ustring" where
  "from_utf8_lossy [] = []"
| "from_utf8_lossy (b # bs) =
     (case utf8_lead b of
        None \<Rightarrow> REPLACEMENT # from_utf8_lossy bs
      | Some (n, lo, hi, acc) \<Rightarrow>
          (case fst (utf8_rest n lo hi acc bs) of Some c \<Rightarrow> c | None \<Rightarrow> REPLACEMENT)
            # from_utf8_lossy (snd (utf8_rest n lo hi acc bs)))"
  by pat_completeness auto
termination
  by (relation "measure length") (auto simp: le_imp_less_Suc utf8_rest_length)

text \<open>Plain ASCII is itself.\<close>

lemma from_utf8_lossy_ascii: "list_all (\<lambda>b. b < 0x80) bs \<Longrightarrow> from_utf8_lossy bs = map ucast bs"
  by (induction bs) (simp_all add: utf8_lead_def)

section \<open>UTF-8\<close>

text \<open>\<open>str::as_bytes\<close>: the UTF-8 encoding of a scalar value.\<close>

definition utf8_char :: "u32 \<Rightarrow> u8 list" where
  "utf8_char c =
     (let n = unat c in
      map of_nat
        (if n < 0x80 then [n]
         else if n < 0x800 then [0xC0 + n div 64, 0x80 + n mod 64]
         else if n < 0x10000 then [0xE0 + n div 4096, 0x80 + n div 64 mod 64, 0x80 + n mod 64]
         else [0xF0 + n div 262144, 0x80 + n div 4096 mod 64, 0x80 + n div 64 mod 64, 0x80 + n mod 64]))"

definition as_bytes :: "ustring \<Rightarrow> u8 list" where
  "as_bytes s = concat (map utf8_char s)"

lemma unat_and_mask: "unat (b AND mask k) = unat b mod 2 ^ k"
  by (simp add: take_bit_eq_mask [symmetric] unat_take_bit)

lemma unat_utf8_bits:
  "unat ((b :: u8) AND 0x3F) = unat b mod 64" "unat (b AND 0x1F) = unat b mod 32"
  "unat (b AND 0x0F) = unat b mod 16" "unat (b AND 0x07) = unat b mod 8"
  using unat_and_mask [of b 6] unat_and_mask [of b 5] unat_and_mask [of b 4] unat_and_mask [of b 3]
  by (simp_all add: mask_eq_decr_exp)

lemma utf8_acc:
  fixes acc :: u32
  assumes "unat acc < 2 ^ 26"
  shows "unat (push_bit 6 acc OR ucast (b AND 0x3F :: u8)) = unat acc * 64 + unat b mod 64"
proof -
  have u: "unat (ucast (b AND 0x3F) :: u32) = unat b mod 64"
    by (simp add: unat_ucast unat_utf8_bits)
  have m: "(0x3F :: u8) = mask 6" by (simp add: mask_eq_exp_minus_1)
  have "push_bit 6 acc + (ucast (b AND 0x3F) :: u32) = push_bit 6 acc OR ucast (b AND 0x3F)"
    unfolding m by (rule disjunctive_add) (auto simp: bit_simps)
  moreover have "unat (push_bit 6 acc) = unat acc * 64"
    using assms by (simp add: push_bit_eq_mult unat_word_ariths(2))
  moreover have "unat acc * 64 + unat b mod 64 < 2 ^ 32"
    using assms mod_less_divisor [of 64 "unat b"] by simp
  ultimately show ?thesis using u by (simp add: unat_plus_if' flip: \<open>push_bit 6 acc + _ = _\<close>)
qed


text \<open>Decoding what was encoded, one character at a time.\<close>

lemma unat_byte: "n < 256 \<Longrightarrow> unat (of_nat n :: u8) = n"
  by (simp add: unat_of_nat)

lemma utf8_rest_step:
  assumes "lo \<le> b" and "b \<le> hi"
  shows "utf8_rest (Suc n) lo hi acc (b # bs) = utf8_rest n 0x80 0xBF (push_bit 6 acc OR ucast (b AND 0x3F)) bs"
  using assms by simp

lemma cont_byte:
  fixes x :: nat
  assumes "x < 64"
  shows "unat (of_nat (0x80 + x) :: u8) = 0x80 + x" and "(0x80 + x) mod 64 = x"
    and "0x80 \<le> (of_nat (0x80 + x) :: u8)" and "(of_nat (0x80 + x) :: u8) \<le> 0xBF"
proof -
  show u: "unat (of_nat (0x80 + x) :: u8) = 0x80 + x" using assms by (intro unat_byte) simp
  show "(0x80 + x) mod 64 = x" using assms mod_mult_self3 [of 2 64 x] by simp
  show "0x80 \<le> (of_nat (0x80 + x) :: u8)" "(of_nat (0x80 + x) :: u8) \<le> 0xBF"
    unfolding word_le_nat_alt u using assms by simp_all
qed


lemma lead_byte:
  fixes base m x :: nat
  assumes "base + x < 256" and "m dvd base" and "x < m"
  shows "unat (of_nat (base + x) :: u8) = base + x" and "(base + x) mod m = x"
proof -
  show "unat (of_nat (base + x) :: u8) = base + x" by (rule unat_byte [OF assms(1)])
  show "(base + x) mod m = x" using assms(2,3) by (auto elim!: dvdE)
qed

lemma utf8_two:
  assumes "0x80 \<le> unat c" and "unat c < 0x800"
  shows "from_utf8_lossy (utf8_char c @ bs) = c # from_utf8_lossy bs"
proof -
  define x y where "x = unat c div 64" and "y = unat c mod 64"
  have xy: "2 \<le> x" "x < 32" "y < 64" "unat c = x * 64 + y"
    using assms div_le_mono [OF assms(1), of 64] by (simp_all add: x_def y_def less_mult_imp_div_less)
  let ?b0 = "of_nat (0xC0 + x) :: u8" and ?b1 = "of_nat (0x80 + y) :: u8"
  have u0: "unat ?b0 = 0xC0 + x" "(0xC0 + x) mod 32 = x" using lead_byte [of "0xC0" x 32] xy by simp_all
  have lead: "utf8_lead ?b0 = Some (1, 0x80, 0xBF, ucast (?b0 AND 0x1F))"
    unfolding utf8_lead_def word_le_nat_alt word_less_nat_alt u0 using xy by simp
  have a0: "unat (ucast (?b0 AND 0x1F) :: u32) = x"
    unfolding unat_ucast unat_utf8_bits u0 using xy by simp
  note c1 = cont_byte [OF xy(3)]
  have "unat (push_bit 6 (ucast (?b0 AND 0x1F) :: u32) OR ucast (?b1 AND 0x3F)) = x * 64 + y"
    using utf8_acc [of "ucast (?b0 AND 0x1F)" ?b1] xy unfolding a0 c1 by simp
  then have c: "push_bit 6 (ucast (?b0 AND 0x1F) :: u32) OR ucast (?b1 AND 0x3F) = c" using xy(4) by (simp only: word_unat_eq_iff)
  have e: "utf8_char c = [?b0, ?b1]" using assms by (simp add: utf8_char_def Let_def x_def y_def)
  have r: "utf8_rest 1 0x80 0xBF (ucast (?b0 AND 0x1F)) (?b1 # bs) = (Some c, bs)"
    unfolding One_nat_def utf8_rest_step [OF c1(3,4)] c by simp
  show ?thesis unfolding e append_Cons append_Nil from_utf8_lossy.simps lead r option.case prod.case fst_conv snd_conv by simp
qed


lemma cont_step:
  assumes "unat acc < 2 ^ 26" and "y < 64" and "lo \<le> (of_nat (0x80 + y) :: u8)" and "of_nat (0x80 + y) \<le> hi"
  shows "utf8_rest (Suc n) lo hi acc (of_nat (0x80 + y) # bs) = utf8_rest n 0x80 0xBF (of_nat (unat acc * 64 + y)) bs"
proof -
  have "unat (push_bit 6 acc OR ucast ((of_nat (0x80 + y) :: u8) AND 0x3F)) = unat acc * 64 + y"
    using utf8_acc [OF assms(1), of "of_nat (0x80 + y)"] unfolding cont_byte [OF assms(2)] .
  then have "push_bit 6 acc OR ucast ((of_nat (0x80 + y) :: u8) AND 0x3F) = of_nat (unat acc * 64 + y)"
    by (metis of_nat_unat ucast_id)
  then show ?thesis using utf8_rest_step [OF assms(3,4)] by (simp only:)
qed

lemma lead_three:
  assumes "x < 16" and "x = 0 \<Longrightarrow> 32 \<le> y" and "x = 13 \<Longrightarrow> y < 32" and "y < 64"
  shows "\<exists>lo hi acc. utf8_lead (of_nat (0xE0 + x)) = Some (2, lo, hi, acc) \<and> unat acc = x \<and>
    lo \<le> (of_nat (0x80 + y) :: u8) \<and> of_nat (0x80 + y) \<le> hi"
proof -
  have u: "unat (of_nat (0xE0 + x) :: u8) = 0xE0 + x" "(0xE0 + x) mod 16 = x" using lead_byte [of "0xE0" x 16] assms(1) by simp_all
  have uy: "unat (of_nat (0x80 + y) :: u8) = 0x80 + y" by (rule cont_byte(1) [OF assms(4)])
  have w: "of_nat (0xE0 + x) = (b :: u8) \<longleftrightarrow> 0xE0 + x = unat b" for b using u(1) by (metis word_unat_eq_iff)
  have a: "unat (ucast ((of_nat (0xE0 + x) :: u8) AND 0x0F) :: u32) = x"
    unfolding unat_ucast unat_utf8_bits u using assms(1) by simp
  consider "x = 0" | "x = 13" | "x \<noteq> 0" "x \<noteq> 13" by blast
  then show ?thesis
  proof cases
    case 1
    then show ?thesis unfolding utf8_lead_def word_le_nat_alt word_less_nat_alt w u(1) uy using assms by simp
  next
    case 2
    then show ?thesis unfolding utf8_lead_def word_le_nat_alt word_less_nat_alt w u(1) uy using assms by simp
  next
    case 3
    then show ?thesis unfolding utf8_lead_def word_le_nat_alt word_less_nat_alt w u(1) uy using assms a by simp
  qed
qed

lemma utf8_three:
  assumes "is_scalar c" and "0x800 \<le> unat c" and "unat c < 0x10000"
  shows "from_utf8_lossy (utf8_char c @ bs) = c # from_utf8_lossy bs"
proof -
  define x y z where "x = unat c div 4096" and "y = unat c div 64 mod 64" and "z = unat c mod 64"
  have "unat c = (unat c div 64 div 64 * 64 + unat c div 64 mod 64) * 64 + unat c mod 64" by simp
  then have c: "unat c = (x * 64 + y) * 64 + z" by (simp only: x_def y_def z_def div_mult2_eq [symmetric]) simp
  have b: "x < 16" "y < 64" "z < 64" using assms(3) by (simp_all add: x_def y_def z_def less_mult_imp_div_less)
  have s: "unat c < 0xD800 \<or> 0xE000 \<le> unat c" using assms(1) by (auto simp: is_scalar_def word_le_nat_alt word_less_nat_alt)
  have "x = 0 \<Longrightarrow> 32 \<le> y" using c assms(2) b by simp
  moreover have "x = 13 \<Longrightarrow> y < 32" using c s b by simp
  ultimately obtain lo hi acc where l: "utf8_lead (of_nat (0xE0 + x)) = Some (2, lo, hi, acc)" "unat acc = x"
    "lo \<le> of_nat (0x80 + y)" "of_nat (0x80 + y) \<le> hi" using lead_three b by blast
  have e: "utf8_char c = [of_nat (0xE0 + x), of_nat (0x80 + y), of_nat (0x80 + z)]"
    using assms(2,3) by (simp add: utf8_char_def Let_def x_def y_def z_def)
  have ua: "unat (of_nat (unat acc * 64 + y) :: u32) = x * 64 + y" using l(2) b by (simp add: unat_of_nat del: of_nat_add of_nat_mult)
  have "utf8_rest 2 lo hi acc (of_nat (0x80 + y) # of_nat (0x80 + z) # bs) = (Some (of_nat ((x * 64 + y) * 64 + z)), bs)"
    unfolding numeral_2_eq_2
    using cont_step [of acc y lo hi "Suc 0" "of_nat (0x80 + z) # bs"] cont_step [of "of_nat (unat acc * 64 + y)" z "0x80" "0xBF" 0 bs]
      l(2-4) b ua cont_byte(3,4) [OF b(3)] by (simp del: of_nat_add of_nat_mult)
  then have r: "utf8_rest 2 lo hi acc (of_nat (0x80 + y) # of_nat (0x80 + z) # bs) = (Some c, bs)"
    by (simp only: c [symmetric] of_nat_unat ucast_id)
  show ?thesis unfolding e append_Cons append_Nil from_utf8_lossy.simps l(1) r option.case prod.case fst_conv snd_conv by simp
qed


lemma lead_four:
  assumes "x < 5" and "x = 0 \<Longrightarrow> 16 \<le> y" and "x = 4 \<Longrightarrow> y < 16" and "y < 64"
  shows "\<exists>lo hi acc. utf8_lead (of_nat (0xF0 + x)) = Some (3, lo, hi, acc) \<and> unat acc = x \<and>
    lo \<le> (of_nat (0x80 + y) :: u8) \<and> of_nat (0x80 + y) \<le> hi"
proof -
  have u: "unat (of_nat (0xF0 + x) :: u8) = 0xF0 + x" "(0xF0 + x) mod 8 = x" using lead_byte [of "0xF0" x 8] assms(1) by simp_all
  have uy: "unat (of_nat (0x80 + y) :: u8) = 0x80 + y" by (rule cont_byte(1) [OF assms(4)])
  have w: "of_nat (0xF0 + x) = (b :: u8) \<longleftrightarrow> 0xF0 + x = unat b" for b using u(1) by (metis word_unat_eq_iff)
  have a: "unat (ucast ((of_nat (0xF0 + x) :: u8) AND 0x07) :: u32) = x"
    unfolding unat_ucast unat_utf8_bits u using assms(1) by simp
  consider "x = 0" | "x = 4" | "x \<noteq> 0" "x < 4" using assms(1) by linarith
  then show ?thesis
  proof cases
    case 1
    then show ?thesis unfolding utf8_lead_def word_le_nat_alt word_less_nat_alt w u(1) uy using assms by simp
  next
    case 2
    then show ?thesis unfolding utf8_lead_def word_le_nat_alt word_less_nat_alt w u(1) uy using assms by simp
  next
    case 3
    then show ?thesis unfolding utf8_lead_def word_le_nat_alt word_less_nat_alt w u(1) uy using assms a by simp
  qed
qed

lemma utf8_four:
  assumes "is_scalar c" and "0x10000 \<le> unat c"
  shows "from_utf8_lossy (utf8_char c @ bs) = c # from_utf8_lossy bs"
proof -
  define x y z t where "x = unat c div 262144" and "y = unat c div 4096 mod 64" and "z = unat c div 64 mod 64" and "t = unat c mod 64"
  have hi: "unat c < 0x110000" using assms by (auto simp: is_scalar_def word_le_nat_alt word_less_nat_alt)
  have "unat c = ((unat c div 64 div 64 div 64 * 64 + unat c div 64 div 64 mod 64) * 64 + unat c div 64 mod 64) * 64 + unat c mod 64" by simp
  then have c: "unat c = ((x * 64 + y) * 64 + z) * 64 + t" by (simp only: x_def y_def z_def t_def div_mult2_eq [symmetric]) simp
  have b: "x < 5" "y < 64" "z < 64" "t < 64" using hi by (simp_all add: x_def y_def z_def t_def less_mult_imp_div_less)
  have "x = 0 \<Longrightarrow> 16 \<le> y" using c assms(2) b by simp
  moreover have "x = 4 \<Longrightarrow> y < 16" using c hi b by simp
  ultimately obtain lo hi acc where l: "utf8_lead (of_nat (0xF0 + x)) = Some (3, lo, hi, acc)" "unat acc = x"
    "lo \<le> of_nat (0x80 + y)" "of_nat (0x80 + y) \<le> hi" using lead_four b by blast
  have e: "utf8_char c = [of_nat (0xF0 + x), of_nat (0x80 + y), of_nat (0x80 + z), of_nat (0x80 + t)]"
    using assms(2) by (simp add: utf8_char_def Let_def x_def y_def z_def t_def)
  have ua: "unat (of_nat (x * 64 + y) :: u32) = x * 64 + y" using b by (simp add: unat_of_nat del: of_nat_add of_nat_mult)
  have ub: "unat (of_nat ((x * 64 + y) * 64 + z) :: u32) = (x * 64 + y) * 64 + z" using b by (simp add: unat_of_nat del: of_nat_add of_nat_mult)
  have "utf8_rest 3 lo hi acc (of_nat (0x80 + y) # of_nat (0x80 + z) # of_nat (0x80 + t) # bs) = (Some (of_nat (((x * 64 + y) * 64 + z) * 64 + t)), bs)"
    unfolding numeral_3_eq_3
    using cont_step [of acc y lo hi "Suc (Suc 0)" "of_nat (0x80 + z) # of_nat (0x80 + t) # bs"]
      cont_step [of "of_nat (x * 64 + y)" z "0x80" "0xBF" "Suc 0" "of_nat (0x80 + t) # bs"]
      cont_step [of "of_nat ((x * 64 + y) * 64 + z)" t "0x80" "0xBF" 0 bs]
      l(2-4) b ua ub cont_byte(3,4) [OF b(3)] cont_byte(3,4) [OF b(4)] by (simp del: of_nat_add of_nat_mult)
  then have r: "utf8_rest 3 lo hi acc (of_nat (0x80 + y) # of_nat (0x80 + z) # of_nat (0x80 + t) # bs) = (Some c, bs)"
    by (simp only: c [symmetric] of_nat_unat ucast_id)
  show ?thesis unfolding e append_Cons append_Nil from_utf8_lossy.simps l(1) r option.case prod.case fst_conv snd_conv by simp
qed

lemma from_utf8_lossy_char:
  assumes "is_scalar c"
  shows "from_utf8_lossy (utf8_char c @ bs) = c # from_utf8_lossy bs"
proof (cases "unat c < 0x80")
  case True
  have "utf8_char c = [of_nat (unat c)]" using True by (simp add: utf8_char_def Let_def)
  moreover have "utf8_lead (of_nat (unat c)) = Some (0, 0, 0, c)"
    using True unat_byte [of "unat c"] by (simp add: utf8_lead_def word_less_nat_alt word_unat_eq_iff unat_ucast)
  ultimately show ?thesis by simp
next
  case False
  then show ?thesis using utf8_two [of c] utf8_three [OF assms] utf8_four [OF assms] by (meson not_less)
qed

lemma from_utf8_lossy_as_bytes: "list_all is_scalar s \<Longrightarrow> from_utf8_lossy (as_bytes s) = s"
  by (induction s) (simp_all add: as_bytes_def from_utf8_lossy_char)

end
