(* ===== verification/Lvm_Text.thy ===== *)
theory Lvm_Text
  imports Block_Device Rust_Text
begin

text \<open>
  The metadata text of LVM2 (\<open>lvm.rs\<close>): the errors of the module, the values of the text's
  grammar and its parser.

  A Rust \<open>String\<close> is a list of Unicode scalar values. An error message is kept as the pieces
  handed to \<open>format!\<close>, not as the text the formatter makes of them. The parser's position in
  the text is the list of bytes that are left; the nesting depth is an argument, since the
  source counts it up on entry and down on a successful exit.
\<close>

section \<open>Errors\<close>

datatype piece = S string | U ustring | Q ustring | N nat | X nat | I int

type_synonym message = "piece list"

datatype lvm_error =
    LvmBlock fs_error
  | NoLabel nat
  | LvmBadChecksum nat string
  | LvmCorrupt message
  | Syntax nat message
  | NoSuchVolume ustring
  | MissingPv ustring
  | LvmUnsupported message

section \<open>Values\<close>

datatype lvm_value =
    VInt int
  | VStr ustring
  | VList "lvm_value list"
  | VSection "(ustring \<times> lvm_value) list"

type_synonym lvm_section = "(ustring \<times> lvm_value) list"

text \<open>A string literal, as scalar values and as bytes.\<close>

definition ustr :: "string \<Rightarrow> ustring" where
  "ustr s = map (\<lambda>c. of_nat (of_char c)) s"

definition bstr :: "string \<Rightarrow> u8 list" where
  "bstr s = map (\<lambda>c. of_nat (of_char c)) s"

definition sec_get :: "lvm_section \<Rightarrow> ustring \<Rightarrow> lvm_value option" where
  "sec_get sec key = map_option snd (List.find (\<lambda>(k, _). k = key) sec)"

definition sec_int :: "lvm_section \<Rightarrow> ustring \<Rightarrow> lvm_error + int" where
  "sec_int sec key =
     (case sec_get sec key of
        Some (VInt i) \<Rightarrow> Ok i
      | _ \<Rightarrow> Err (LvmCorrupt [U key, S '': expected an integer'']))"

definition sec_uint :: "lvm_section \<Rightarrow> ustring \<Rightarrow> lvm_error + u64" where
  "sec_uint sec key =
     rbind (sec_int sec key) (\<lambda>i.
       if i < 0 then Err (LvmCorrupt [U key, S '': negative'']) else Ok (of_int i))"

definition sec_str :: "lvm_section \<Rightarrow> ustring \<Rightarrow> lvm_error + ustring" where
  "sec_str sec key =
     (case sec_get sec key of
        Some (VStr s) \<Rightarrow> Ok s
      | _ \<Rightarrow> Err (LvmCorrupt [U key, S '': expected a string'']))"

definition sec_section :: "lvm_section \<Rightarrow> ustring \<Rightarrow> lvm_error + lvm_section" where
  "sec_section sec key =
     (case sec_get sec key of
        Some (VSection s) \<Rightarrow> Ok s
      | _ \<Rightarrow> Err (LvmCorrupt [U key, S '': expected a section'']))"

definition sec_sections :: "lvm_section \<Rightarrow> (ustring \<times> lvm_section) list" where
  "sec_sections sec = List.map_filter (\<lambda>(k, v). case v of VSection s \<Rightarrow> Some (k, s) | _ \<Rightarrow> None) sec"

section \<open>The parser\<close>

text \<open>The bytes left and the line number.\<close>

type_synonym position = "u8 list \<times> nat"

function skip :: "u8 list \<Rightarrow> nat \<Rightarrow> position" where
  "skip [] line = ([], line)"
| "skip (c # cs) line =
     (if c = 10 then skip cs (line + 1)
      else if c = 32 \<or> c = 9 \<or> c = 13 then skip cs line
      else if c = 35 then skip (dropWhile (\<lambda>c. c \<noteq> 10) cs) line
      else (c # cs, line))"
  by pat_completeness auto
termination
  by (relation "measure (\<lambda>(cs, _). length cs)") (auto simp: le_imp_less_Suc length_dropWhile_le)

definition is_digit :: "u8 \<Rightarrow> bool" where
  "is_digit c \<longleftrightarrow> 48 \<le> c \<and> c \<le> 57"

definition is_ident_byte :: "u8 \<Rightarrow> bool" where
  "is_ident_byte c \<longleftrightarrow> is_digit c \<or> 65 \<le> c \<and> c \<le> 90 \<or> 97 \<le> c \<and> c \<le> 122 \<or> c \<in> set (bstr ''_.-+'')"

definition p_ident :: "u8 list \<Rightarrow> nat \<Rightarrow> lvm_error + ustring \<times> position" where
  "p_ident cs line =
     (let (cs, line) = skip cs line; name = takeWhile is_ident_byte cs in
      if name = [] then Err (Syntax line [S ''expected a name''])
      else Ok (from_utf8_lossy name, dropWhile is_ident_byte cs, line))"

text \<open>\<open>str::parse\<close> of an \<open>i64\<close> for the bytes the scanner accepts: an optional sign and digits.\<close>

definition digits_value :: "u8 list \<Rightarrow> nat" where
  "digits_value ds = foldl (\<lambda>n d. 10 * n + (unat d - 48)) 0 ds"

definition parse_i64 :: "u8 list \<Rightarrow> int option" where
  "parse_i64 t =
     (let neg = (t \<noteq> [] \<and> hd t = 45); ds = (if neg then tl t else t);
          v = (if neg then - int (digits_value ds) else int (digits_value ds))
      in if ds = [] \<or> \<not> list_all is_digit ds \<or> v < - (2 ^ 63) \<or> v \<ge> 2 ^ 63 then None else Some v)"

text \<open>The rest of a quoted string, its opening quote consumed.\<close>

fun p_string :: "u8 list \<Rightarrow> nat \<Rightarrow> u8 list \<Rightarrow> lvm_error + ustring \<times> position" where
  "p_string [] line out = Err (Syntax line [S ''unterminated string''])"
| "p_string (c # cs) line out =
     (if c = 34 then Ok (from_utf8_lossy out, cs, line)
      else if c = 92 then
        (case cs of
           [] \<Rightarrow> Err (Syntax line [S ''unterminated string''])
         | e # es \<Rightarrow> p_string es line (out @ [e]))
      else p_string cs (if c = 10 then line + 1 else line) (out @ [c]))"

text \<open>
  Values. Every list inside a list is a call of \<open>value\<close> inside a call of \<open>value\<close>, and nothing in
  the source limits how deep they nest: \<open>room\<close> is the number of such calls that fit on the stack,
  and one more is the overflow that ends the process, \<open>no_stack\<close>. The fuel bounds the number of
  steps; running out of it is the error \<open>no_fuel\<close>, which the source has no counterpart of and
  which twice the bytes left, and a bit, rules out.
\<close>

definition no_fuel :: lvm_error where
  "no_fuel = LvmBlock (Panicked ''out of fuel'')"

definition no_stack :: lvm_error where
  "no_stack = LvmBlock (Panicked ''stack overflow'')"

fun p_value :: "nat \<Rightarrow> nat \<Rightarrow> u8 list \<Rightarrow> nat \<Rightarrow> lvm_error + lvm_value \<times> position"
and p_items :: "nat \<Rightarrow> nat \<Rightarrow> u8 list \<Rightarrow> nat \<Rightarrow> lvm_error + lvm_value list \<times> position" where
  "p_value room 0 cs line = Err no_fuel"
| "p_value room (Suc n) cs line =
     (if room = 0 then Err no_stack
      else case skip cs line of
        ([], line) \<Rightarrow> Err (Syntax line [S ''expected a value''])
      | (c # cs, line) \<Rightarrow>
          if c = 34 then map_ok (\<lambda>(s, pos). (VStr s, pos)) (p_string cs line [])
          else if c = 91 then map_ok (\<lambda>(vs, pos). (VList vs, pos)) (p_items (room - 1) n cs line)
          else if c = 45 \<or> is_digit c then
            let t = c # takeWhile is_digit cs in
            (case parse_i64 t of
               Some i \<Rightarrow> Ok (VInt i, dropWhile is_digit cs, line)
             | None \<Rightarrow> Err (Syntax line [S ''bad integer '', U (from_utf8_lossy t)]))
          else Err (Syntax line [S ''expected a value'']))"
| "p_items room 0 cs line = Err no_fuel"
| "p_items room (Suc n) cs line =
     (case skip cs line of
        ([], line) \<Rightarrow> Err (Syntax line [S ''unterminated list''])
      | (c # cs, line) \<Rightarrow>
          if c = 93 then Ok ([], cs, line)
          else if c = 44 then p_items room n cs line
          else rbind (p_value room n (c # cs) line) (\<lambda>(v, cs, line).
               map_ok (\<lambda>(vs, pos). (v # vs, pos)) (p_items room n cs line)))"

text \<open>
  The body of a section, after its opening brace: its keys up to the closing one. Sections nest
  at most 32 deep, so \<open>room\<close> is what their calls leave of the stack.
\<close>

fun p_section :: "nat \<Rightarrow> nat \<Rightarrow> bool \<Rightarrow> nat \<Rightarrow> u8 list \<Rightarrow> nat \<Rightarrow> lvm_error + lvm_section \<times> position"
and p_entries :: "nat \<Rightarrow> nat \<Rightarrow> bool \<Rightarrow> nat \<Rightarrow> u8 list \<Rightarrow> nat \<Rightarrow> lvm_error + lvm_section \<times> position" where
  "p_section room n outer depth cs line =
     (if depth + 1 > 32 then Err (Syntax line [S ''sections nested too deep''])
      else p_entries room n outer (depth + 1) cs line)"
| "p_entries room 0 outer depth cs line = Err no_fuel"
| "p_entries room (Suc n) outer depth cs line =
     (case skip cs line of
        ([], line) \<Rightarrow> if outer then Ok ([], [], line) else Err (Syntax line [S ''unterminated section''])
      | (c # cs, line) \<Rightarrow>
          if c = 125 \<and> \<not> outer then Ok ([], cs, line)
          else rbind (p_ident (c # cs) line) (\<lambda>(key, cs, line).
            case skip cs line of
              (c # cs, line) \<Rightarrow>
                if c = 123 then
                  rbind (p_section room n False depth cs line) (\<lambda>(s, cs, line).
                    map_ok (\<lambda>(es, pos). ((key, VSection s) # es, pos)) (p_entries room n outer depth cs line))
                else if c = 61 then
                  rbind (p_value room (2 * length cs + 2) cs line) (\<lambda>(v, cs, line).
                    map_ok (\<lambda>(es, pos). ((key, v) # es, pos)) (p_entries room n outer depth cs line))
                else Err (Syntax line [S ''expected '=' or '{' after '', U key])
            | ([], line) \<Rightarrow> Err (Syntax line [S ''expected '=' or '{' after '', U key])))"

text \<open>
  The parser on a stack with \<open>room\<close> for that many nested values, and on one that is deep enough
  for the text: what the rest of the library works with.
\<close>

definition parse_bytes_on :: "nat \<Rightarrow> u8 list \<Rightarrow> lvm_error + lvm_section" where
  "parse_bytes_on room b = map_ok fst (p_section room (length b + 1) True 0 b 1)"

definition parse_bytes :: "u8 list \<Rightarrow> lvm_error + lvm_section" where
  "parse_bytes b = parse_bytes_on (length b + 1) b"

definition parse_metadata :: "ustring \<Rightarrow> lvm_error + lvm_section" where
  "parse_metadata text = parse_bytes (as_bytes text)"

text \<open>How many calls of \<open>value\<close> are nested to read a value, or the values of a section.\<close>

fun list_depth :: "lvm_value \<Rightarrow> nat" where
  "list_depth (VInt i) = 1"
| "list_depth (VStr s) = 1"
| "list_depth (VList vs) = Suc (foldr max (map list_depth vs) 0)"
| "list_depth (VSection es) = foldr max (map (\<lambda>e. list_depth (snd e)) es) 0"


section \<open>The parser ends\<close>

lemma skip_shorter: "length (fst (skip cs line)) \<le> length cs"
proof (induction cs line rule: skip.induct)
  case (2 c cs line)
  then show ?case using length_dropWhile_le [of "\<lambda>c. c \<noteq> 10" cs] by (auto simp: le_SucI)
qed simp

lemma skip_eq_shorter: "skip cs line = (cs', line') \<Longrightarrow> length cs' \<le> length cs"
  using skip_shorter [of cs line] by simp

lemma p_ident_shorter: "p_ident cs line = Ok (name, cs', line') \<Longrightarrow> length cs' < length cs"
proof -
  assume a: "p_ident cs line = Ok (name, cs', line')"
  obtain ds l where s: "skip cs line = (ds, l)" by (cases "skip cs line")
  have d: "takeWhile is_ident_byte ds \<noteq> []" "cs' = dropWhile is_ident_byte ds"
    using a s by (auto simp: p_ident_def Let_def split: if_splits)
  have "length (takeWhile is_ident_byte ds) + length (dropWhile is_ident_byte ds) = length ds"
    by (metis length_append takeWhile_dropWhile_id)
  then have "length cs' < length ds" using d by (cases "takeWhile is_ident_byte ds") simp_all
  then show ?thesis using skip_eq_shorter [OF s] by simp
qed

lemma p_string_shorter: "p_string cs line out = Ok (s, cs', line') \<Longrightarrow> length cs' < length cs"
  by (induction cs line out rule: p_string.induct) (auto split: if_splits list.splits)

lemma dropWhile_shorter: "length (dropWhile P xs) < Suc (length xs)"
  by (simp add: le_imp_less_Suc length_dropWhile_le)

lemma p_value_step:
  assumes "p_value room (Suc n) cs line = Ok (v, cs', line')"
    and "\<And>room ds l vs cs' line'. p_items room n ds l = Ok (vs, cs', line') \<Longrightarrow> length cs' < length ds"
  shows "length cs' < length cs"
proof -
  obtain ds l where s: "skip cs line = (ds, l)" by (cases "skip cs line")
  note le = skip_eq_shorter [OF s]
  obtain c es where ds: "ds = c # es" using assms(1) s by (cases ds) (auto split: if_splits)
  have "length cs' < length (c # es)"
    using assms(1) s ds dropWhile_shorter [of is_digit es]
    by (auto split: if_splits option.splits dest!: p_string_shorter assms(2) simp: Let_def)
  then show ?thesis using le ds by simp
qed

lemma p_items_step:
  assumes "p_items room (Suc n) cs line = Ok (vs, cs', line')"
    and "\<And>ds l v cs' line'. p_value room n ds l = Ok (v, cs', line') \<Longrightarrow> length cs' < length ds"
    and "\<And>ds l vs cs' line'. p_items room n ds l = Ok (vs, cs', line') \<Longrightarrow> length cs' < length ds"
  shows "length cs' < length cs"
proof -
  obtain ds l where s: "skip cs line = (ds, l)" by (cases "skip cs line")
  note le = skip_eq_shorter [OF s]
  obtain c es where ds: "ds = c # es" using assms(1) s by (cases ds) auto
  have "length cs' < length (c # es)"
    using assms(1) s ds by (auto split: if_splits dest!: assms(2,3))
  then show ?thesis using le ds by simp
qed

lemma p_value_shorter:
  "p_value room n cs line = Ok (v, cs', line') \<Longrightarrow> length cs' < length cs"
  "p_items room n cs line = Ok (vs, cs', line') \<Longrightarrow> length cs' < length cs"
proof (induction n arbitrary: room cs line v vs cs' line')
  case (Suc n)
  { case 1 then show ?case using p_value_step Suc.IH(2) by blast }
  { case 2 then show ?case using p_items_step Suc.IH by blast }
qed simp_all

definition is_syntax :: "lvm_error \<Rightarrow> bool" where
  "is_syntax e \<longleftrightarrow> (\<exists>line m. e = Syntax line m)"

lemma is_syntax_Syntax [simp]: "is_syntax (Syntax line m)"
  by (simp add: is_syntax_def)

lemma p_ident_errors: "p_ident cs line = Err e \<Longrightarrow> is_syntax e"
  by (auto simp: p_ident_def Let_def split: prod.splits if_splits)

lemma p_string_errors: "p_string cs line out = Err e \<Longrightarrow> is_syntax e"
proof -
  have "case p_string cs line out of Inl e \<Rightarrow> is_syntax e | Inr _ \<Rightarrow> True"
    by (induction cs line out rule: p_string.induct) (auto split: list.splits)
  then show "p_string cs line out = Err e \<Longrightarrow> is_syntax e" by simp
qed

text \<open>A failure of the parser: a syntax error, or an overflow, and then the stack has not the room for the text.\<close>

definition fails_with :: "nat \<Rightarrow> u8 list \<Rightarrow> lvm_error \<Rightarrow> bool" where
  "fails_with room cs e \<longleftrightarrow> is_syntax e \<or> e = no_stack \<and> room \<le> length cs"

lemma fails_with_syntax [intro]: "is_syntax e \<Longrightarrow> fails_with room cs e"
  by (simp add: fails_with_def)

lemma fails_with_mono: "fails_with room cs e \<Longrightarrow> length cs \<le> length ds \<Longrightarrow> fails_with room ds e"
  by (auto simp: fails_with_def)

lemma fails_with_inner: "fails_with (room - 1) cs e \<Longrightarrow> length cs < length ds \<Longrightarrow> fails_with room ds e"
  by (auto simp: fails_with_def)

lemma p_value_errors:
  "2 * length cs < n \<Longrightarrow> p_value room n cs line = Err e \<Longrightarrow> fails_with room cs e"
  "2 * length cs + 1 < n \<Longrightarrow> p_items room n cs line = Err e \<Longrightarrow> fails_with room cs e"
proof (induction n arbitrary: room cs line e)
  case (Suc n)
  {
    case 1
    obtain ds l where s: "skip cs line = (ds, l)" by (cases "skip cs line")
    have "fails_with room cs e" if "p_items (room - 1) n es l = Err e" "ds = c # es" for c es
      using skip_eq_shorter [OF s] 1(1) that by (intro fails_with_inner [OF Suc.IH(2) [of es "room - 1" l]]) simp_all
    then show ?case using s 1(2)
      by (auto simp: Let_def fails_with_def split: list.splits option.splits if_splits dest: p_string_errors)
  next
    case 2
    obtain ds l where s: "skip cs line = (ds, l)" by (cases "skip cs line")
    show ?case
    proof (cases ds)
      case (Cons c es)
      have n: "2 * length (c # es) < n" "length (c # es) \<le> length cs" using skip_eq_shorter [OF s] 2 Cons by simp_all
      have "fails_with room cs e" if "p_value room n (c # es) l = Ok (v, fs, l1)" "p_items room n fs l1 = Err e" for v fs l1
        using p_value_shorter(1) [OF that(1)] n that(2) by (intro fails_with_mono [OF Suc.IH(2) [of fs room l1]]) simp_all
      moreover have "fails_with room cs e" if "p_items room n es l = Err e"
        using n that by (intro fails_with_mono [OF Suc.IH(2) [of es room l]]) simp_all
      moreover have "fails_with room cs e" if "p_value room n (c # es) l = Err e"
        using n that by (intro fails_with_mono [OF Suc.IH(1) [of "c # es" room l]]) simp_all
      ultimately show ?thesis using s Cons 2(2) by (auto simp: rbind_eq_Err split: if_splits)
    qed (use s 2(2) in auto)
  }
qed simp_all

text \<open>One round of the loop over a section's keys, past the end of the section.\<close>

lemma p_entries_round:
  assumes "skip cs line = (c # fs, l)" and "\<not> (c = 125 \<and> \<not> outer)" and "p_entries room (Suc n) outer depth cs line = r"
  obtains (ident) e where "p_ident (c # fs) l = Err e" and "r = Err e"
  | (junk) line' m where "r = Err (Syntax line' m)"
  | (nested) key cs1 l1 cs2 l2 where "p_ident (c # fs) l = Ok (key, cs1, l1)" and "skip cs1 l1 = (123 # cs2, l2)"
      and "rbind (p_section room n False depth cs2 l2) (\<lambda>(s, cs, line).
        map_ok (\<lambda>(es, pos). ((key, VSection s) # es, pos)) (p_entries room n outer depth cs line)) = r"
  | (val) key cs1 l1 cs2 l2 where "p_ident (c # fs) l = Ok (key, cs1, l1)" and "skip cs1 l1 = (61 # cs2, l2)"
      and "rbind (p_value room (2 * length cs2 + 2) cs2 l2) (\<lambda>(v, cs, line).
        map_ok (\<lambda>(es, pos). ((key, v) # es, pos)) (p_entries room n outer depth cs line)) = r"
proof (cases "p_ident (c # fs) l")
  case (Inl e)
  then show thesis using ident assms by auto
next
  case (Inr x)
  then obtain key cs1 l1 where x: "p_ident (c # fs) l = Ok (key, cs1, l1)" by (cases x) auto
  obtain ds l2 where s: "skip cs1 l1 = (ds, l2)" by (cases "skip cs1 l1")
  show thesis
  proof (cases ds)
    case Nil
    then show thesis using junk assms x s by auto
  next
    case (Cons c2 cs2)
    consider "c2 = 123" | "c2 = 61" | "c2 \<noteq> 123" "c2 \<noteq> 61" by blast
    then show thesis
    proof cases
      case 1
      then show thesis using nested [OF x, of cs2 l2] s Cons assms x by auto
    next
      case 2
      then show thesis using val [OF x, of cs2 l2] s Cons assms x by auto
    next
      case 3
      then show thesis using junk assms x s Cons by auto
    qed
  qed
qed

lemma p_entries_shorter:
  "p_section room n outer depth cs line = Ok (es, cs', line') \<Longrightarrow> length cs' \<le> length cs"
  "p_entries room n outer depth cs line = Ok (es, cs', line') \<Longrightarrow> length cs' \<le> length cs"
proof (induction n arbitrary: outer depth cs line es cs' line')
  case (Suc n)
  have E: "length cs' \<le> length cs" if a: "p_entries room (Suc n) outer depth cs line = Ok (es, cs', line')" for outer depth cs line es cs' line'
  proof -
    obtain ds l where s: "skip cs line = (ds, l)" by (cases "skip cs line")
    note le = skip_eq_shorter [OF s]
    show ?thesis
    proof (cases "\<exists>c fs. ds = c # fs \<and> \<not> (c = 125 \<and> \<not> outer)")
      case False
      then show ?thesis using a s le by (cases ds) (auto split: if_splits)
    next
      case True
      then obtain c fs where ds: "ds = c # fs" "\<not> (c = 125 \<and> \<not> outer)" by blast
      from s [unfolded ds(1)] ds(2) a show ?thesis
      proof (cases rule: p_entries_round)
        case (nested key cs1 l1 cs2 l2)
        from nested(3) obtain sec cs3 l3 fs3 where "p_section room n False depth cs2 l2 = Ok (sec, cs3, l3)"
          "p_entries room n outer depth cs3 l3 = Ok (fs3, cs', line')" by (auto simp del: p_section.simps)
        from Suc.IH(1) [OF this(1)] Suc.IH(2) [OF this(2)] show ?thesis
          using p_ident_shorter [OF nested(1)] skip_eq_shorter [OF nested(2)] le ds by simp
      next
        case (val key cs1 l1 cs2 l2)
        from val(3) obtain v cs3 l3 fs3 where "p_value room (2 * length cs2 + 2) cs2 l2 = Ok (v, cs3, l3)"
          "p_entries room n outer depth cs3 l3 = Ok (fs3, cs', line')" by (auto simp del: p_value.simps)
        from p_value_shorter(1) [OF this(1)] Suc.IH(2) [OF this(2)] show ?thesis
          using p_ident_shorter [OF val(1)] skip_eq_shorter [OF val(2)] le ds by simp
      qed auto
    qed
  qed
  { case 1 then show ?case using E by (auto split: if_splits) }
  { case 2 then show ?case by (rule E) }
qed (auto split: if_splits)

lemma p_entries_errors:
  "length cs < n \<Longrightarrow> p_section room n outer depth cs line = Err e \<Longrightarrow> fails_with room cs e"
  "length cs < n \<Longrightarrow> p_entries room n outer depth cs line = Err e \<Longrightarrow> fails_with room cs e"
proof (induction n arbitrary: outer depth cs line e)
  case (Suc n)
  have E: "fails_with room cs e" if len: "length cs < Suc n" and a: "p_entries room (Suc n) outer depth cs line = Err e" for outer depth cs line e
  proof -
    obtain ds l where s: "skip cs line = (ds, l)" by (cases "skip cs line")
    have le: "length ds < Suc n" "length ds \<le> length cs" using skip_eq_shorter [OF s] len by simp_all
    show ?thesis
    proof (cases "\<exists>c fs. ds = c # fs \<and> \<not> (c = 125 \<and> \<not> outer)")
      case False
      then show ?thesis using a s by (cases ds) (auto split: if_splits)
    next
      case True
      then obtain c fs where ds: "ds = c # fs" "\<not> (c = 125 \<and> \<not> outer)" by blast
      from s [unfolded ds(1)] ds(2) a show ?thesis
      proof (cases rule: p_entries_round)
        case (nested key cs1 l1 cs2 l2)
        have n: "length cs2 < n" "length cs2 \<le> length cs"
          using p_ident_shorter [OF nested(1)] skip_eq_shorter [OF nested(2)] le ds by simp_all
        from nested(3) consider "p_section room n False depth cs2 l2 = Err e"
          | v es l3 where "p_section room n False depth cs2 l2 = Ok (v, es, l3)" "p_entries room n outer depth es l3 = Err e"
          by (auto simp: rbind_eq_Err simp del: p_section.simps)
        then show ?thesis
        proof cases
          case 1 show ?thesis by (rule fails_with_mono [OF Suc.IH(1) [OF n(1) 1] n(2)])
        next
          case (2 v es l3)
          have "length es \<le> length cs2" by (rule p_entries_shorter(1) [OF 2(1)])
          then show ?thesis using n by (intro fails_with_mono [OF Suc.IH(2) [OF _ 2(2)]]) simp_all
        qed
      next
        case (val key cs1 l1 cs2 l2)
        have n: "length cs2 < n" "length cs2 \<le> length cs"
          using p_ident_shorter [OF val(1)] skip_eq_shorter [OF val(2)] le ds by simp_all
        from val(3) consider "p_value room (2 * length cs2 + 2) cs2 l2 = Err e"
          | v es l3 where "p_value room (2 * length cs2 + 2) cs2 l2 = Ok (v, es, l3)" "p_entries room n outer depth es l3 = Err e"
          by (auto simp: rbind_eq_Err simp del: p_value.simps)
        then show ?thesis
        proof cases
          case 1 show ?thesis by (rule fails_with_mono [OF p_value_errors(1) [OF _ 1] n(2)]) simp
        next
          case (2 v es l3)
          have "length es < length cs2" by (rule p_value_shorter(1) [OF 2(1)])
          then show ?thesis using n by (intro fails_with_mono [OF Suc.IH(2) [OF _ 2(2)]]) simp_all
        qed
      qed (auto dest: p_ident_errors)
    qed
  qed
  { case 1 then show ?case using E by (auto split: if_splits) }
  { case 2 then show ?case using E by blast }
qed simp_all

section \<open>The room a text needs\<close>

abbreviation values_depth :: "lvm_value list \<Rightarrow> nat" where
  "values_depth vs \<equiv> foldr max (map list_depth vs) 0"

abbreviation section_depth :: "lvm_section \<Rightarrow> nat" where
  "section_depth es \<equiv> list_depth (VSection es)"

lemma p_value_list:
  assumes "skip cs line = (91 # ds, l)"
  shows "p_value room (Suc n) cs line =
    (if room = 0 then Err no_stack else map_ok (\<lambda>(vs, pos). (VList vs, pos)) (p_items (room - 1) n ds l))"
  using assms by simp

lemma p_items_item:
  assumes "skip cs line = (c # es, l)" and "c \<noteq> 93" and "c \<noteq> 44"
  shows "p_items room (Suc n) cs line = rbind (p_value room n (c # es) l) (\<lambda>(v, cs, line).
    map_ok (\<lambda>(vs, pos). (v # vs, pos)) (p_items room n cs line))"
  using assms by simp

lemma items_cases:
  assumes "skip cs line = (ds, l)"
  obtains (item) c es where "skip cs line = (c # es, l)" "c \<noteq> 93" "c \<noteq> 44"
  | (comma) es where "skip cs line = (44 # es, l)"
  | (plain) "skip cs line = ([], l) \<or> (\<exists>es. skip cs line = (93 # es, l))"
  using assms by (cases ds) auto

lemma p_value_plain:
  assumes "\<nexists>ds l. skip cs line = (91 # ds, l)"
  shows "p_value room (Suc n) cs line = (if room = 0 then Err no_stack else p_value 1 (Suc n) cs line)"
    and "p_value 1 (Suc n) cs line \<noteq> Err no_stack"
    and "p_value 1 (Suc n) cs line = Ok (v, pos) \<Longrightarrow> list_depth v = 1"
proof -
  obtain ds l where s: "skip cs line = (ds, l)" by (cases "skip cs line")
  have d: "\<And>es. ds \<noteq> 91 # es" using assms s by auto
  have st: "p_string es l out \<noteq> Err no_stack" for es out using p_string_errors [of es l out no_stack] by (auto simp: is_syntax_def no_stack_def)
  show "p_value room (Suc n) cs line = (if room = 0 then Err no_stack else p_value 1 (Suc n) cs line)"
    using s d by (auto split: list.splits)
  show "p_value 1 (Suc n) cs line \<noteq> Err no_stack"
    using s d st by (auto simp: Let_def no_stack_def split: list.splits option.splits)
  show "list_depth v = 1" if "p_value 1 (Suc n) cs line = Ok (v, pos)"
    using that s d by (auto simp: Let_def split: list.splits option.splits if_splits)
qed

text \<open>
  What a value needs is its depth: it is read with that room and not with less, and more room
  changes no answer but an overflow.
\<close>

lemma p_value_room:
  "p_value room n cs line = Ok (v, pos) \<Longrightarrow>
     list_depth v \<le> room \<and> (\<forall>room'. list_depth v \<le> room' \<longrightarrow> p_value room' n cs line = Ok (v, pos))"
  "p_items room n cs line = Ok (vs, pos) \<Longrightarrow>
     values_depth vs \<le> room \<and> (\<forall>room'. values_depth vs \<le> room' \<longrightarrow> p_items room' n cs line = Ok (vs, pos))"
proof (induction n arbitrary: room cs line v vs pos)
  case (Suc n)
  {
    case 1
    show ?case
    proof (cases "\<exists>ds l. skip cs line = (91 # ds, l)")
      case True
      then obtain ds l where s: "skip cs line = (91 # ds, l)" by blast
      obtain vs where vs: "p_items (room - 1) n ds l = Ok (vs, pos)" "v = VList vs" "room \<noteq> 0"
        using 1 unfolding p_value_list [OF s] by (auto split: if_splits)
      show ?thesis using Suc.IH(2) [OF vs(1)] vs(2,3) unfolding p_value_list [OF s] by auto
    next
      case False
      note pl = p_value_plain [OF False]
      have v: "room \<noteq> 0" "p_value 1 (Suc n) cs line = Ok (v, pos)"
        using 1 pl(1) [of room n] by (simp_all split: if_splits del: p_value.simps)
      have "p_value room' (Suc n) cs line = Ok (v, pos)" if "1 \<le> room'" for room'
        using pl(1) [of room' n] v(2) that by (simp del: p_value.simps)
      then show ?thesis using pl(3) [OF v(2)] v(1) by simp
    qed
  next
    case 2
    obtain ds l where s: "skip cs line = (ds, l)" by (cases "skip cs line")
    then show ?case
    proof (cases rule: items_cases)
      case (item c es)
      obtain v cs1 l1 ws where w: "p_value room n (c # es) l = Ok (v, cs1, l1)" "p_items room n cs1 l1 = Ok (ws, pos)" "vs = v # ws"
        using 2 unfolding p_items_item [OF item] by auto
      show ?thesis using Suc.IH(1) [OF w(1)] Suc.IH(2) [OF w(2)] w(3) unfolding p_items_item [OF item] by simp
    next
      case (comma es)
      then have "p_items r (Suc n) cs line = p_items r n es l" for r by simp
      then show ?thesis using 2 Suc.IH(2) [of room es l vs pos] by simp
    next
      case plain
      then have "p_items r (Suc n) cs line = p_items room (Suc n) cs line" for r by auto
      moreover have "vs = []" using 2 plain by auto
      ultimately show ?thesis using 2 by simp
    qed
  }
qed simp_all

lemma p_value_fails:
  "p_value room n cs line = Err e \<Longrightarrow> e \<noteq> no_stack \<Longrightarrow> room \<le> room' \<Longrightarrow> p_value room' n cs line = Err e"
  "p_items room n cs line = Err e \<Longrightarrow> e \<noteq> no_stack \<Longrightarrow> room \<le> room' \<Longrightarrow> p_items room' n cs line = Err e"
proof (induction n arbitrary: room room' cs line e)
  case (Suc n)
  {
    case 1
    show ?case
    proof (cases "\<exists>ds l. skip cs line = (91 # ds, l)")
      case True
      then obtain ds l where s: "skip cs line = (91 # ds, l)" by blast
      have "room \<noteq> 0" "p_items (room - 1) n ds l = Err e"
        using 1(1,2) unfolding p_value_list [OF s] by (auto split: if_splits)
      then show ?thesis using Suc.IH(2) [of "room - 1" ds l e "room' - 1"] 1(2,3) unfolding p_value_list [OF s] by auto
    next
      case False
      note pl = p_value_plain [OF False]
      have "room \<noteq> 0" "p_value 1 (Suc n) cs line = Err e"
        using 1(1,2) pl(1) [of room n] by (simp_all split: if_splits del: p_value.simps)
      then show ?thesis using pl(1) [of room' n] 1(3) by (simp del: p_value.simps)
    qed
  next
    case 2
    obtain ds l where s: "skip cs line = (ds, l)" by (cases "skip cs line")
    then show ?case
    proof (cases rule: items_cases)
      case (item c es)
      from 2(1) consider (here) "p_value room n (c # es) l = Err e"
        | (later) v cs1 l1 where "p_value room n (c # es) l = Ok (v, cs1, l1)" "p_items room n cs1 l1 = Err e"
        unfolding p_items_item [OF item] by (auto simp: rbind_eq_Err)
      then show ?thesis
      proof cases
        case here
        then show ?thesis using Suc.IH(1) [OF here 2(2,3)] unfolding p_items_item [OF item] by simp
      next
        case later
        have "p_value room' n (c # es) l = Ok (v, cs1, l1)" using p_value_room(1) [OF later(1)] 2(3) by simp
        then show ?thesis using Suc.IH(2) [OF later(2) 2(2,3)] unfolding p_items_item [OF item] by simp
      qed
    next
      case (comma es)
      then have "p_items r (Suc n) cs line = p_items r n es l" for r by simp
      then show ?thesis using 2 Suc.IH(2) [of room es l e room'] by simp
    next
      case plain
      then have "p_items room' (Suc n) cs line = p_items room (Suc n) cs line" by auto
      then show ?thesis using 2(1) by simp
    qed
  }
qed simp_all

lemma p_entries_room:
  "p_section room n outer depth cs line = Ok (es, pos) \<Longrightarrow>
     section_depth es \<le> room \<and> (\<forall>room'. section_depth es \<le> room' \<longrightarrow> p_section room' n outer depth cs line = Ok (es, pos))"
  "p_entries room n outer depth cs line = Ok (es, pos) \<Longrightarrow>
     section_depth es \<le> room \<and> (\<forall>room'. section_depth es \<le> room' \<longrightarrow> p_entries room' n outer depth cs line = Ok (es, pos))"
proof (induction n arbitrary: outer depth cs line es pos)
  case (Suc n)
  have E: "section_depth es \<le> room \<and> (\<forall>room'. section_depth es \<le> room' \<longrightarrow> p_entries room' (Suc n) outer depth cs line = Ok (es, pos))"
    if a: "p_entries room (Suc n) outer depth cs line = Ok (es, pos)" for outer depth cs line es pos
  proof -
    obtain ds l where s: "skip cs line = (ds, l)" by (cases "skip cs line")
    show ?thesis
    proof (cases "\<exists>c fs. ds = c # fs \<and> \<not> (c = 125 \<and> \<not> outer)")
      case False
      then show ?thesis using a s by (cases ds) (auto split: if_splits)
    next
      case True
      then obtain c fs where ds: "ds = c # fs" "\<not> (c = 125 \<and> \<not> outer)" by blast
      from s [unfolded ds(1)] ds(2) a show ?thesis
      proof (cases rule: p_entries_round)
        case (nested key cs1 l1 cs2 l2)
        from nested(3) obtain sec cs3 l3 fs3 where r: "p_section room n False depth cs2 l2 = Ok (sec, cs3, l3)"
          "p_entries room n outer depth cs3 l3 = Ok (fs3, pos)" "es = (key, VSection sec) # fs3" by (auto simp del: p_section.simps)
        show ?thesis using Suc.IH(1) [OF r(1)] Suc.IH(2) [OF r(2)] s ds nested(1,2) r(3) by (auto simp del: p_section.simps)
      next
        case (val key cs1 l1 cs2 l2)
        from val(3) obtain v cs3 l3 fs3 where r: "p_value room (2 * length cs2 + 2) cs2 l2 = Ok (v, cs3, l3)"
          "p_entries room n outer depth cs3 l3 = Ok (fs3, pos)" "es = (key, v) # fs3" by (auto simp del: p_value.simps)
        show ?thesis using p_value_room(1) [OF r(1)] Suc.IH(2) [OF r(2)] s ds val(1,2) r(3)
          by (auto simp del: p_value.simps)
      qed simp_all
    qed
  qed
  { case 1 then show ?case using E [of outer "depth + 1" cs line es pos] by (simp split: if_splits del: p_entries.simps) }
  { case 2 then show ?case by (rule E) }
qed (auto split: if_splits)

lemma rbind_Err_mono:
  assumes "rbind r f = Err e" and "r = Err e \<Longrightarrow> r' = Err e" and "\<And>x. r = Ok x \<Longrightarrow> r' = Ok x"
    and "\<And>x. f x = Err e \<Longrightarrow> f' x = Err e"
  shows "rbind r' f' = Err e"
  using assms by (cases r) auto

lemma p_entries_fails:
  "p_section room n outer depth cs line = Err e \<Longrightarrow> e \<noteq> no_stack \<Longrightarrow> room \<le> room' \<Longrightarrow> p_section room' n outer depth cs line = Err e"
  "p_entries room n outer depth cs line = Err e \<Longrightarrow> e \<noteq> no_stack \<Longrightarrow> room \<le> room' \<Longrightarrow> p_entries room' n outer depth cs line = Err e"
proof (induction n arbitrary: outer depth cs line e)
  case (Suc n)
  have E: "p_entries room' (Suc n) outer depth cs line = Err e"
    if a: "p_entries room (Suc n) outer depth cs line = Err e" and e: "e \<noteq> no_stack" "room \<le> room'" for outer depth cs line e
  proof -
    obtain ds l where s: "skip cs line = (ds, l)" by (cases "skip cs line")
    show ?thesis
    proof (cases "\<exists>c fs. ds = c # fs \<and> \<not> (c = 125 \<and> \<not> outer)")
      case False
      then show ?thesis using a s by (cases ds) (auto split: if_splits)
    next
      case True
      then obtain c fs where ds: "ds = c # fs" "\<not> (c = 125 \<and> \<not> outer)" by blast
      show ?thesis
      proof (cases "\<exists>key cs1 l1 c2 cs2 l2. p_ident (c # fs) l = Ok (key, cs1, l1) \<and> skip cs1 l1 = (c2 # cs2, l2) \<and> (c2 = 123 \<or> c2 = 61)")
        case False
        show ?thesis
        proof (cases "p_ident (c # fs) l")
          case (Inr x)
          obtain key cs1 l1 where x: "x = (key, cs1, l1)" by (cases x)
          obtain ds2 l2 where s2: "skip cs1 l1 = (ds2, l2)" by (cases "skip cs1 l1")
          show ?thesis using a s ds Inr x s2 False by (cases ds2) (auto split: if_splits)
        qed (use a s ds in \<open>auto split: if_splits\<close>)
      next
        case True
        then obtain key cs1 l1 c2 cs2 l2 where k: "p_ident (c # fs) l = Ok (key, cs1, l1)" "skip cs1 l1 = (c2 # cs2, l2)" "c2 = 123 \<or> c2 = 61"
          by blast
        have eq: "p_entries r (Suc n) outer depth cs line =
          (if c2 = 123 then rbind (p_section r n False depth cs2 l2) (\<lambda>(s, cs, line).
             map_ok (\<lambda>(es, pos). ((key, VSection s) # es, pos)) (p_entries r n outer depth cs line))
           else rbind (p_value r (2 * length cs2 + 2) cs2 l2) (\<lambda>(v, cs, line).
             map_ok (\<lambda>(es, pos). ((key, v) # es, pos)) (p_entries r n outer depth cs line)))" for r
          using s ds k by (auto simp del: p_value.simps p_section.simps)
        show ?thesis
        proof (cases "c2 = 123")
          case True
          show ?thesis using a unfolding eq if_P [OF True]
          proof (rule rbind_Err_mono)
            show "p_section room' n False depth cs2 l2 = Ok x" if "p_section room n False depth cs2 l2 = Ok x" for x
              using p_entries_room(1) [of room n False depth cs2 l2 "fst x" "snd x"] that e(2) by (simp del: p_section.simps)
          qed (use Suc.IH [OF _ e] in \<open>auto simp del: p_section.simps\<close>)
        next
          case False
          show ?thesis using a unfolding eq if_not_P [OF False]
          proof (rule rbind_Err_mono)
            show "p_value room' m cs2 l2 = Ok x" if "p_value room m cs2 l2 = Ok x" for x m
              using p_value_room(1) [of room m cs2 l2 "fst x" "snd x"] that e(2) by simp
          qed (use Suc.IH(2) [OF _ e] p_value_fails(1) [OF _ e] in \<open>auto simp del: p_value.simps\<close>)
        qed
      qed
    qed
  qed
  { case 1 then show ?case using E [of outer "depth + 1" cs line e] by (simp split: if_splits del: p_entries.simps) }
  { case 2 then show ?case using E by blast }
qed (auto split: if_splits)

lemma parse_bytes_answers:
  "(\<exists>sec. parse_bytes b = Ok sec) \<or> (\<exists>line m. parse_bytes b = Err (Syntax line m))"
proof (cases "p_section (length b + 1) (length b + 1) True 0 b 1")
  case (Inl e)
  then have "fails_with (length b + 1) b e" by (rule p_entries_errors(1) [rotated]) simp
  then show ?thesis using Inl by (auto simp: parse_bytes_def parse_bytes_on_def is_syntax_def fails_with_def)
qed (auto simp: parse_bytes_def parse_bytes_on_def)

lemma parse_bytes_on_mono:
  assumes "parse_bytes_on room b \<noteq> Err no_stack" and "room \<le> room'"
  shows "parse_bytes_on room' b = parse_bytes_on room b"
proof (cases "p_section room (length b + 1) True 0 b 1")
  case (Inl e)
  then have "e \<noteq> no_stack" using assms(1) by (auto simp: parse_bytes_on_def simp del: p_section.simps)
  then have "p_section room' (length b + 1) True 0 b 1 = Err e" by (rule p_entries_fails(1) [OF Inl _ assms(2)])
  then show ?thesis using Inl by (simp add: parse_bytes_on_def del: p_section.simps)
next
  case (Inr x)
  then obtain es pos where x: "p_section room (length b + 1) True 0 b 1 = Ok (es, pos)" by (cases x) (simp del: p_section.simps)
  show ?thesis using p_entries_room(1) [OF x] assms(2) x by (auto simp: parse_bytes_on_def simp del: p_section.simps)
qed

lemma parse_bytes_on_outcome: "parse_bytes_on room b \<in> {parse_bytes b, Err no_stack}"
proof (cases "room \<le> length b + 1")
  case True
  then show ?thesis using parse_bytes_on_mono [of room b "length b + 1"] by (auto simp: parse_bytes_def)
next
  case False
  have "parse_bytes b \<noteq> Err no_stack" using parse_bytes_answers [of b] by (auto simp: no_stack_def)
  then show ?thesis using False parse_bytes_on_mono [of "length b + 1" b room] by (auto simp: parse_bytes_def)
qed

lemma parse_bytes_on_Ok:
  "parse_bytes_on room b = Ok sec \<longleftrightarrow> parse_bytes b = Ok sec \<and> section_depth sec \<le> room"
proof
  assume a: "parse_bytes_on room b = Ok sec"
  then obtain pos where "p_section room (length b + 1) True 0 b 1 = Ok (sec, pos)"
    by (auto simp: parse_bytes_on_def simp del: p_section.simps)
  from p_entries_room(1) [OF this] parse_bytes_on_outcome [of room b] a
  show "parse_bytes b = Ok sec \<and> section_depth sec \<le> room" by simp
next
  assume a: "parse_bytes b = Ok sec \<and> section_depth sec \<le> room"
  then obtain pos where "p_section (length b + 1) (length b + 1) True 0 b 1 = Ok (sec, pos)"
    by (auto simp: parse_bytes_def parse_bytes_on_def simp del: p_section.simps)
  from p_entries_room(1) [OF this] a show "parse_bytes_on room b = Ok sec"
    by (simp add: parse_bytes_on_def del: p_section.simps)
qed

lemma brackets_overflow: "2 * room < n \<Longrightarrow> p_value room n (replicate (Suc room) 91) line = Err no_stack"
proof (induction room arbitrary: n)
  case (Suc room)
  obtain m where n: "n = Suc (Suc m)" using Suc.prems by (metis Suc_lessE Suc_lessD mult_Suc_right add_2_eq_Suc)
  have "p_value room m (replicate (Suc room) 91) line = Err no_stack" using Suc n by simp
  then show ?case by (simp add: n)
next
  case 0
  then show ?case by (cases n) simp_all
qed

text \<open>
  C18: The metadata parser answers, given the stack for it. With room for every nested value, which one
  more than the bytes of the text is, it returns a section or one of its own syntax errors on
  every text. With less room it does the same or the stack overflows; a section is returned just
  when the stack holds as many calls of \<open>value\<close> as its values nest, and no fixed stack is enough: a
  key followed by one bracket more than there is room for overflows it, since nothing limits lists
  as 32 limits sections.
\<close>

theorem parse_metadata_ends:
  "((\<exists>sec. parse_bytes b = Ok sec) \<or> (\<exists>line m. parse_bytes b = Err (Syntax line m))) \<and>
   parse_bytes_on room b \<in> {parse_bytes b, Err no_stack} \<and>
   (parse_bytes_on room b = Ok sec \<longleftrightarrow> parse_bytes b = Ok sec \<and> section_depth sec \<le> room) \<and>
   parse_bytes_on room (bstr ''a='' @ replicate (Suc room) 91) = Err no_stack"
proof -
  have "p_value room (2 * Suc room + 2) (replicate (Suc room) 91) 1 = Err no_stack" by (rule brackets_overflow) simp
  then have "parse_bytes_on room (bstr ''a='' @ replicate (Suc room) 91) = Err no_stack"
    by (simp add: parse_bytes_on_def bstr_def p_ident_def is_ident_byte_def is_digit_def del: p_value.simps replicate_Suc)
  then show ?thesis using parse_bytes_answers parse_bytes_on_outcome parse_bytes_on_Ok by blast
qed

section \<open>Printing and parsing back\<close>

text \<open>The text of a section in the grammar the parser reads.\<close>

definition escape :: "u8 list \<Rightarrow> u8 list" where
  "escape b = concat (map (\<lambda>c. if c = 34 \<or> c = 92 then [92, c] else [c]) b)"

definition print_int :: "int \<Rightarrow> u8 list" where
  "print_int i = (if i < 0 then [45] else []) @ bstr (show_nat (nat \<bar>i\<bar>))"

fun print_value :: "lvm_value \<Rightarrow> u8 list" where
  "print_value (VInt i) = print_int i"
| "print_value (VStr s) = [34] @ escape (as_bytes s) @ [34]"
| "print_value (VList vs) = [91] @ concat (map (\<lambda>v. print_value v @ [44]) vs) @ [93]"
| "print_value (VSection es) = []"

fun print_rest :: "lvm_value \<Rightarrow> u8 list" where
  "print_rest (VSection es) = [123] @ concat (map (\<lambda>e. map ucast (fst e) @ print_rest (snd e)) es) @ [125]"
| "print_rest v = [61] @ print_value v @ [10]"

definition print_section :: "lvm_section \<Rightarrow> u8 list" where
  "print_section es = concat (map (\<lambda>e. map ucast (fst e) @ print_rest (snd e)) es)"

text \<open>What the grammar can say.\<close>

fun value_ok :: "lvm_value \<Rightarrow> bool" where
  "value_ok (VInt i) \<longleftrightarrow> - (2 ^ 63) \<le> i \<and> i < 2 ^ 63"
| "value_ok (VStr s) \<longleftrightarrow> list_all is_scalar s"
| "value_ok (VList vs) \<longleftrightarrow> (\<forall>v \<in> set vs. value_ok v)"
| "value_ok (VSection es) \<longleftrightarrow> False"

definition key_ok :: "ustring \<Rightarrow> bool" where
  "key_ok k \<longleftrightarrow> k \<noteq> [] \<and> (\<forall>c \<in> set k. c < 0x80 \<and> is_ident_byte (ucast c))"

fun rest_ok :: "nat \<Rightarrow> lvm_value \<Rightarrow> bool" where
  "rest_ok depth (VSection es) \<longleftrightarrow> depth < 32 \<and> (\<forall>e \<in> set es. key_ok (fst e) \<and> rest_ok (depth + 1) (snd e))"
| "rest_ok depth v \<longleftrightarrow> value_ok v"

definition section_ok :: "nat \<Rightarrow> lvm_section \<Rightarrow> bool" where
  "section_ok depth es \<longleftrightarrow> (\<forall>e \<in> set es. key_ok (fst e) \<and> rest_ok depth (snd e))"

lemma p_string_print: "\<exists>line'. p_string (escape b @ 34 # rest) line out = Ok (from_utf8_lossy (out @ b), rest, line')"
proof (induction b arbitrary: line out)
  case (Cons c b)
  show ?case using Cons.IH [of line "out @ [c]"] Cons.IH [of "line + 1" "out @ [c]"]
    by (auto simp: escape_def)
qed (simp add: escape_def)

lemma digit_char_byte: "m < 10 \<Longrightarrow> of_char (digit_char m) = 48 + m"
proof -
  assume "m < 10"
  then have "m = 0 \<or> m = 1 \<or> m = 2 \<or> m = 3 \<or> m = 4 \<or> m = 5 \<or> m = 6 \<or> m = 7 \<or> m = 8 \<or> m = 9" by presburger
  then show ?thesis by (elim disjE) (simp_all add: digit_char_def)
qed

lemma digit_byte:
  assumes "m < 10"
  shows "is_digit (of_nat (of_char (digit_char m)))" and "unat (of_nat (of_char (digit_char m)) :: u8) = 48 + m"
proof -
  have u: "unat (of_nat (48 + m) :: u8) = 48 + m" using assms by (intro unat_byte) simp
  then show "unat (of_nat (of_char (digit_char m)) :: u8) = 48 + m" using digit_char_byte [OF assms] by simp
  show "is_digit (of_nat (of_char (digit_char m)))"
    using u assms digit_char_byte [OF assms] by (simp add: is_digit_def word_le_nat_alt)
qed

lemma show_base_digits:
  "list_all is_digit (bstr (show_base 10 n)) \<and> bstr (show_base 10 n) \<noteq> [] \<and> digits_value (bstr (show_base 10 n)) = n"
proof (induction n rule: less_induct)
  case (less n)
  show ?case
  proof (cases "n < 10")
    case True
    then show ?thesis using digit_byte [of n] by (simp add: show_base.simps bstr_def digits_value_def)
  next
    case False
    have "n mod 10 < 10" by simp
    note d = digit_byte [OF this]
    have "bstr (show_base 10 n) = bstr (show_base 10 (n div 10)) @ [of_nat (of_char (digit_char (n mod 10)))]"
      using False by (simp add: show_base.simps [of 10 n] bstr_def)
    then show ?thesis using less.IH [of "n div 10"] False d by (simp add: digits_value_def)
  qed
qed

lemma show_nat_digits:
  "list_all is_digit (bstr (show_nat n))" "bstr (show_nat n) \<noteq> []" "digits_value (bstr (show_nat n)) = n"
  using show_base_digits [of n] by (simp_all add: show_nat_def)

lemma print_int_split:
  obtains c ds where "print_int i = c # ds" and "c = 45 \<or> is_digit c" and "list_all is_digit ds"
proof (cases "i < 0")
  case True
  then show thesis using that [of 45 "bstr (show_nat (nat \<bar>i\<bar>))"] show_nat_digits [of "nat \<bar>i\<bar>"] by (simp add: print_int_def)
next
  case False
  obtain c ds where "bstr (show_nat (nat \<bar>i\<bar>)) = c # ds" using show_nat_digits(2) by (cases "bstr (show_nat (nat \<bar>i\<bar>))") auto
  then show thesis using that [of c ds] False show_nat_digits(1) [of "nat \<bar>i\<bar>"] by (simp add: print_int_def)
qed

lemma parse_print_int: "- (2 ^ 63) \<le> i \<Longrightarrow> i < 2 ^ 63 \<Longrightarrow> parse_i64 (print_int i) = Some i"
proof (cases "i < 0")
  case True
  moreover assume "- (2 ^ 63) \<le> i"
  ultimately show ?thesis using show_nat_digits [of "nat \<bar>i\<bar>"] by (simp add: print_int_def parse_i64_def)
next
  case False
  assume "i < 2 ^ 63"
  have "hd (bstr (show_nat (nat \<bar>i\<bar>))) \<noteq> 45"
    using show_nat_digits(1,2) [of "nat \<bar>i\<bar>"] by (cases "bstr (show_nat (nat \<bar>i\<bar>))") (auto simp: is_digit_def)
  then show ?thesis using False \<open>i < 2 ^ 63\<close> show_nat_digits [of "nat \<bar>i\<bar>"] by (simp add: print_int_def parse_i64_def)
qed

lemma is_digit_neq: "is_digit c \<Longrightarrow> c \<noteq> 34 \<and> c \<noteq> 91 \<and> c \<noteq> 93 \<and> c \<noteq> 44 \<and> c \<noteq> 10 \<and> c \<noteq> 32 \<and> c \<noteq> 9 \<and> c \<noteq> 13 \<and> c \<noteq> 35"
  by (auto simp: is_digit_def)

lemma p_value_print_int:
  assumes "value_ok (VInt i)" and "rest \<noteq> []" and "\<not> is_digit (hd rest)" and "0 < room"
  shows "p_value room (Suc n) (print_int i @ rest) line = Ok (VInt i, rest, line)"
proof -
  obtain c ds where p: "print_int i = c # ds" "c = 45 \<or> is_digit c" "list_all is_digit ds" by (rule print_int_split)
  have tk: "takeWhile is_digit (ds @ rest) = ds" "dropWhile is_digit (ds @ rest) = rest"
    using p(3) assms(2,3) by (cases rest; simp add: list_all_iff takeWhile_append dropWhile_append)+
  have "parse_i64 (c # ds) = Some i" using parse_print_int [of i] assms(1) p(1) by simp
  moreover have "c \<noteq> 34" "c \<noteq> 91" "skip (c # ds @ rest) line = (c # ds @ rest, line)" using p(2) is_digit_neq by auto
  ultimately show ?thesis using p(1,2) tk assms(4) by (simp add: Let_def)
qed

lemma print_value_head:
  assumes "value_ok v"
  obtains c cs where "print_value v = c # cs" and "c \<noteq> 93" and "c \<noteq> 44" and "\<And>rest line. skip (c # rest) line = (c # rest, line)"
proof (cases v)
  case (VInt i)
  obtain c ds where p: "print_int i = c # ds" "c = 45 \<or> is_digit c" by (rule print_int_split)
  then show thesis using that [of c ds] is_digit_neq VInt by auto
next
  case (VStr s) then show thesis using that [of 34] by simp
next
  case (VList s) then show thesis using that [of 91] by simp
qed (use assms in simp)

lemma p_items_print:
  assumes "\<And>v n rest line. v \<in> set vs \<Longrightarrow> length (print_value v) \<le> room \<Longrightarrow> 2 * length (print_value v) < n \<Longrightarrow> rest \<noteq> [] \<Longrightarrow> \<not> is_digit (hd rest) \<Longrightarrow>
      \<exists>line'. p_value room n (print_value v @ rest) line = Ok (v, rest, line')"
    and "\<forall>v \<in> set vs. value_ok v" and "2 * length (concat (map (\<lambda>v. print_value v @ [44]) vs)) + 1 < n"
    and "length (concat (map (\<lambda>v. print_value v @ [44]) vs)) \<le> room"
  shows "\<exists>line'. p_items room n (concat (map (\<lambda>v. print_value v @ [44]) vs) @ 93 # rest) line = Ok (vs, rest, line')"
  using assms
proof (induction vs arbitrary: n line)
  case Nil
  then show ?case by (cases n) auto
next
  case (Cons v vs)
  let ?R = "concat (map (\<lambda>v. print_value v @ [44]) vs) @ 93 # rest"
  obtain m where n: "n = Suc (Suc m)" using Cons.prems(3) by (cases n; simp) (metis old.nat.exhaust less_nat_zero_code not_less_zero)
  have "value_ok v" using Cons.prems(2) by simp
  then obtain c cs where h: "print_value v = c # cs" "c \<noteq> 93" "c \<noteq> 44" "\<And>rest line. skip (c # rest) line = (c # rest, line)"
    by (rule print_value_head) blast
  obtain l1 where v: "p_value room (Suc m) (print_value v @ 44 # ?R) line = Ok (v, 44 # ?R, l1)"
    using Cons.prems(1) [of v "Suc m" "44 # ?R" line] Cons.prems(3,4) n by (auto simp: is_digit_def)
  obtain l2 where "p_items room m ?R l1 = Ok (vs, rest, l2)"
    using Cons.IH [of m l1] Cons.prems n by auto
  then show ?case using v h n by (simp del: p_value.simps)
qed

lemma p_value_print:
  "value_ok v \<Longrightarrow> length (print_value v) \<le> room \<Longrightarrow> 2 * length (print_value v) < n \<Longrightarrow> rest \<noteq> [] \<Longrightarrow> \<not> is_digit (hd rest) \<Longrightarrow>
   \<exists>line'. p_value room n (print_value v @ rest) line = Ok (v, rest, line')"
proof (induction v arbitrary: room n rest line)
  case (VInt i)
  then obtain m where "n = Suc m" by (cases n) auto
  moreover have "0 < room" using VInt(2) by (cases rule: print_int_split [of i]) auto
  ultimately show ?case using p_value_print_int [of i rest room m line] VInt by (simp del: p_value.simps)
next
  case (VStr s)
  then obtain m where "n = Suc m" by (cases n) auto
  then show ?case using p_string_print [of "as_bytes s" rest line "[]"] VStr from_utf8_lossy_as_bytes [of s] by auto
next
  case (VList vs)
  then obtain m where n: "n = Suc m" by (cases n) auto
  have "\<exists>line'. p_items (room - 1) m (concat (map (\<lambda>v. print_value v @ [44]) vs) @ 93 # rest) line = Ok (vs, rest, line')"
    using VList n by (intro p_items_print) simp_all
  then show ?case using n VList.prems(2) by auto
qed simp


lemma is_ident_byte_neq:
  "is_ident_byte c \<Longrightarrow> c \<noteq> 123 \<and> c \<noteq> 125 \<and> c \<noteq> 61 \<and> c \<noteq> 10 \<and> c \<noteq> 32 \<and> c \<noteq> 9 \<and> c \<noteq> 13 \<and> c \<noteq> 35"
  by (auto simp: is_ident_byte_def is_digit_def bstr_def)

lemma p_ident_print:
  assumes "key_ok k" and "\<not> is_ident_byte c"
  shows "p_ident (map ucast k @ c # rest) line = Ok (k, c # rest, line)"
    and "\<exists>d ds. map ucast k = d # ds \<and> d \<noteq> 125 \<and> (\<forall>rest line. skip (d # rest) line = (d # rest, line))"
proof -
  have k: "k \<noteq> []" "\<forall>b \<in> set (map ucast k :: u8 list). is_ident_byte b"
    using assms(1) by (auto simp: key_ok_def)
  then obtain d ds where d: "map ucast k = d # ds" "is_ident_byte d" by (cases k) auto
  then show "\<exists>d ds. map ucast k = d # ds \<and> d \<noteq> 125 \<and> (\<forall>rest line. skip (d # rest) line = (d # rest, line))"
    using is_ident_byte_neq by auto
  have sk: "skip (map ucast k @ c # rest) line = (map ucast k @ c # rest, line)"
    using d is_ident_byte_neq [OF d(2)] by auto
  have uc: "(ucast (ucast x :: u8) :: u32) = x" "ucast x < (0x80 :: u8)" if "x < 0x80" for x :: u32
  proof -
    have "unat x < 128" using that by (simp add: word_less_nat_alt)
    then show "(ucast (ucast x :: u8) :: u32) = x" "ucast x < (0x80 :: u8)"
      by (simp_all add: word_less_nat_alt word_unat_eq_iff unat_ucast)
  qed
  have "list_all (\<lambda>b. b < 0x80) (map ucast k :: u8 list)" using assms(1) uc(2) by (auto simp: key_ok_def list_all_iff)
  then have "from_utf8_lossy (map ucast k) = map ucast (map ucast k :: u8 list)" by (rule from_utf8_lossy_ascii)
  also have "\<dots> = k" using assms(1) uc(1) by (auto simp: key_ok_def intro!: map_idI)
  finally have "from_utf8_lossy (map ucast k) = k" .
  moreover have "takeWhile is_ident_byte (map ucast k @ c # rest) = map ucast k"
    "dropWhile is_ident_byte (map ucast k @ c # rest) = c # rest"
    using k(2) assms(2) by (simp_all add: takeWhile_append dropWhile_append)
  ultimately show "p_ident (map ucast k @ c # rest) line = Ok (k, c # rest, line)"
    using sk k(1) by (simp add: p_ident_def)
qed

lemma p_entries_newline: "p_entries room n outer depth (10 # cs) line = p_entries room n outer depth cs (line + 1)"
  by (cases n) simp_all

lemma print_section_Cons: "print_section ((k, v) # es) = map ucast k @ print_rest v @ print_section es"
  by (simp add: print_section_def)

lemma section_ok_Cons: "section_ok depth ((k, v) # es) \<longleftrightarrow> key_ok k \<and> rest_ok depth v \<and> section_ok depth es"
  by (auto simp: section_ok_def)

lemma p_entries_entry:
  assumes "key_ok k" and "c = 123 \<or> c = 61"
  shows "p_entries room (Suc n) outer depth (map ucast k @ c # cs) line =
     (if c = 123 then
        rbind (p_section room n False depth cs line) (\<lambda>(s, cs, line).
          map_ok (\<lambda>(es, pos). ((k, VSection s) # es, pos)) (p_entries room n outer depth cs line))
      else rbind (p_value room (2 * length cs + 2) cs line) (\<lambda>(v, cs, line).
          map_ok (\<lambda>(es, pos). ((k, v) # es, pos)) (p_entries room n outer depth cs line)))"
proof -
  have "\<not> is_ident_byte c" using assms(2) is_ident_byte_neq by blast
  note p = p_ident_print(1) [OF assms(1) this, of cs line] p_ident_print(2) [OF assms(1) this]
  from p(2) obtain d ds where "map ucast k = d # ds \<and> d \<noteq> 125 \<and> (\<forall>rest line. skip (d # rest) line = (d # rest, line))"
    by (elim exE)
  then show ?thesis using p(1) assms(2) by (auto simp del: p_value.simps p_section.simps)
qed

lemma p_entries_print:
  assumes "section_ok depth es" and "length (print_section es) < n" and "length (print_section es) \<le> room"
    and "\<not> outer \<and> stop = 125 # rest \<or> outer \<and> stop = [] \<and> rest = []"
  shows "\<exists>line'. p_entries room n outer depth (print_section es @ stop) line = Ok (es, rest, line')"
  using assms
proof (induction n arbitrary: outer depth es stop rest line)
  case (Suc n)
  show ?case
  proof (cases es)
    case Nil
    then show ?thesis using Suc.prems(4) by (auto simp: print_section_def)
  next
    case (Cons e fs)
    obtain k v where e: "e = (k, v)" by (cases e)
    note ok = Suc.prems(1) [unfolded Cons e section_ok_Cons]
    note len = Suc.prems(2,3) [unfolded Cons e print_section_Cons]
    have nk: "length k > 0" using ok by (auto simp: key_ok_def)
    then have "length (print_section fs) < n" "length (print_section fs) \<le> room" using len by (simp_all del: length_greater_0_conv)
    then have fs: "\<exists>l. p_entries room n outer depth (print_section fs @ stop) line = Ok (fs, rest, l)" for line
      using ok Suc.prems(4) by (intro Suc.IH) auto
    show ?thesis
    proof (cases "\<exists>s. v = VSection s")
      case True
      then obtain s where v: "v = VSection s" by blast
      have "\<exists>l. p_entries room n False (depth + 1) (print_section s @ 125 # print_section fs @ stop) line = Ok (s, print_section fs @ stop, l)"
        using ok len nk v by (intro Suc.IH) (auto simp: section_ok_def print_section_def)
      then obtain l where "p_section room n False depth (print_section s @ 125 # print_section fs @ stop) line = Ok (s, print_section fs @ stop, l)"
        using ok v by auto
      then show ?thesis using fs [of l] ok Cons e v
        by (auto simp: print_section_Cons p_entries_entry simp del: p_section.simps p_entries.simps) (simp add: print_section_def)
    next
      case False
      then have v: "print_rest v = [61] @ print_value v @ [10]" "value_ok v" using ok by (cases v; simp)+
      let ?cs = "print_value v @ 10 # print_section fs @ stop"
      obtain l where "p_value room (2 * length ?cs + 2) ?cs line = Ok (v, 10 # print_section fs @ stop, l)"
        using p_value_print [OF v(2), of room "2 * length ?cs + 2" "10 # print_section fs @ stop" line] len v(1) by (auto simp: is_digit_def simp del: p_value.simps)
      then show ?thesis using fs [of "l + 1"] ok Cons e v
        by (auto simp: print_section_Cons p_entries_entry p_entries_newline simp del: p_value.simps p_entries.simps)
    qed
  qed
qed simp

lemma parse_print_section: "section_ok 1 sec \<Longrightarrow> parse_bytes (print_section sec) = Ok sec"
proof -
  assume "section_ok 1 sec"
  then obtain l where "p_entries (length (print_section sec) + 1) (length (print_section sec) + 1) True 1 (print_section sec @ []) 1 = Ok (sec, [], l)"
    using p_entries_print [of 1 sec "length (print_section sec) + 1" "length (print_section sec) + 1" True "[]" "[]" 1]
    by (auto simp del: p_entries.simps)
  then show ?thesis by (simp add: parse_bytes_def parse_bytes_on_def del: p_entries.simps)
qed

text \<open>
  C17: What is printed parses back: for every section the grammar can write (names of name
  characters, integers of 64 bits, strings of scalar values with their quotes and backslashes
  escaped, lists of values, sections nested less
  deep than the limit of 32), parsing its text gives that
  section again.
\<close>

theorem metadata_roundtrip:
  assumes "section_ok 1 sec"
  shows "parse_bytes (print_section sec) = Ok sec"
  using assms by (rule parse_print_section)

definition sample_section :: lvm_section where
  "sample_section = [(ustr ''vg0'', VSection [(ustr ''seqno'', VInt 7), (ustr ''tags'', VList [VStr [34, 233], VInt (- 1)])])]"

theorem metadata_roundtrip_witness: "parse_bytes (print_section sample_section) = Ok sample_section"
  by (rule metadata_roundtrip)
    (simp add: sample_section_def section_ok_def key_ok_def ustr_def is_ident_byte_def is_digit_def is_scalar_def)

end
