(* ===== verification/Lvm_Group.thy ===== *)
theory Lvm_Group
  imports Lvm_Text "HOL-Library.Multiset"
begin

text \<open>
  Volume groups (\<open>lvm.rs\<close>): the label of a physical volume, the metadata areas it points at,
  what the parsed metadata says of the group, and sorting devices into groups.

  \<open>usize\<close> offsets into a buffer are naturals; bytes of a device and extents are 64-bit words.
\<close>

section \<open>Labels\<close>

definition LVM_SECTOR :: u64 where [simp]: "LVM_SECTOR = 512"
definition LABEL_SCAN_SECTORS :: nat where [simp]: "LABEL_SCAN_SECTORS = 4"
definition LABEL_ID :: "u8 list" where "LABEL_ID = bstr ''LABELONE''"
definition LABEL_TYPE :: "u8 list" where "LABEL_TYPE = bstr ''LVM2 001''"
definition MDA_MAGIC :: "u8 list" where "MDA_MAGIC = bstr '' LVM2 x[5A%r0N*>''"
definition MDA_HEADER_SIZE :: u64 where [simp]: "MDA_HEADER_SIZE = 512"
definition LVM_CRC_SEED :: u32 where "LVM_CRC_SEED = 0xf597a6cf"
definition MAX_METADATA :: u64 where [simp]: "MAX_METADATA = 0x1000000"
definition RAW_LOCN_IGNORED :: u32 where [simp]: "RAW_LOCN_IGNORED = 1"

definition lvm_crc_bit :: "u32 \<Rightarrow> u32" where
  "lvm_crc_bit crc = (if crc AND 1 \<noteq> 0 then drop_bit 1 crc XOR 0xedb88320 else drop_bit 1 crc)"

definition lvm_crc :: "u8 list \<Rightarrow> u32" where
  "lvm_crc b = fold (\<lambda>b crc. (lvm_crc_bit ^^ 8) (crc XOR ucast b)) b LVM_CRC_SEED"

record pv_label =
  label_sector :: u64
  label_uuid :: ustring
  device_size :: u64
  data_areas :: "(u64 \<times> u64) list"
  metadata_areas :: "(u64 \<times> u64) list"

text \<open>One list of areas, up to the entry with offset 0 that ends it.\<close>

function area_list :: "u8 list \<Rightarrow> nat \<Rightarrow> lvm_error + (u64 \<times> u64) list \<times> nat" where
  "area_list s at =
     (if at + 16 > length s then Err (LvmCorrupt [S ''unterminated area list''])
      else if le64 s at = 0 then Ok ([], at + 16)
      else map_ok (\<lambda>(areas, at'). ((le64 s at, le64 s (at + 8)) # areas, at')) (area_list s (at + 16)))"
  by pat_completeness auto
termination by (relation "measure (\<lambda>(s, at). length s - at)") auto

declare area_list.simps [simp del]

definition parse_label :: "u8 list \<Rightarrow> u64 \<Rightarrow> nat \<Rightarrow> lvm_error + pv_label" where
  "parse_label s sector device =
     (if lvm_crc (drop 20 s) \<noteq> le32 s 16 then Err (LvmBadChecksum device ''label'')
      else if slice_of 24 8 s \<noteq> LABEL_TYPE
      then Err (LvmUnsupported [S ''label type '', Q (from_utf8_lossy (slice_of 24 8 s))])
      else let at = unat (le32 s 20) in
        if at < 32 \<or> at + 40 > length s then Err (LvmCorrupt [S ''pv_header offset '', N at])
        else rbind (area_list s (at + 40)) (\<lambda>(data, at2).
             rbind (area_list s at2) (\<lambda>(meta, _).
               Ok \<lparr>label_sector = sector, label_uuid = from_utf8_lossy (slice_of at 32 s),
                   device_size = le64 s (at + 32), data_areas = data, metadata_areas = meta\<rparr>)))"

fun scan_labels :: "('d, 'x) block_read_scheme \<Rightarrow> 'd \<Rightarrow> nat \<Rightarrow> nat list \<Rightarrow> lvm_error + pv_label option" where
  "scan_labels rd d device [] = Ok None"
| "scan_labels rd d device (n # ns) =
     (let sector = of_nat n in
      if (sector + 1) * LVM_SECTOR > size_bytes rd d then Ok None
      else rbind (map_err LvmBlock (read_at rd d (sector * LVM_SECTOR) (unat LVM_SECTOR))) (\<lambda>s.
        if take 8 s \<noteq> LABEL_ID \<or> le64 s 8 \<noteq> sector then scan_labels rd d device ns
        else map_ok Some (parse_label s sector device)))"

definition read_pv_label_of :: "('d, 'x) block_read_scheme \<Rightarrow> 'd \<Rightarrow> nat \<Rightarrow> lvm_error + pv_label option" where
  "read_pv_label_of rd d device = scan_labels rd d device [0..<LABEL_SCAN_SECTORS]"

definition read_pv_label :: "('d, 'x) block_read_scheme \<Rightarrow> 'd \<Rightarrow> lvm_error + pv_label option" where
  "read_pv_label rd d = read_pv_label_of rd d 0"

section \<open>What the metadata says\<close>

record physical_volume =
  pv_name :: ustring
  pv_uuid :: ustring
  pe_start :: u64
  pe_count :: u64

record stripe =
  stripe_pv :: ustring
  stripe_start :: u64

record segment =
  start_extent :: u64
  extent_count :: u64
  seg_kind :: ustring
  stripe_size :: u64
  seg_stripes :: "stripe list"
  seg_images :: "ustring list"
  seg_metadata :: "ustring list"
  thin_pool :: "ustring option"
  device_id :: "u64 option"
  external_origin :: "ustring option"

record logical_volume_info =
  lv_name :: ustring
  lv_id :: ustring
  lv_segments :: "segment list"

record volume_group =
  vg_name :: ustring
  vg_id :: ustring
  vg_seqno :: u64
  extent_size :: u64
  physical_volumes :: "physical_volume list"
  logical_volumes :: "logical_volume_info list"

text \<open>\<open>slice::chunks(2)\<close>, \<open>str::starts_with\<close> and \<open>Result::ok\<close>.\<close>

fun chunks2 :: "'a list \<Rightarrow> 'a list list" where
  "chunks2 [] = []"
| "chunks2 [x] = [[x]]"
| "chunks2 (x # y # xs) = [x, y] # chunks2 xs"

definition starts_with :: "ustring \<Rightarrow> string \<Rightarrow> bool" where
  "starts_with s p \<longleftrightarrow> take (length p) s = ustr p"

definition result_ok :: "'e + 'a \<Rightarrow> 'a option" where
  "result_ok r = (case r of Inl _ \<Rightarrow> None | Inr x \<Rightarrow> Some x)"

text \<open>A number of sectors in bytes, refused when it overflows, and when it must not be zero.\<close>

definition in_bytes :: "string \<Rightarrow> bool \<Rightarrow> u64 \<Rightarrow> lvm_error + u64" where
  "in_bytes what positive v =
     (case checked_mul v LVM_SECTOR of
        Some b \<Rightarrow> if positive \<and> \<not> b > 0 then Err (LvmCorrupt [S what]) else Ok b
      | None \<Rightarrow> Err (LvmCorrupt [S what]))"

definition where_at :: "ustring \<Rightarrow> ustring \<Rightarrow> string \<Rightarrow> message" where
  "where_at lv key what = [U lv, S ''/'', U key, S '': '', S what]"

definition get_list :: "lvm_section \<Rightarrow> string \<Rightarrow> message \<Rightarrow> lvm_error + lvm_value list" where
  "get_list sec key m = (case sec_get sec (ustr key) of Some (VList items) \<Rightarrow> Ok items | _ \<Rightarrow> Err (LvmCorrupt m))"

definition stripe_pair :: "ustring \<Rightarrow> ustring \<Rightarrow> lvm_value list \<Rightarrow> lvm_error + stripe" where
  "stripe_pair lv key pair =
     (case pair of
        [VStr pv, VInt e] \<Rightarrow>
          if e \<ge> 0 then Ok \<lparr>stripe_pv = pv, stripe_start = of_int e\<rparr>
          else Err (LvmCorrupt (where_at lv key ''stripes list''))
      | _ \<Rightarrow> Err (LvmCorrupt (where_at lv key ''stripes list'')))"

definition raid_pair :: "ustring \<Rightarrow> ustring \<Rightarrow> lvm_value list \<Rightarrow> lvm_error + ustring \<times> ustring" where
  "raid_pair lv key pair =
     (case pair of
        [VStr meta, VStr img] \<Rightarrow> Ok (meta, img)
      | _ \<Rightarrow> Err (LvmUnsupported (where_at lv key ''a raids list without a metadata sub-volume per image'')))"

definition mirror_pair :: "ustring \<Rightarrow> ustring \<Rightarrow> lvm_value list \<Rightarrow> lvm_error + ustring" where
  "mirror_pair lv key pair =
     (case pair of
        [VStr img, VInt i] \<Rightarrow>
          if i = 0 then Ok img
          else Err (LvmUnsupported (where_at lv key ''a mirror image that does not start at its sub-volume's first extent''))
      | _ \<Rightarrow> Err (LvmUnsupported (where_at lv key ''a mirror image that does not start at its sub-volume's first extent'')))"

definition segment_stripes :: "ustring \<Rightarrow> ustring \<Rightarrow> lvm_section \<Rightarrow> lvm_error + stripe list \<times> u64" where
  "segment_stripes lv key seg =
     rbind (get_list seg ''stripes'' (where_at lv key ''no stripes'')) (\<lambda>items.
     rbind (traverse (stripe_pair lv key) (chunks2 items)) (\<lambda>stripes.
     rbind (sec_uint seg (ustr ''stripe_count'')) (\<lambda>count.
       if count \<noteq> of_nat (length stripes) \<or> count = 0
       then Err (LvmCorrupt [U lv, S ''/'', U key, S '': stripe_count '', N (unat count), S '', '',
              N (length stripes), S '' stripes''])
       else if count > 1
       then rbind (sec_uint seg (ustr ''stripe_size'')) (\<lambda>v.
              map_ok (\<lambda>size. (stripes, size)) (in_bytes ''stripe_size'' True v))
       else Ok (stripes, 0))))"

definition segment_images :: "ustring \<Rightarrow> ustring \<Rightarrow> ustring \<Rightarrow> lvm_section \<Rightarrow> lvm_error + ustring list \<times> ustring list" where
  "segment_images lv key kind seg =
     (if starts_with kind ''raid'' then
        rbind (get_list seg ''raids'' (where_at lv key ''no raids'')) (\<lambda>items.
        rbind (traverse (raid_pair lv key) (chunks2 items)) (\<lambda>pairs.
          Ok (map snd pairs, map fst pairs)))
      else if kind = ustr ''thin-pool'' then
        rbind (sec_str seg (ustr ''metadata'')) (\<lambda>meta.
        rbind (sec_str seg (ustr ''pool'')) (\<lambda>pool. Ok ([pool], [meta])))
      else if kind = ustr ''mirror'' then
        rbind (get_list seg ''mirrors'' (where_at lv key ''no mirrors'')) (\<lambda>items.
        rbind (traverse (mirror_pair lv key) (chunks2 items)) (\<lambda>images. Ok (images, [])))
      else Ok ([], []))"

definition segment_of :: "ustring \<Rightarrow> ustring \<times> lvm_section \<Rightarrow> lvm_error + segment" where
  "segment_of lv = (\<lambda>(key, seg).
     rbind (sec_str seg (ustr ''type'')) (\<lambda>kind.
     rbind (if kind = ustr ''striped'' then segment_stripes lv key seg else Ok ([], 0)) (\<lambda>(stripes, ssize).
     rbind (segment_images lv key kind seg) (\<lambda>(images, metadata).
     rbind (sec_uint seg (ustr ''start_extent'')) (\<lambda>start.
     rbind (sec_uint seg (ustr ''extent_count'')) (\<lambda>count.
       Ok \<lparr>start_extent = start, extent_count = count, seg_kind = kind, stripe_size = ssize,
           seg_stripes = stripes, seg_images = images, seg_metadata = metadata,
           thin_pool = result_ok (sec_str seg (ustr ''thin_pool'')),
           device_id = result_ok (sec_uint seg (ustr ''device_id'')),
           external_origin = result_ok (sec_str seg (ustr ''external_origin''))\<rparr>))))))"

definition logical_volume_of :: "ustring \<times> lvm_section \<Rightarrow> lvm_error + logical_volume_info" where
  "logical_volume_of = (\<lambda>(name, lv).
     rbind (traverse (segment_of name) (filter (\<lambda>(key, _). starts_with key ''segment'') (sec_sections lv))) (\<lambda>segs.
       Ok \<lparr>lv_name = name,
           lv_id = (case sec_str lv (ustr ''id'') of Inl _ \<Rightarrow> [] | Inr i \<Rightarrow> i),
           lv_segments = sort_key start_extent segs\<rparr>))"

definition physical_volume_of :: "ustring \<times> lvm_section \<Rightarrow> lvm_error + physical_volume" where
  "physical_volume_of = (\<lambda>(name, pv).
     rbind (sec_str pv (ustr ''id'')) (\<lambda>i.
     rbind (sec_uint pv (ustr ''pe_start'')) (\<lambda>v.
     rbind (in_bytes ''pe_start'' False v) (\<lambda>start.
     rbind (sec_uint pv (ustr ''pe_count'')) (\<lambda>count.
       Ok \<lparr>pv_name = name, pv_uuid = filter (\<lambda>c. c \<noteq> 45) i, pe_start = start, pe_count = count\<rparr>)))))"

definition from_metadata :: "lvm_section \<Rightarrow> lvm_error + volume_group" where
  "from_metadata outer =
     (case sec_sections outer of
        [] \<Rightarrow> Err (LvmCorrupt [S ''no volume group section''])
      | (name, vg) # _ \<Rightarrow>
          rbind (sec_uint vg (ustr ''extent_size'')) (\<lambda>v.
          rbind (in_bytes ''extent_size'' True v) (\<lambda>ext.
          rbind (sec_section vg (ustr ''physical_volumes'')) (\<lambda>pvsec.
          rbind (traverse physical_volume_of (sec_sections pvsec)) (\<lambda>pvs.
          rbind (case sec_get vg (ustr ''logical_volumes'') of
                   Some (VSection lvs) \<Rightarrow> traverse logical_volume_of (sec_sections lvs)
                 | _ \<Rightarrow> Ok []) (\<lambda>lvs.
          rbind (sec_str vg (ustr ''id'')) (\<lambda>i.
          rbind (sec_uint vg (ustr ''seqno'')) (\<lambda>seqno.
            Ok \<lparr>vg_name = name, vg_id = i, vg_seqno = seqno, extent_size = ext,
                physical_volumes = pvs, logical_volumes = lvs\<rparr>))))))))"

definition group_of_text :: "ustring \<Rightarrow> lvm_error + volume_group" where
  "group_of_text text = rbind (parse_metadata text) from_metadata"

section \<open>Metadata areas\<close>

definition read_area :: "('d, 'x) block_read_scheme \<Rightarrow> 'd \<Rightarrow> u64 \<Rightarrow> u64 \<Rightarrow> nat \<Rightarrow> lvm_error + ustring option" where
  "read_area rd d start area_size device =
     (if area_size \<le> MDA_HEADER_SIZE \<or>
         (case checked_add start area_size of None \<Rightarrow> True | Some e \<Rightarrow> e > size_bytes rd d)
      then Err (LvmCorrupt [S ''metadata area '', N (unat start), S ''+'', N (unat area_size), S '' on a '',
             N (unat (size_bytes rd d)), S ''-byte device''])
      else rbind (map_err LvmBlock (read_at rd d start (unat MDA_HEADER_SIZE))) (\<lambda>h.
        if lvm_crc (drop 4 h) \<noteq> le32 h 0 then Err (LvmBadChecksum device ''metadata area header'')
        else if slice_of 4 16 h \<noteq> MDA_MAGIC then Err (LvmCorrupt [S ''metadata area magic''])
        else let off = le64 h 40; len = le64 h 48 in
          if off = 0 \<or> len = 0 \<or> le32 h 60 AND RAW_LOCN_IGNORED \<noteq> 0 then Ok None
          else if len > MAX_METADATA \<or> off < MDA_HEADER_SIZE \<or> off \<ge> area_size
          then Err (LvmCorrupt [S ''metadata at '', N (unat off), S ''+'', N (unat len)])
          else let first = min (area_size - off) len in
            rbind (map_err LvmBlock (read_at rd d (start + off) (unat first))) (\<lambda>head.
            rbind (if first < len then
                     (let rest = len - first in
                      if MDA_HEADER_SIZE + rest > area_size then Err (LvmCorrupt [S ''metadata wraps past its area''])
                      else map_err LvmBlock (read_at rd d (start + MDA_HEADER_SIZE) (unat rest)))
                   else Ok []) (\<lambda>tail.
              let text = head @ tail in
              if lvm_crc text \<noteq> le32 h 56 then Err (LvmBadChecksum device ''metadata text'')
              else Ok (Some (from_utf8_lossy (takeWhile (\<lambda>b. b \<noteq> 0) text)))))))"

text \<open>The copy with the highest sequence number, and the first error met.\<close>

fun newest_text ::
    "('d, 'x) block_read_scheme \<Rightarrow> 'd \<Rightarrow> nat \<Rightarrow> (u64 \<times> u64) list \<Rightarrow> (u64 \<times> ustring) option \<Rightarrow> lvm_error option
      \<Rightarrow> (u64 \<times> ustring) option \<times> lvm_error option" where
  "newest_text rd d device [] newest first_error = (newest, first_error)"
| "newest_text rd d device ((start, area_size) # areas) newest first_error =
     (let failed = (\<lambda>e. newest_text rd d device areas newest (case first_error of None \<Rightarrow> Some e | Some f \<Rightarrow> Some f)) in
      case read_area rd d start area_size device of
        Inr None \<Rightarrow> newest_text rd d device areas newest first_error
      | Inl e \<Rightarrow> failed e
      | Inr (Some text) \<Rightarrow>
          (case group_of_text text of
             Inl e \<Rightarrow> failed e
           | Inr vg \<Rightarrow>
               newest_text rd d device areas
                 (if (case newest of None \<Rightarrow> True | Some (n, _) \<Rightarrow> vg_seqno vg > n) then Some (vg_seqno vg, text) else newest)
                 first_error))"

definition read_metadata_text_of ::
    "('d, 'x) block_read_scheme \<Rightarrow> 'd \<Rightarrow> pv_label \<Rightarrow> nat \<Rightarrow> lvm_error + ustring option" where
  "read_metadata_text_of rd d label device =
     (case newest_text rd d device (metadata_areas label) None None of
        (Some (_, text), _) \<Rightarrow> Ok (Some text)
      | (None, Some e) \<Rightarrow> Err e
      | (None, None) \<Rightarrow> Ok None)"

definition read_metadata_text :: "('d, 'x) block_read_scheme \<Rightarrow> 'd \<Rightarrow> pv_label \<Rightarrow> lvm_error + ustring option" where
  "read_metadata_text rd d label = read_metadata_text_of rd d label 0"

section \<open>The group of a set of devices\<close>

fun best_group ::
    "('d, 'x) block_read_scheme \<Rightarrow> (nat \<times> 'd) list \<Rightarrow> volume_group option \<Rightarrow> lvm_error + volume_group option" where
  "best_group rd [] best = Ok best"
| "best_group rd ((i, d) # ds) best =
     rbind (rbind (read_pv_label_of rd d i) (\<lambda>l. ok_or l (NoLabel i))) (\<lambda>label.
     rbind (read_metadata_text_of rd d label i) (\<lambda>text.
       case text of
         None \<Rightarrow> best_group rd ds best
       | Some text \<Rightarrow>
           rbind (group_of_text text) (\<lambda>vg.
             best_group rd ds
               (if (case best of None \<Rightarrow> True | Some b \<Rightarrow> vg_seqno vg > vg_seqno b) then Some vg else best))))"

definition read_volume_group :: "('d, 'x) block_read_scheme \<Rightarrow> 'd list \<Rightarrow> lvm_error + volume_group" where
  "read_volume_group rd devices =
     rbind (best_group rd (enumerate 0 devices) None) (\<lambda>best.
       ok_or best (LvmCorrupt [S ''no physical volume holds metadata'']))"

section \<open>Sorting devices into groups\<close>

record 'd volume_group_devices =
  vgd_group :: volume_group
  vgd_devices :: "'d list"
  vgd_missing :: "ustring list"

record 'd lvm_scan =
  ls_groups :: "'d volume_group_devices list"
  ls_unclaimed :: "'d list"
  ls_others :: "'d list"
  ls_refused :: "('d \<times> lvm_error) list"

text \<open>The state of the first loop: the labelled volumes, the groups met, and the devices set aside.\<close>

record 'd lvm_sort =
  so_pvs :: "('d \<times> ustring) list"
  so_groups :: "volume_group list"
  so_others :: "'d list"
  so_refused :: "('d \<times> lvm_error) list"

fun note_group :: "volume_group \<Rightarrow> volume_group list \<Rightarrow> volume_group list" where
  "note_group vg [] = [vg]"
| "note_group vg (g # gs) =
     (if vg_id g = vg_id vg then (if vg_seqno vg > vg_seqno g then vg else g) # gs
      else g # note_group vg gs)"

definition device_group ::
    "('d, 'x) block_read_scheme \<Rightarrow> 'd \<Rightarrow> pv_label \<Rightarrow> nat \<Rightarrow> lvm_error + volume_group option" where
  "device_group rd d label i =
     rbind (read_metadata_text_of rd d label i) (\<lambda>text.
       case text of Some text \<Rightarrow> map_ok Some (group_of_text text) | None \<Rightarrow> Ok None)"

definition sort_step :: "('d, 'x) block_read_scheme \<Rightarrow> nat \<times> 'd \<Rightarrow> 'd lvm_sort \<Rightarrow> 'd lvm_sort" where
  "sort_step rd = (\<lambda>(i, d) st.
     (case read_pv_label_of rd d i of
        Inr None \<Rightarrow> st\<lparr>so_others := so_others st @ [d]\<rparr>
      | Inl e \<Rightarrow> st\<lparr>so_refused := so_refused st @ [(d, e)]\<rparr>
      | Inr (Some label) \<Rightarrow>
          (case device_group rd d label i of
             Inl e \<Rightarrow> st\<lparr>so_refused := so_refused st @ [(d, e)]\<rparr>
           | Inr vg \<Rightarrow>
               st\<lparr>so_groups := (case vg of Some vg \<Rightarrow> note_group vg (so_groups st) | None \<Rightarrow> so_groups st),
                  so_pvs := so_pvs st @ [(d, label_uuid label)]\<rparr>)))"

definition names :: "volume_group \<Rightarrow> ustring \<Rightarrow> bool" where
  "names g uuid \<longleftrightarrow> (\<exists>pv \<in> set (physical_volumes g). pv_uuid pv = uuid)"

text \<open>\<open>Iterator::position\<close>.\<close>

fun position_of :: "('a \<Rightarrow> bool) \<Rightarrow> 'a list \<Rightarrow> nat option" where
  "position_of P [] = None"
| "position_of P (x # xs) = (if P x then Some 0 else map_option Suc (position_of P xs))"

definition place_pv ::
    "volume_group list \<Rightarrow> 'd \<times> ustring \<Rightarrow> ('d \<times> ustring) list list \<times> 'd list \<Rightarrow> ('d \<times> ustring) list list \<times> 'd list" where
  "place_pv groups = (\<lambda>(d, uuid) (members, unclaimed).
     (case position_of (\<lambda>g. names g uuid) groups of
        Some i \<Rightarrow> (members[i := members ! i @ [(d, uuid)]], unclaimed)
      | None \<Rightarrow> (members, unclaimed @ [d])))"

definition group_devices :: "volume_group \<times> ('d \<times> ustring) list \<Rightarrow> 'd volume_group_devices" where
  "group_devices = (\<lambda>(g, given).
     \<lparr>vgd_group = g, vgd_devices = map fst given,
      vgd_missing = map pv_name (filter (\<lambda>pv. \<not> list_ex (\<lambda>(_, uuid). uuid = pv_uuid pv) given) (physical_volumes g))\<rparr>)"

definition lvm_scan_devices :: "('d, 'x) block_read_scheme \<Rightarrow> 'd list \<Rightarrow> 'd lvm_scan" where
  "lvm_scan_devices rd devices =
     (let st = fold (sort_step rd) (enumerate 0 devices) \<lparr>so_pvs = [], so_groups = [], so_others = [], so_refused = []\<rparr>;
          (members, unclaimed) = fold (place_pv (so_groups st)) (so_pvs st) (map (\<lambda>_. []) (so_groups st), [])
      in \<lparr>ls_groups = map group_devices (zip (so_groups st) members), ls_unclaimed = unclaimed,
          ls_others = so_others st, ls_refused = so_refused st\<rparr>)"

section \<open>The newest copy\<close>

text \<open>What an area holds: a copy that can be read and says a group, with its sequence number, or an error.\<close>

definition good_copy :: "('d, 'x) block_read_scheme \<Rightarrow> 'd \<Rightarrow> nat \<Rightarrow> u64 \<times> u64 \<Rightarrow> (u64 \<times> ustring) option" where
  "good_copy rd d device = (\<lambda>(start, len).
     (case read_area rd d start len device of
        Inr (Some text) \<Rightarrow> map_option (\<lambda>vg. (vg_seqno vg, text)) (result_ok (group_of_text text))
      | _ \<Rightarrow> None))"

definition area_error :: "('d, 'x) block_read_scheme \<Rightarrow> 'd \<Rightarrow> nat \<Rightarrow> u64 \<times> u64 \<Rightarrow> lvm_error option" where
  "area_error rd d device = (\<lambda>(start, len).
     (case read_area rd d start len device of
        Inl e \<Rightarrow> Some e
      | Inr None \<Rightarrow> None
      | Inr (Some text) \<Rightarrow> (case group_of_text text of Inl e \<Rightarrow> Some e | Inr _ \<Rightarrow> None)))"

definition pick :: "'n::linorder \<times> 'a \<Rightarrow> ('n \<times> 'a) option \<Rightarrow> ('n \<times> 'a) option" where
  "pick c best = (case best of None \<Rightarrow> Some c | Some b \<Rightarrow> if fst c > fst b then Some c else Some b)"

lemma newest_text_fold:
  "newest_text rd d device areas newest err =
     (fold pick (List.map_filter (good_copy rd d device) areas) newest,
      case err of Some e \<Rightarrow> Some e
      | None \<Rightarrow> (case List.map_filter (area_error rd d device) areas of [] \<Rightarrow> None | e # _ \<Rightarrow> Some e))"
proof (induction areas arbitrary: newest err)
  case (Cons a areas)
  obtain start len where a: "a = (start, len)" by (cases a)
  show ?case
    by (auto simp: a Cons.IH List.map_filter_simps good_copy_def area_error_def result_ok_def pick_def
        split: sum.splits option.splits)
qed (auto simp: List.map_filter_simps split: option.splits)

definition first_max :: "'n::linorder \<times> 'a \<Rightarrow> ('n \<times> 'a) list \<Rightarrow> bool" where
  "first_max c xs \<longleftrightarrow>
     (\<exists>pre post. xs = pre @ c # post \<and> list_all (\<lambda>x. fst x < fst c) pre \<and> list_all (\<lambda>x. fst x \<le> fst c) post)"

lemma first_max_Cons:
  "first_max c (x # xs) \<longleftrightarrow> x = c \<and> list_all (\<lambda>y. fst y \<le> fst c) xs \<or> fst x < fst c \<and> first_max c xs"
proof
  assume "first_max c (x # xs)"
  then obtain pre post where p: "x # xs = pre @ c # post" "list_all (\<lambda>x. fst x < fst c) pre" "list_all (\<lambda>x. fst x \<le> fst c) post"
    by (auto simp: first_max_def)
  then show "x = c \<and> list_all (\<lambda>y. fst y \<le> fst c) xs \<or> fst x < fst c \<and> first_max c xs"
    by (cases pre) (auto simp: first_max_def)
next
  assume "x = c \<and> list_all (\<lambda>y. fst y \<le> fst c) xs \<or> fst x < fst c \<and> first_max c xs"
  then show "first_max c (x # xs)"
  proof
    assume "fst x < fst c \<and> first_max c xs"
    then obtain pre post where p: "fst x < fst c" "xs = pre @ c # post" "list_all (\<lambda>x. fst x < fst c) pre" "list_all (\<lambda>x. fst x \<le> fst c) post"
      by (auto simp: first_max_def)
    then show ?thesis unfolding first_max_def by (intro exI [of _ "x # pre"] exI [of _ post]) simp
  qed (auto simp: first_max_def intro: exI [of _ "[]"])
qed

lemma first_max_bound: "first_max c xs \<Longrightarrow> x \<in> set xs \<Longrightarrow> fst x \<le> fst c"
  by (auto simp: first_max_def list_all_iff less_imp_le)

lemma fold_pick_first_max: "fold pick cs (Some b) = Some c \<longleftrightarrow> first_max c (b # cs)"
proof (induction cs arbitrary: b)
  case Nil
  show ?case by (simp add: first_max_Cons) (auto simp: first_max_def)
next
  case (Cons x cs)
  have "first_max c ((if fst x > fst b then x else b) # cs) \<longleftrightarrow> first_max c (b # x # cs)"
    by (auto simp: first_max_Cons not_less split: if_splits dest: first_max_bound)
  then show ?case using Cons.IH by (cases "fst x > fst b") (simp_all add: pick_def [of x])
qed

lemma fold_pick_None:
  "fold pick cs None = Some c \<longleftrightarrow>
     (\<exists>pre post. cs = pre @ c # post \<and> list_all (\<lambda>x. fst x < fst c) pre \<and> list_all (\<lambda>x. fst x \<le> fst c) post)"
  using fold_pick_first_max [of "tl cs" "hd cs" c] unfolding first_max_def by (cases cs) (simp_all add: pick_def [of _ None])

lemma fold_pick_Some: "fold pick cs (Some b) \<noteq> None"
  by (induction cs arbitrary: b) (auto simp: pick_def)

lemma fold_pick_eq_None: "fold pick cs None = None \<longleftrightarrow> cs = []"
  using fold_pick_Some by (cases cs) (simp_all add: pick_def [of _ None])

text \<open>
  C19: The newest good copy of the metadata is the one read. Among the areas of the label,
  those that can be read and whose text says a volume group count; the text returned is that
  of the first with the highest sequence number, whatever the other areas hold. An error is returned only when no
  area is good, and it is the first one met; nothing is found only when no area is good and
  none failed.
\<close>

theorem lvm_newest_copy:
  "(read_metadata_text_of rd d label device = Ok (Some text) \<longleftrightarrow>
      (\<exists>pre n post. List.map_filter (good_copy rd d device) (metadata_areas label) = pre @ (n, text) # post \<and>
         list_all (\<lambda>c. fst c < n) pre \<and> list_all (\<lambda>c. fst c \<le> n) post)) \<and>
   (read_metadata_text_of rd d label device = Err e \<longleftrightarrow>
      List.map_filter (good_copy rd d device) (metadata_areas label) = [] \<and>
      (\<exists>es. List.map_filter (area_error rd d device) (metadata_areas label) = e # es)) \<and>
   (read_metadata_text_of rd d label device = Ok None \<longleftrightarrow>
      List.map_filter (good_copy rd d device) (metadata_areas label) = [] \<and>
      List.map_filter (area_error rd d device) (metadata_areas label) = [])"
proof -
  let ?goods = "List.map_filter (good_copy rd d device) (metadata_areas label)"
  let ?errs = "List.map_filter (area_error rd d device) (metadata_areas label)"
  have r: "read_metadata_text_of rd d label device =
      (case fold pick ?goods None of
         Some (_, text) \<Rightarrow> Ok (Some text)
       | None \<Rightarrow> (case ?errs of [] \<Rightarrow> Ok None | e # _ \<Rightarrow> Err e))"
    by (auto simp: read_metadata_text_of_def newest_text_fold split: option.splits list.splits)
  have "fold pick ?goods None = None \<longleftrightarrow> ?goods = []" by (rule fold_pick_eq_None)
  moreover have "(\<exists>n. fold pick ?goods None = Some (n, text)) \<longleftrightarrow>
      (\<exists>pre n post. ?goods = pre @ (n, text) # post \<and> list_all (\<lambda>c. fst c < n) pre \<and> list_all (\<lambda>c. fst c \<le> n) post)"
    unfolding fold_pick_None by auto
  ultimately show ?thesis unfolding r by (auto split: option.splits list.splits)
qed

section \<open>Scanning\<close>

text \<open>The group a device's own metadata says, when the device is neither set aside nor refused.\<close>

definition device_vg :: "('d, 'x) block_read_scheme \<Rightarrow> nat \<times> 'd \<Rightarrow> volume_group option" where
  "device_vg rd = (\<lambda>(i, d).
     (case read_pv_label_of rd d i of
        Inr (Some label) \<Rightarrow> (case device_group rd d label i of Inr vg \<Rightarrow> vg | _ \<Rightarrow> None)
      | _ \<Rightarrow> None))"

lemma groups_fold:
  "so_groups (fold (sort_step rd) xs st) = fold note_group (List.map_filter (device_vg rd) xs) (so_groups st)"
  by (induction xs arbitrary: st)
    (auto simp: sort_step_def device_vg_def List.map_filter_simps split: sum.splits option.splits)

lemma ids_note_group: "set (map vg_id (note_group vg gs)) = insert (vg_id vg) (set (map vg_id gs))"
  by (induction gs) auto

lemma distinct_note_group: "distinct (map vg_id gs) \<Longrightarrow> distinct (map vg_id (note_group vg gs))"
proof (induction gs)
  case (Cons g gs)
  then show ?case using ids_note_group [of vg gs] by auto
qed simp

lemma in_note_group: "g \<in> set (note_group vg gs) \<Longrightarrow> g = vg \<or> g \<in> set gs"
  by (induction gs) (auto split: if_splits)

text \<open>A group stands for \<open>vg\<close>: the same group, and no older.\<close>

definition stands_for :: "volume_group \<Rightarrow> volume_group \<Rightarrow> bool" where
  "stands_for g vg \<longleftrightarrow> vg_id g = vg_id vg \<and> vg_seqno vg \<le> vg_seqno g"

lemma note_group_stands: "\<exists>g \<in> set (note_group vg gs). stands_for g vg"
  by (induction gs) (auto simp: stands_for_def)

lemma note_group_keeps: "\<exists>g \<in> set gs. stands_for g v \<Longrightarrow> \<exists>g \<in> set (note_group vg gs). stands_for g v"
  by (induction gs) (force simp: stands_for_def)+

lemma note_groups_distinct: "distinct (map vg_id gs) \<Longrightarrow> distinct (map vg_id (fold note_group vgs gs))"
  by (induction vgs arbitrary: gs) (simp_all add: distinct_note_group)

lemma in_note_groups: "g \<in> set (fold note_group vgs gs) \<Longrightarrow> g \<in> set vgs \<union> set gs"
  by (induction vgs arbitrary: gs) (auto dest: in_note_group)

lemma note_groups_ids: "set (map vg_id (fold note_group vgs gs)) = vg_id ` set vgs \<union> set (map vg_id gs)"
proof (induction vgs arbitrary: gs)
  case (Cons v vgs)
  show ?case using Cons.IH [of "note_group v gs"] ids_note_group [of v gs] by simp
qed simp

lemma note_groups_keep: "\<exists>g \<in> set gs. stands_for g v \<Longrightarrow> \<exists>g \<in> set (fold note_group vgs gs). stands_for g v"
  by (induction vgs arbitrary: gs) (simp_all only: fold_simps comp_apply note_group_keeps)

lemma note_groups_stand: "v \<in> set vgs \<Longrightarrow> \<exists>g \<in> set (fold note_group vgs gs). stands_for g v"
proof (induction vgs arbitrary: gs)
  case (Cons w vgs)
  then show ?case using note_groups_keep [OF note_group_stands [of w gs], of vgs] by (cases "v = w") simp_all
qed simp

text \<open>The first loop loses no device, and keeps with each labelled one its UUID.\<close>

lemma sort_fold_devices:
  "mset (map fst (so_pvs (fold (sort_step rd) xs st))) + mset (so_others (fold (sort_step rd) xs st))
     + mset (map fst (so_refused (fold (sort_step rd) xs st)))
   = mset (map fst (so_pvs st)) + mset (so_others st) + mset (map fst (so_refused st)) + mset (map snd xs)"
proof (induction xs arbitrary: st)
  case (Cons x xs)
  obtain i d where x: "x = (i, d)" by (cases x)
  have "mset (map fst (so_pvs (sort_step rd x st))) + mset (so_others (sort_step rd x st)) + mset (map fst (so_refused (sort_step rd x st)))
      = add_mset d (mset (map fst (so_pvs st)) + mset (so_others st) + mset (map fst (so_refused st)))"
    by (auto simp: sort_step_def x simp del: mset_map split: sum.splits option.splits)
  then show ?case using Cons.IH [of "sort_step rd x st"] x by simp
qed simp

text \<open>
  What the first loop makes of each device, alone: a physical volume with the UUID of its label, a
  device that has no label, or one that is refused, with the error.
\<close>

definition pv_of :: "('d, 'x) block_read_scheme \<Rightarrow> nat \<times> 'd \<Rightarrow> ('d \<times> ustring) option" where
  "pv_of rd = (\<lambda>(i, d).
     (case read_pv_label_of rd d i of
        Inr (Some label) \<Rightarrow> (case device_group rd d label i of Inr _ \<Rightarrow> Some (d, label_uuid label) | Inl _ \<Rightarrow> None)
      | _ \<Rightarrow> None))"

definition unlabelled :: "('d, 'x) block_read_scheme \<Rightarrow> nat \<times> 'd \<Rightarrow> bool" where
  "unlabelled rd = (\<lambda>(i, d). read_pv_label_of rd d i = Ok None)"

definition refusal_of :: "('d, 'x) block_read_scheme \<Rightarrow> nat \<times> 'd \<Rightarrow> ('d \<times> lvm_error) option" where
  "refusal_of rd = (\<lambda>(i, d).
     (case read_pv_label_of rd d i of
        Inl e \<Rightarrow> Some (d, e)
      | Inr (Some label) \<Rightarrow> (case device_group rd d label i of Inl e \<Rightarrow> Some (d, e) | Inr _ \<Rightarrow> None)
      | Inr None \<Rightarrow> None))"

definition labelled :: "('d, 'x) block_read_scheme \<Rightarrow> 'd list \<Rightarrow> ('d \<times> ustring) list" where
  "labelled rd devices = List.map_filter (pv_of rd) (enumerate 0 devices)"

lemma sort_fold_lists:
  "so_pvs (fold (sort_step rd) xs st) = so_pvs st @ List.map_filter (pv_of rd) xs"
  "so_others (fold (sort_step rd) xs st) = so_others st @ map snd (filter (unlabelled rd) xs)"
  "so_refused (fold (sort_step rd) xs st) = so_refused st @ List.map_filter (refusal_of rd) xs"
  by (induction xs arbitrary: st)
    (auto simp: sort_step_def pv_of_def unlabelled_def refusal_of_def List.map_filter_simps split: sum.splits option.splits)

lemma position_of_Some: "position_of P xs = Some i \<Longrightarrow> i < length xs \<and> P (xs ! i) \<and> (\<forall>j < i. \<not> P (xs ! j))"
proof (induction xs arbitrary: i)
  case (Cons x xs)
  then show ?case by (auto split: if_splits simp: less_Suc_eq_0_disj nth_Cons')
qed simp

lemma position_of_None: "position_of P xs = None \<longleftrightarrow> (\<forall>x \<in> set xs. \<not> P x)"
  by (induction xs) auto

text \<open>The second loop: each labelled device is in the list of the first group that names it, or of none.\<close>

definition claims :: "volume_group list \<Rightarrow> nat \<Rightarrow> ustring \<Rightarrow> bool" where
  "claims groups i uuid \<longleftrightarrow> names (groups ! i) uuid \<and> (\<forall>j < i. \<not> names (groups ! j) uuid)"

definition placed ::
    "volume_group list \<Rightarrow> ('d \<times> ustring) list \<Rightarrow> ('d \<times> ustring) list list \<times> 'd list \<Rightarrow> bool" where
  "placed groups pvs = (\<lambda>(members, unclaimed).
     length members = length groups \<and>
     (\<forall>i < length groups. members ! i = filter (\<lambda>(d, uuid). claims groups i uuid) pvs) \<and>
     unclaimed = map fst (filter (\<lambda>(d, uuid). \<not> list_ex (\<lambda>g. names g uuid) groups) pvs) \<and>
     mset (map fst (concat members)) + mset unclaimed = mset (map fst pvs))"

lemma claims_position:
  assumes "position_of (\<lambda>g. names g uuid) groups = Some i" and "j < length groups"
  shows "claims groups j uuid \<longleftrightarrow> j = i"
  using position_of_Some [OF assms(1)] by (auto simp: claims_def) (metis linorder_neqE_nat)

lemma mset_concat_update:
  "i < length xss \<Longrightarrow> mset (map f (concat (xss[i := xss ! i @ [x]]))) = add_mset (f x) (mset (map f (concat xss)))"
  by (induction xss arbitrary: i) (auto split: nat.split)

lemma place_pv_placed:
  assumes "placed groups pvs st"
  shows "placed groups (pvs @ [x]) (place_pv groups x st)"
proof -
  obtain d uuid members unclaimed where x: "x = (d, uuid)" "st = (members, unclaimed)" by (cases x, cases st)
  show ?thesis
  proof (cases "position_of (\<lambda>g. names g uuid) groups")
    case None
    then have "\<forall>i < length groups. \<not> claims groups i uuid" "\<not> list_ex (\<lambda>g. names g uuid) groups"
      by (auto simp: position_of_None claims_def list_ex_iff)
    then show ?thesis using assms None by (auto simp: x placed_def place_pv_def)
  next
    case (Some i)
    note i = position_of_Some [OF Some]
    have "mset (map fst (concat (members[i := members ! i @ [(d, uuid)]]))) = add_mset d (mset (map fst (concat members)))"
      using assms i mset_concat_update [of i members fst "(d, uuid)"] by (simp add: x placed_def del: mset_map)
    moreover have "list_ex (\<lambda>g. names g uuid) groups" using i by (auto simp: list_ex_iff)
    moreover have "members[i := members ! i @ [(d, uuid)]] ! j = filter (\<lambda>(d, uuid). claims groups j uuid) pvs @ (if claims groups j uuid then [(d, uuid)] else [])"
      if "j < length groups" for j
      using assms i that claims_position [OF Some that] by (cases "j = i") (auto simp: x placed_def)
    ultimately show ?thesis using assms Some by (auto simp: x placed_def place_pv_def simp del: mset_map)
  qed
qed

lemma place_fold: "placed groups pvs st \<Longrightarrow> placed groups (pvs @ xs) (fold (place_pv groups) xs st)"
proof (induction xs arbitrary: pvs st)
  case (Cons x xs)
  then show ?case using place_pv_placed [OF Cons.prems, of x] Cons.IH [of "pvs @ [x]"] by simp
qed simp

lemma placed_start: "placed groups [] (map (\<lambda>_. []) groups, [])"
proof -
  have "concat (map (\<lambda>_. []) groups) = ([] :: 'x list)" by (induction groups) auto
  then show ?thesis by (auto simp: placed_def)
qed


text \<open>
  What the \<open>i\<close>th group of a scan holds: the devices it claims, in the order given, the names of
  exactly the volumes its metadata names and none of those devices is, and the newest metadata of that
  group on any device.
\<close>

definition vgd_ok ::
    "('d, 'x) block_read_scheme \<Rightarrow> 'd list \<Rightarrow> volume_group list \<Rightarrow> nat \<times> 'd volume_group_devices \<Rightarrow> bool" where
  "vgd_ok rd devices groups = (\<lambda>(i, g).
     let given = filter (\<lambda>(d, uuid). claims groups i uuid) (labelled rd devices) in
     vgd_devices g = map fst given \<and>
     vgd_missing g = map pv_name (filter (\<lambda>pv. pv_uuid pv \<notin> snd ` set given) (physical_volumes (vgd_group g))) \<and>
     (\<exists>x \<in> set (enumerate 0 devices). device_vg rd x = Some (vgd_group g)) \<and>
     (\<forall>x \<in> set (enumerate 0 devices). \<forall>vg. device_vg rd x = Some vg \<longrightarrow> vg_id vg = vg_id (vgd_group g) \<longrightarrow>
        vg_seqno vg \<le> vg_seqno (vgd_group g)))"

lemma group_devices_ok:
  assumes given: "given = filter (\<lambda>(d, uuid). claims groups i uuid) (labelled rd devices)"
    and g: "g \<in> set (fold note_group (List.map_filter (device_vg rd) (enumerate 0 devices)) [])"
  shows "vgd_ok rd devices groups (i, group_devices (g, given))"
proof -
  let ?vgs = "List.map_filter (device_vg rd) (enumerate 0 devices)"
  have dist: "distinct (map vg_id (fold note_group ?vgs []))" by (rule note_groups_distinct) simp
  have "vg_seqno vg \<le> vg_seqno g" if x: "x \<in> set (enumerate 0 devices)" "device_vg rd x = Some vg" "vg_id vg = vg_id g" for x vg
  proof -
    have "vg \<in> set ?vgs" using x by (auto simp: set_map_filter)
    from note_groups_stand [OF this, of "[]"] obtain h where
      h: "h \<in> set (fold note_group ?vgs [])" "vg_id h = vg_id vg" "vg_seqno vg \<le> vg_seqno h" by (auto simp: stands_for_def)
    then have "h = g" using g x(3) dist by (metis distinct_map inj_onD)
    then show ?thesis using h(3) by simp
  qed
  moreover have "\<exists>x \<in> set (enumerate 0 devices). device_vg rd x = Some g"
    using in_note_groups [OF g] by (auto simp: set_map_filter)
  moreover have "filter (\<lambda>pv. \<not> list_ex (\<lambda>(_, uuid). uuid = pv_uuid pv) given) (physical_volumes g) =
      filter (\<lambda>pv. pv_uuid pv \<notin> snd ` set given) (physical_volumes g)"
    by (rule filter_cong [OF refl]) (force simp: list_ex_iff)
  ultimately show ?thesis
    unfolding vgd_ok_def group_devices_def Let_def prod.case given [symmetric] by simp
qed

lemma group_devices_groups: "map vgd_group (map group_devices xs) = map fst xs"
  by (induction xs) (auto simp: group_devices_def)

lemma group_devices_members: "concat (map vgd_devices (map group_devices xs)) = map fst (concat (map snd xs))"
  by (induction xs) (auto simp: group_devices_def)

text \<open>
  C20: Sorting devices into volume groups loses none and mixes no groups. Every device given
  comes back exactly once. A device without a label is among the others, one whose label or
  metadata cannot be read among the refused, with its error, and nothing else is there. Of the
  rest, those whose UUID no group names are unclaimed, and each other one is with the first group
  that names it, in the order given. The groups have distinct ids and are those some device speaks
  of; each has the newest metadata of that group on any device, and lists as missing exactly the
  volumes that metadata names and none of the group's devices is.
\<close>

theorem lvm_scan_sorts:
  "mset (concat (map vgd_devices (ls_groups (lvm_scan_devices rd devices)))) +
   mset (ls_unclaimed (lvm_scan_devices rd devices)) + mset (ls_others (lvm_scan_devices rd devices)) +
   mset (map fst (ls_refused (lvm_scan_devices rd devices))) = mset devices \<and>
   distinct (map (\<lambda>g. vg_id (vgd_group g)) (ls_groups (lvm_scan_devices rd devices))) \<and>
   list_all (vgd_ok rd devices (map vgd_group (ls_groups (lvm_scan_devices rd devices))))
     (enumerate 0 (ls_groups (lvm_scan_devices rd devices))) \<and>
   vg_id ` set (List.map_filter (device_vg rd) (enumerate 0 devices)) =
     set (map (\<lambda>g. vg_id (vgd_group g)) (ls_groups (lvm_scan_devices rd devices))) \<and>
   ls_unclaimed (lvm_scan_devices rd devices) =
     map fst (filter (\<lambda>(d, uuid). \<not> list_ex (\<lambda>g. names (vgd_group g) uuid) (ls_groups (lvm_scan_devices rd devices)))
       (labelled rd devices)) \<and>
   ls_others (lvm_scan_devices rd devices) = map snd (filter (unlabelled rd) (enumerate 0 devices)) \<and>
   ls_refused (lvm_scan_devices rd devices) = List.map_filter (refusal_of rd) (enumerate 0 devices)"
proof -
  define st where "st = fold (sort_step rd) (enumerate 0 devices) \<lparr>so_pvs = [], so_groups = [], so_others = [], so_refused = []\<rparr>"
  define vgs where "vgs = List.map_filter (device_vg rd) (enumerate 0 devices)"
  obtain members unclaimed where mu: "fold (place_pv (so_groups st)) (so_pvs st) (map (\<lambda>_. []) (so_groups st), []) = (members, unclaimed)"
    by (cases "fold (place_pv (so_groups st)) (so_pvs st) (map (\<lambda>_. []) (so_groups st), [])")
  let ?gs = "map group_devices (zip (so_groups st) members)"
  have r: "lvm_scan_devices rd devices = \<lparr>ls_groups = ?gs, ls_unclaimed = unclaimed, ls_others = so_others st, ls_refused = so_refused st\<rparr>"
    using mu by (simp add: lvm_scan_devices_def st_def Let_def)
  have pvs: "so_pvs st = labelled rd devices" and lists: "so_others st = map snd (filter (unlabelled rd) (enumerate 0 devices))"
    "so_refused st = List.map_filter (refusal_of rd) (enumerate 0 devices)"
    by (simp_all add: st_def sort_fold_lists labelled_def)
  have gs: "so_groups st = fold note_group vgs []" by (simp add: st_def vgs_def groups_fold)
  have pl: "placed (so_groups st) (labelled rd devices) (members, unclaimed)"
    using place_fold [OF placed_start, of "so_groups st" "so_pvs st"] mu pvs by simp
  then have len: "length members = length (so_groups st)" and un: "unclaimed =
      map fst (filter (\<lambda>(d, uuid). \<not> list_ex (\<lambda>g. names g uuid) (so_groups st)) (labelled rd devices))"
    by (simp_all add: placed_def)
  have vg: "map vgd_group ?gs = so_groups st" using len by (simp only: group_devices_groups map_fst_zip)
  have m: "mset (map fst (so_pvs st)) + mset (so_others st) + mset (map fst (so_refused st)) = mset devices"
    unfolding st_def sort_fold_devices by simp
  have ids: "map (\<lambda>g. vg_id (vgd_group g)) ?gs = map vg_id (so_groups st)"
    using arg_cong [OF vg, of "map vg_id"] by (simp add: comp_def)
  have devs: "concat (map vgd_devices ?gs) = map fst (concat members)"
    unfolding group_devices_members using len by simp
  have "vgd_ok rd devices (so_groups st) (i, ?gs ! i)" if i: "i < length ?gs" for i
  proof -
    have "vgd_ok rd devices (so_groups st) (i, group_devices (so_groups st ! i, members ! i))"
      using pl i gs by (intro group_devices_ok) (auto simp: placed_def vgs_def)
    then show ?thesis using i by simp
  qed
  then have ok: "list_all (vgd_ok rd devices (map vgd_group ?gs)) (enumerate 0 ?gs)"
    unfolding vg by (auto simp: list_all_iff in_set_enumerate_eq)
  have "mset (map fst (concat members)) + mset unclaimed = mset (map fst (so_pvs st))" using pl unfolding placed_def pvs prod.case by blast
  then have all: "mset (map fst (concat members)) + mset unclaimed + mset (so_others st) + mset (map fst (so_refused st)) = mset devices"
    using m by simp
  have un': "unclaimed = map fst (filter (\<lambda>(d, uuid). \<not> list_ex (\<lambda>g. names (vgd_group g) uuid) ?gs) (labelled rd devices))"
    unfolding un using arg_cong [OF vg, of "\<lambda>gs. list_ex (\<lambda>g. names g u) gs" for u] by (simp add: list_ex_iff)
  show ?thesis unfolding r lvm_scan.simps ids devs
  proof (intro conjI)
    show "vg_id ` set (List.map_filter (device_vg rd) (enumerate 0 devices)) = set (map vg_id (so_groups st))"
      unfolding gs note_groups_ids by (simp add: vgs_def)
    show "distinct (map vg_id (so_groups st))" unfolding gs by (rule note_groups_distinct) simp
  qed (fact all ok un' lists)+
qed

end
