(* ===== verification/Thin.thy ===== *)
theory Thin
  imports Lvm_Group
begin

text \<open>
  The metadata of dm-thin (\<open>lvm/thin.rs\<close>): its checksummed blocks, its superblock, and the
  lookup in its btrees. The metadata sub-volume is the function \<open>read\<close> from an offset and a
  buffer to the filled buffer, which \<open>Lvm_Volume\<close> gives.
\<close>

type_synonym read_block = "u64 \<Rightarrow> u8 list \<Rightarrow> fs_error + u8 list"

definition THIN_BLOCK :: u64 where [simp]: "THIN_BLOCK = 4096"
definition THIN_MAGIC :: u64 where [simp]: "THIN_MAGIC = 27022010"
definition SUPERBLOCK_CSUM_XOR :: u32 where [simp]: "SUPERBLOCK_CSUM_XOR = 160774"
definition BTREE_CSUM_XOR :: u32 where [simp]: "BTREE_CSUM_XOR = 121107"
definition SB_MAGIC :: nat where [simp]: "SB_MAGIC = 32"
definition SB_VERSION :: nat where [simp]: "SB_VERSION = 40"
definition SB_DATA_MAPPING_ROOT :: nat where [simp]: "SB_DATA_MAPPING_ROOT = 320"
definition SB_DATA_BLOCK_SIZE :: nat where [simp]: "SB_DATA_BLOCK_SIZE = 336"
definition SB_METADATA_BLOCK_SIZE :: nat where [simp]: "SB_METADATA_BLOCK_SIZE = 340"
definition SB_INCOMPAT_FLAGS :: nat where [simp]: "SB_INCOMPAT_FLAGS = 360"
definition NODE_FLAGS :: nat where [simp]: "NODE_FLAGS = 4"
definition NODE_BLOCKNR :: nat where [simp]: "NODE_BLOCKNR = 8"
definition NODE_NR_ENTRIES :: nat where [simp]: "NODE_NR_ENTRIES = 16"
definition NODE_MAX_ENTRIES :: nat where [simp]: "NODE_MAX_ENTRIES = 20"
definition NODE_VALUE_SIZE :: nat where [simp]: "NODE_VALUE_SIZE = 24"
definition NODE_HEADER :: nat where [simp]: "NODE_HEADER = 32"
definition INTERNAL_NODE :: u32 where [simp]: "INTERNAL_NODE = 1"
definition LEAF_NODE :: u32 where [simp]: "LEAF_NODE = 2"
definition MAX_DEPTH :: nat where "MAX_DEPTH = 16"
definition TIME_BITS :: nat where [simp]: "TIME_BITS = 24"

section \<open>Checksums\<close>

definition crc32c_bit :: "u32 \<Rightarrow> u32" where
  "crc32c_bit c = (if c AND 1 \<noteq> 0 then drop_bit 1 c XOR 0x82f63b78 else drop_bit 1 c)"

definition CRC32C :: "u32 list" where
  "CRC32C = map (\<lambda>i. (crc32c_bit ^^ 8) (of_nat i)) [0..<256]"

definition crc32c_register :: "u8 list \<Rightarrow> u32" where
  "crc32c_register b = fold (\<lambda>byte crc. CRC32C ! unat ((crc XOR ucast byte) AND 0xff) XOR drop_bit 8 crc) b (NOT 0)"

definition thin_block :: "read_block \<Rightarrow> u64 \<Rightarrow> u32 \<Rightarrow> string \<Rightarrow> lvm_error + u8 list" where
  "thin_block read n csum_xor what =
     rbind (ok_or (checked_mul n THIN_BLOCK) (LvmCorrupt [S what, S '': block '', N (unat n), S '' is out of range''])) (\<lambda>at.
     rbind (map_err LvmBlock (read at (replicate (unat THIN_BLOCK) 0))) (\<lambda>b.
       if le32 b 0 \<noteq> crc32c_register (drop 4 b) XOR csum_xor
       then Err (LvmCorrupt [S what, S '' at metadata block '', N (unat n), S '': checksum mismatch''])
       else Ok b))"

section \<open>The superblock\<close>

record thin_superblock =
  data_mapping_root :: u64
  data_block_size :: u64

definition thin_superblock_of :: "read_block \<Rightarrow> lvm_error + thin_superblock" where
  "thin_superblock_of read =
     rbind (thin_block read 0 SUPERBLOCK_CSUM_XOR ''thin pool superblock'') (\<lambda>b.
       let version = le32 b SB_VERSION; incompat = le32 b SB_INCOMPAT_FLAGS;
           meta = (ucast (le32 b SB_METADATA_BLOCK_SIZE) :: u64) * LVM_SECTOR;
           block = (ucast (le32 b SB_DATA_BLOCK_SIZE) :: u64) * LVM_SECTOR
       in if le64 b SB_MAGIC \<noteq> THIN_MAGIC then Err (LvmCorrupt [S ''thin pool superblock: bad magic''])
          else if \<not> (1 \<le> version \<and> version \<le> 2)
          then Err (LvmUnsupported [S ''thin pool metadata version '', N (unat version)])
          else if incompat \<noteq> 0
          then Err (LvmUnsupported [S ''thin pool metadata incompatible features '', X (unat incompat)])
          else if meta \<noteq> THIN_BLOCK then Err (LvmCorrupt [S ''thin pool metadata block size '', N (unat meta)])
          else if block = 0 then Err (LvmCorrupt [S ''thin pool data block size 0''])
          else Ok \<lparr>data_mapping_root = le64 b SB_DATA_MAPPING_ROOT, data_block_size = block\<rparr>)"

section \<open>Lookup\<close>

text \<open>
  \<open>slice::partition_point\<close>: the library's binary search, which halves the part from \<open>base\<close>
  on that holds the boundary.
\<close>

function search :: "('a \<Rightarrow> bool) \<Rightarrow> 'a list \<Rightarrow> nat \<Rightarrow> nat \<Rightarrow> nat" where
  "search P xs base n =
     (if n > 1 then
        let half = n div 2; mid = base + half
        in search P xs (if P (xs ! mid) then mid else base) (n - half)
      else if P (xs ! base) then base + 1 else base)"
  by pat_completeness auto
termination by (relation "measure (\<lambda>(_, _, _, n). n)") auto

declare search.simps [simp del]

definition partition_point :: "('a \<Rightarrow> bool) \<Rightarrow> 'a list \<Rightarrow> nat" where
  "partition_point P xs = (if xs = [] then 0 else search P xs 0 (length xs))"

text \<open>A node: its flags, keys and values.\<close>

definition thin_node :: "read_block \<Rightarrow> u64 \<Rightarrow> lvm_error + u32 \<times> u64 list \<times> (nat \<Rightarrow> u64)" where
  "thin_node read at =
     rbind (thin_block read at BTREE_CSUM_XOR ''thin pool btree node'') (\<lambda>b.
       let flags = le32 b NODE_FLAGS; nr = unat (le32 b NODE_NR_ENTRIES); mx = unat (le32 b NODE_MAX_ENTRIES);
           vsize = unat (le32 b NODE_VALUE_SIZE)
       in if le64 b NODE_BLOCKNR \<noteq> at
          then Err (LvmCorrupt [S ''thin pool btree node at block '', N (unat at), S '' says it is block '',
                 N (unat (le64 b NODE_BLOCKNR))])
          else if vsize \<noteq> 8 \<or> nr > mx \<or> NODE_HEADER + mx * (8 + vsize) > unat THIN_BLOCK
          then Err (LvmCorrupt [S ''thin pool btree node at block '', N (unat at), S '': '', N nr, S '' of '', N mx,
                 S '' entries of '', N vsize, S '' bytes''])
          else Ok (flags, map (\<lambda>i. le64 b (NODE_HEADER + 8 * i)) [0..<nr], \<lambda>i. le64 b (NODE_HEADER + 8 * mx + 8 * i)))"

fun lookup_from :: "nat \<Rightarrow> read_block \<Rightarrow> u64 \<Rightarrow> u64 \<Rightarrow> u64 \<Rightarrow> lvm_error + u64 option" where
  "lookup_from 0 read root key at =
     Err (LvmCorrupt [S ''thin pool btree from block '', N (unat root), S '' is deeper than '', N MAX_DEPTH])"
| "lookup_from (Suc n) read root key at =
     rbind (thin_node read at) (\<lambda>(flags, keys, value_at).
       case partition_point (\<lambda>k. k \<le> key) keys of
         0 \<Rightarrow> Ok None
       | Suc i \<Rightarrow>
           if flags = INTERNAL_NODE then lookup_from n read root key (value_at i)
           else if flags = LEAF_NODE then Ok (if keys ! i = key then Some (value_at i) else None)
           else Err (LvmCorrupt [S ''thin pool btree node at block '', N (unat at), S '': flags '', X (unat flags)]))"

definition thin_lookup :: "read_block \<Rightarrow> u64 \<Rightarrow> u64 \<Rightarrow> lvm_error + u64 option" where
  "thin_lookup read root key = lookup_from MAX_DEPTH read root key root"

definition device_root :: "read_block \<Rightarrow> thin_superblock \<Rightarrow> u64 \<Rightarrow> lvm_error + u64 option" where
  "device_root read sb dev = thin_lookup read (data_mapping_root sb) dev"

definition data_block :: "read_block \<Rightarrow> u64 \<Rightarrow> u64 \<Rightarrow> lvm_error + u64 option" where
  "data_block read root vb = map_ok (map_option (drop_bit TIME_BITS)) (thin_lookup read root vb)"


section \<open>The search\<close>

lemma search_finds:
  assumes "\<And>i. i < length xs \<Longrightarrow> P (xs ! i) \<longleftrightarrow> i < c"
    and "0 < n" and "base + n \<le> length xs" and "base = 0 \<or> base < c" and "c \<le> base + n"
  shows "search P xs base n = c"
  using assms(2-)
proof (induction n arbitrary: base rule: less_induct)
  case (less n)
  show ?case
  proof (cases "n > 1")
    case True
    define half where "half = n div 2"
    have h: "0 < half" "half < n" using True by (auto simp: half_def)
    have "search P xs (if P (xs ! (base + half)) then base + half else base) (n - half) = c"
      using less.prems h True assms(1) [of "base + half"]
      by (cases "P (xs ! (base + half))"; intro less.IH; simp add: half_def)+
    then show ?thesis using True by (simp add: search.simps [of P xs base n] Let_def flip: half_def)
  next
    case False
    then show ?thesis using less.prems assms(1) [of base] by (auto simp: search.simps [of P xs base n])
  qed
qed

text \<open>On any keys, in order or not, the search stays inside them.\<close>

lemma search_bound: "0 < n \<Longrightarrow> search P xs base n \<le> base + n"
proof (induction n arbitrary: base rule: less_induct)
  case (less n)
  have "search P xs b (n - n div 2) \<le> b + (n - n div 2)" if "n > 1" for b
    using that by (intro less.IH) auto
  from this [of base] this [of "base + n div 2"] show ?case
    using less.prems by (auto simp: search.simps [of P xs base n] Let_def)
qed

lemma partition_point_bound: "partition_point P xs \<le> length xs"
  using search_bound [of "length xs" P xs 0] by (simp add: partition_point_def)

text \<open>On keys in order the binary search is the linear one.\<close>

lemma partition_point_sorted:
  assumes "sorted xs"
  shows "partition_point (\<lambda>k. k \<le> key) xs = length (takeWhile (\<lambda>k. k \<le> key) xs)"
proof (cases "xs = []")
  case False
  have "xs ! i \<le> key \<longleftrightarrow> i < length (takeWhile (\<lambda>k. k \<le> key) xs)" if i: "i < length xs" for i
  proof
    assume "xs ! i \<le> key"
    then have "xs ! j \<le> key" if "j \<le> i" for j
      using sorted_nth_mono [OF assms that i] by simp
    then have "\<forall>x \<in> set (take (Suc i) xs). x \<le> key" using i by (auto simp: in_set_conv_nth)
    then have "takeWhile (\<lambda>k. k \<le> key) xs = take (Suc i) xs @ takeWhile (\<lambda>k. k \<le> key) (drop (Suc i) xs)"
      using takeWhile_append2 [of "take (Suc i) xs" "\<lambda>k. k \<le> key" "drop (Suc i) xs"] by simp
    then show "i < length (takeWhile (\<lambda>k. k \<le> key) xs)" using i by simp
  next
    assume "i < length (takeWhile (\<lambda>k. k \<le> key) xs)"
    then show "xs ! i \<le> key" by (metis nth_mem set_takeWhileD takeWhile_nth)
  qed
  then show ?thesis using False
    by (auto simp: partition_point_def intro!: search_finds length_takeWhile_le)
qed (simp add: partition_point_def)

section \<open>Trees\<close>

text \<open>
  The btree as a tree: the entries of a leaf, the separators and children of an inner node.
  \<open>stored\<close> says that the metadata holds it from a block on.
\<close>

datatype thin_tree = Leaf "(u64 \<times> u64) list" | Node "(u64 \<times> thin_tree) list"

fun entries :: "thin_tree \<Rightarrow> (u64 \<times> u64) list" where
  "entries (Leaf kvs) = kvs"
| "entries (Node cs) = concat (map (\<lambda>c. entries (snd c)) cs)"

fun height :: "thin_tree \<Rightarrow> nat" where
  "height (Leaf kvs) = 1"
| "height (Node cs) = Suc (foldr max (map (\<lambda>c. height (snd c)) cs) 0)"

fun tree_ok :: "thin_tree \<Rightarrow> bool" where
  "tree_ok (Leaf kvs) \<longleftrightarrow> sorted_wrt (<) (map fst kvs)"
| "tree_ok (Node cs) \<longleftrightarrow>
     sorted_wrt (<) (map fst cs) \<and>
     (\<forall>c \<in> set cs. tree_ok (snd c) \<and> (\<forall>e \<in> set (entries (snd c)). fst c \<le> fst e)) \<and>
     sorted_wrt (\<lambda>c d. \<forall>e \<in> set (entries (snd c)). fst e < fst d) cs"

inductive stored :: "read_block \<Rightarrow> u64 \<Rightarrow> thin_tree \<Rightarrow> bool" for read where
  stored_leaf:
    "thin_node read at = Ok (LEAF_NODE, map fst kvs, value_at) \<Longrightarrow>
     \<forall>i < length kvs. value_at i = snd (kvs ! i) \<Longrightarrow> stored read at (Leaf kvs)"
| stored_node:
    "thin_node read at = Ok (INTERNAL_NODE, map fst cs, value_at) \<Longrightarrow>
     \<forall>i < length cs. stored read (value_at i) (snd (cs ! i)) \<Longrightarrow> stored read at (Node cs)"

inductive_cases stored_LeafE: "stored read at (Leaf kvs)"
inductive_cases stored_NodeE: "stored read at (Node cs)"

lemma height_child: "c \<in> set cs \<Longrightarrow> height (snd c) < height (Node cs)"
proof -
  have "h \<in> set hs \<Longrightarrow> h \<le> foldr max hs (0 :: nat)" for h hs
    by (induction hs) auto
  then show "c \<in> set cs \<Longrightarrow> height (snd c) < height (Node cs)" by (simp add: le_imp_less_Suc)
qed

lemma map_of_concat_nth:
  assumes "i < length xss" and "\<And>j. j < length xss \<Longrightarrow> j \<noteq> i \<Longrightarrow> k \<notin> fst ` set (xss ! j)"
  shows "map_of (concat xss) k = map_of (xss ! i) k"
proof -
  have s: "concat xss = concat (take i xss) @ xss ! i @ concat (drop (Suc i) xss)"
    by (subst id_take_nth_drop [OF assms(1)]) simp
  have "k \<notin> fst ` set ys" if ys: "ys \<in> set (take i xss) \<union> set (drop (Suc i) xss)" for ys
  proof -
    obtain j where "j < length xss" "j \<noteq> i" "ys = xss ! j"
    proof (cases "ys \<in> set (take i xss)")
      case True
      then obtain m where "m < i" "ys = xss ! m" using assms(1) by (auto simp: in_set_conv_nth)
      then show thesis using that [of m] assms(1) by simp
    next
      case False
      then obtain m where "m < length xss - Suc i" "ys = xss ! (Suc i + m)" using ys by (auto simp: in_set_conv_nth)
      then show thesis using that [of "Suc i + m"] by simp
    qed
    then show ?thesis using assms(2) by simp
  qed
  then have "k \<notin> fst ` set (concat (take i xss))" "k \<notin> fst ` set (concat (drop (Suc i) xss))" by force+
  then have "map_of (concat (take i xss)) k = None" "map_of (concat (drop (Suc i) xss)) k = None"
    by (auto simp: map_of_eq_None_iff)
  then show ?thesis unfolding s by (auto simp: map_add_def split: option.splits)
qed

text \<open>The last key at or below the one looked up, in keys in order.\<close>

lemma below_boundary:
  assumes "sorted_wrt (<) (keys :: u64 list)" and "partition_point (\<lambda>k. k \<le> key) keys = m"
  shows "m \<le> length keys" and "\<And>j. j < m \<Longrightarrow> keys ! j \<le> key" and "\<And>j. m \<le> j \<Longrightarrow> j < length keys \<Longrightarrow> key < keys ! j"
proof -
  have s: "sorted keys" using assms(1) by (simp add: strict_sorted_iff)
  then have m: "m = length (takeWhile (\<lambda>k. k \<le> key) keys)" using assms(2) partition_point_sorted [OF s, of key] by simp
  then show "m \<le> length keys" by (simp add: length_takeWhile_le)
  show "keys ! j \<le> key" if "j < m" for j using that m by (metis nth_mem set_takeWhileD takeWhile_nth)
  show "key < keys ! j" if "m \<le> j" "j < length keys" for j
  proof -
    have "\<not> keys ! m \<le> key" using m that nth_length_takeWhile [of "\<lambda>k. k \<le> key" keys] by simp
    then show ?thesis using sorted_nth_mono [OF s that] by simp
  qed
qed

lemma leaf_lookup:
  assumes "sorted_wrt (<) (map fst (kvs :: (u64 \<times> 'v) list))" and "partition_point (\<lambda>k. k \<le> key) (map fst kvs) = m"
  shows "map_of kvs key = (case m of 0 \<Rightarrow> None | Suc i \<Rightarrow> if fst (kvs ! i) = key then Some (snd (kvs ! i)) else None)"
proof -
  note b = below_boundary [OF assms]
  have d: "distinct (map fst kvs)" using assms(1) by (simp add: strict_sorted_iff)
  have only: "j = i" if "m = Suc i" "j < length kvs" "fst (kvs ! j) = key" for i j
  proof -
    have "j < m" using b(3) [of j] that by (cases "m \<le> j") auto
    moreover have "\<not> j < i" using sorted_wrt_nth_less [OF assms(1), of j i] b(1) b(2) [of i] that by auto
    ultimately show ?thesis using that(1) by simp
  qed
  show ?thesis
  proof (cases m)
    case 0
    then have "key \<notin> fst ` set kvs" using b(3) by (force simp: in_set_conv_nth)
    then show ?thesis using 0 by (simp add: map_of_eq_None_iff)
  next
    case (Suc i)
    have i: "i < length kvs" using b(1) Suc by simp
    show ?thesis
    proof (cases "fst (kvs ! i) = key")
      case True
      then have "(key, snd (kvs ! i)) \<in> set kvs" using i by (metis nth_mem prod.collapse)
      then show ?thesis using d Suc True by simp
    next
      case False
      then have "key \<notin> fst ` set kvs" using only [OF Suc] by (auto simp: in_set_conv_nth)
      then show ?thesis using Suc False by (simp add: map_of_eq_None_iff)
    qed
  qed
qed

lemma node_lookup:
  assumes "tree_ok (Node cs)" and "partition_point (\<lambda>k. k \<le> key) (map fst cs) = m"
  shows "map_of (entries (Node cs)) key = (case m of 0 \<Rightarrow> None | Suc i \<Rightarrow> map_of (entries (snd (cs ! i))) key)"
proof -
  note b = below_boundary [OF _ assms(2)]
  have s: "sorted_wrt (<) (map fst cs)" using assms(1) by simp
  have above: "key \<notin> fst ` set (entries (snd (cs ! j)))" if "m \<le> j" "j < length cs" for j
    using b(3) [OF s, of j] assms(1) that by (auto dest!: nth_mem leD)
  show ?thesis
  proof (cases m)
    case 0
    have "key \<notin> fst ` set (entries (snd c))" if "c \<in> set cs" for c
      using above 0 that by (metis in_set_conv_nth le0)
    then have "key \<notin> fst ` set (entries (Node cs))" by auto
    then show ?thesis using 0 by (simp add: map_of_eq_None_iff del: entries.simps)
  next
    case (Suc i)
    have i: "i < length cs" using b(1) [OF s] Suc by simp
    have below: "key \<notin> fst ` set (entries (snd (cs ! j)))" if "j < i" for j
    proof -
      have "\<forall>e \<in> set (entries (snd (cs ! j))). fst e < fst (cs ! i)"
        using assms(1) that i by (simp add: sorted_wrt_iff_nth_less)
      moreover have "fst (cs ! i) \<le> key" using b(2) [OF s, of i] Suc i by simp
      ultimately show ?thesis by auto
    qed
    have "key \<notin> fst ` set (entries (snd (cs ! j)))" if "j < length cs" "j \<noteq> i" for j
      using below [of j] above [of j] that Suc by (cases "j < i") simp_all
    then have "map_of (concat (map (\<lambda>c. entries (snd c)) cs)) key = map_of (map (\<lambda>c. entries (snd c)) cs ! i) key"
      using i by (intro map_of_concat_nth) simp_all
    then show ?thesis using Suc i by simp
  qed
qed

lemma lookup_from_stored:
  "stored read at t \<Longrightarrow> tree_ok t \<Longrightarrow> height t \<le> n \<Longrightarrow> lookup_from n read root key at = Ok (map_of (entries t) key)"
proof (induction arbitrary: n rule: stored.induct)
  case (stored_leaf at kvs value_at)
  then obtain k where n: "n = Suc k" by (cases n) auto
  show ?case
  proof (cases "partition_point (\<lambda>k. k \<le> key) (map fst kvs)")
    case 0
    then show ?thesis using stored_leaf n leaf_lookup [OF _ 0] by simp
  next
    case (Suc i)
    then have "i < length kvs" using below_boundary(1) [OF _ Suc] stored_leaf by simp
    then show ?thesis using stored_leaf n leaf_lookup [OF _ Suc] Suc by simp
  qed
next
  case (stored_node at cs value_at)
  then obtain k where n: "n = Suc k" by (cases n) auto
  show ?case
  proof (cases "partition_point (\<lambda>k. k \<le> key) (map fst cs)")
    case 0
    then show ?thesis using stored_node.hyps n node_lookup [OF stored_node.prems(1) 0] by (simp del: entries.simps)
  next
    case (Suc i)
    then have i: "i < length cs" using below_boundary(1) [OF _ Suc] stored_node.prems(1) by simp
    then have "height (snd (cs ! i)) \<le> k" using height_child [of "cs ! i" cs] stored_node.prems(2) n by (simp del: height.simps)
    moreover have "tree_ok (snd (cs ! i))" using stored_node.prems(1) i by simp
    ultimately have "lookup_from k read root key (value_at i) = Ok (map_of (entries (snd (cs ! i))) key)"
      using stored_node.IH i by blast
    then show ?thesis using stored_node.hyps n Suc node_lookup [OF stored_node.prems(1) Suc] by (simp del: entries.simps)
  qed
qed

text \<open>
  C15: Looking a key up in a thin pool's btree gives what the tree maps it to. When the
  metadata holds a search tree from the root block on, no deeper than the walk goes, the
  lookup succeeds with the value of the key's entry, or with nothing when there is none, and
  the block it is kept in is that value without the bits of its time.
\<close>

theorem thin_lookup_correct:
  assumes "stored read root t" and "tree_ok t" and "height t \<le> 16"
  shows "thin_lookup read root key = Ok (map_of (entries t) key) \<and>
    data_block read root key = Ok (map_option (drop_bit 24) (map_of (entries t) key))"
  using lookup_from_stored [OF assms, of root key] by (simp add: thin_lookup_def data_block_def MAX_DEPTH_def)


text \<open>A pool whose one node, a leaf, maps block 5.\<close>

definition sample_leaf :: "u8 list" where
  "sample_leaf =
     (let body = le32_bytes 2 @ le64_bytes 0 @ le32_bytes 1 @ le32_bytes 1 @ le32_bytes 8 @ le32_bytes 0
            @ le64_bytes 5 @ le64_bytes 0x7000001 @ replicate 4048 0
      in le32_bytes (crc32c_register body XOR BTREE_CSUM_XOR) @ body)"

lemma sample_leaf_node: "thin_node (\<lambda>_ _. Ok sample_leaf) 0 = Ok (LEAF_NODE, [5], \<lambda>i. le64 sample_leaf (40 + 8 * i))"
proof -
  obtain c :: u32 where c: "sample_leaf = le32_bytes c @ drop 4 sample_leaf" "c = crc32c_register (drop 4 sample_leaf) XOR BTREE_CSUM_XOR"
    by (simp add: sample_leaf_def Let_def)
  have "le32 sample_leaf 0 = c" by (subst c(1)) (simp add: le32_def slice_of_def)
  then have "thin_block (\<lambda>_ _. Ok sample_leaf) 0 BTREE_CSUM_XOR w = Ok sample_leaf" for w
    using c(2) by (simp add: thin_block_def checked_mul_def)
  moreover have "le32 sample_leaf 4 = 2" "le64 sample_leaf 8 = 0" "le32 sample_leaf 16 = 1" "le32 sample_leaf 20 = 1"
    "le32 sample_leaf 24 = 8" "le64 sample_leaf 32 = 5"
    by (simp_all add: sample_leaf_def Let_def le32_def le64_def slice_of_def)
  ultimately show ?thesis by (simp add: thin_node_def Let_def)
qed

theorem thin_lookup_correct_witness:
  "thin_lookup (\<lambda>_ _. Ok sample_leaf) 0 5 = Ok (Some 0x7000001) \<and> data_block (\<lambda>_ _. Ok sample_leaf) 0 5 = Ok (Some 7) \<and>
   thin_lookup (\<lambda>_ _. Ok sample_leaf) 0 6 = Ok None"
proof -
  have "le64 sample_leaf 40 = 0x7000001" by (simp add: sample_leaf_def Let_def le64_def slice_of_def)
  then have "stored (\<lambda>_ _. Ok sample_leaf) 0 (Leaf [(5, 0x7000001)])"
    using sample_leaf_node stored_leaf [of _ 0 "[(5, 0x7000001)]" "\<lambda>i. le64 sample_leaf (40 + 8 * i)"] by simp
  from thin_lookup_correct [OF this, of 5] thin_lookup_correct [OF this, of 6] show ?thesis by simp
qed

end
