(* ===== verification/Md_Superblock.thy ===== *)
theory Md_Superblock
  imports Block_Device Rust_Text
begin

text \<open>
  The superblock of a Linux \<open>md\<close> member (\<open>md.rs\<close>): the 1.x checksum, the decoders
  of the 1.x and 0.90 formats, the search over the four places a superblock may be, and the
  grouping of devices into arrays. The reader of the devices is a parameter.

  The level is a signed number; all sizes and offsets are \<^typ>\<open>u64\<close> as in the source.
\<close>

section \<open>Constants and types\<close>

definition MD_MAGIC :: u32 where "MD_MAGIC = 0xa92b4efc"
definition MD_SECTOR :: u64 where [simp]: "MD_SECTOR = 512"
definition V1_FIXED :: nat where [simp]: "V1_FIXED = 256"
definition V1_MAX_DEV :: u32 where [simp]: "V1_MAX_DEV = (4096 - 256) div 2"
definition V0_SIZE :: nat where [simp]: "V0_SIZE = 4096"
definition V0_RESERVED :: u64 where [simp]: "V0_RESERVED = 64 * 1024"
definition FEATURE_RECOVERY_OFFSET :: u32 where [simp]: "FEATURE_RECOVERY_OFFSET = 2"
definition FEATURE_RESHAPE_ACTIVE :: u32 where [simp]: "FEATURE_RESHAPE_ACTIVE = 4"

datatype md_version = V0_90 | V1_0 | V1_1 | V1_2

datatype md_role = Active u32 | Spare | Faulty | Journal

record md_superblock =
  sb_version :: md_version
  superblock_offset :: u64
  array_uuid :: "u8 list"
  sb_name :: ustring
  sb_level :: int
  sb_layout :: u32
  chunk_bytes :: u64
  raid_disks :: u32
  sb_role :: md_role
  data_offset :: u64
  data_size :: u64
  component_size :: u64
  sb_events :: u64
  feature_map :: u32

datatype md_error =
    MdBlock fs_error
  | NoSuperblock nat
  | BadChecksum nat u32 u32
  | MdCorrupt nat string
  | MixedArrays nat
  | DuplicateRole u32
  | TooFewMembers int u32 u32
  | NoCopyLeft "u32 list"
  | MdUnsupported string
  | MdEmpty

section \<open>The checksum of a 1.x superblock\<close>

fun checksum_words :: "u8 list \<Rightarrow> nat \<Rightarrow> nat \<Rightarrow> u64 \<Rightarrow> u64" where
  "checksum_words sb i 0 acc = acc"
| "checksum_words sb i (Suc n) acc =
     checksum_words sb (i + 4) n (if i \<noteq> 216 then acc + ucast (le32 sb i) else acc)"

definition v1_checksum :: "u8 list \<Rightarrow> u32" where
  "v1_checksum sb =
     (let n = length sb div 4;
          words = checksum_words sb 0 n 0;
          i = 4 * n;
          total = (if i + 2 \<le> length sb then words + ucast (le16 sb i) else words)
      in ucast ((total AND 0xffffffff) + drop_bit 32 total))"

section \<open>Decoding\<close>

definition md_corrupt :: "nat \<Rightarrow> string \<Rightarrow> md_error" where
  "md_corrupt member reason = MdCorrupt member reason"

definition i32 :: "u32 \<Rightarrow> int" where
  "i32 w = sint w"

definition sectors_to_bytes :: "nat \<Rightarrow> u64 \<Rightarrow> string \<Rightarrow> md_error + u64" where
  "sectors_to_bytes member sectors what =
     ok_or (checked_mul sectors MD_SECTOR) (md_corrupt member (what @ '' overflows''))"

definition v1_role :: "u16 \<Rightarrow> md_role" where
  "v1_role r = (if r = 0xffff then Spare else if r = 0xfffe then Faulty
     else if r = 0xfffd then Journal else Active (ucast r))"

definition md_name :: "u8 list \<Rightarrow> ustring" where
  "md_name raw = from_utf8_lossy (takeWhile (\<lambda>c. c \<noteq> 0) raw)"

definition area_fits :: "u64 \<Rightarrow> u64 \<Rightarrow> u64 \<Rightarrow> bool" where
  "area_fits off len dsize \<longleftrightarrow> (case checked_add off len of Some e \<Rightarrow> e \<le> dsize | None \<Rightarrow> False)"

definition parse_v1 ::
    "u8 list \<Rightarrow> u64 \<Rightarrow> md_version \<Rightarrow> u64 \<Rightarrow> nat \<Rightarrow> md_error + md_superblock option" where
  "parse_v1 buf at version dev_size member =
     (if le32 buf 0 \<noteq> MD_MAGIC \<or> le32 buf 4 \<noteq> 1 then Ok None
      else if checked_mul (le64 buf 144) MD_SECTOR \<noteq> Some at then Ok None
      else let max_dev = le32 buf 220 in
        if max_dev > V1_MAX_DEV
        then Err (md_corrupt member (''max_dev '' @ show_nat (unat max_dev) @ '' exceeds 4 KiB''))
        else let len = V1_FIXED + 2 * unat max_dev;
                 stored = le32 buf 216;
                 computed = v1_checksum (take len buf)
             in if stored \<noteq> computed then Err (BadChecksum member stored computed)
             else rbind (sectors_to_bytes member (le64 buf 128) ''data_offset'') (\<lambda>d_offset.
                  rbind (sectors_to_bytes member (le64 buf 136) ''data_size'') (\<lambda>d_size.
                  rbind (sectors_to_bytes member (le64 buf 80) ''size'') (\<lambda>c_size.
                  if \<not> area_fits d_offset d_size dev_size
                  then Err (md_corrupt member
                    (''data area '' @ show_nat (unat d_offset) @ ''+'' @ show_nat (unat d_size) @
                     '' runs past the device ('' @ show_nat (unat dev_size) @ '' bytes)''))
                  else let dev_number = le32 buf 160 in
                  if dev_number \<ge> max_dev
                  then Err (md_corrupt member (''dev_number '' @ show_nat (unat dev_number) @
                         '' is outside the role table ('' @ show_nat (unat max_dev) @ '')''))
                  else Ok (Some \<lparr>sb_version = version, superblock_offset = at,
                         array_uuid = slice_of 16 16 buf, sb_name = md_name (slice_of 32 32 buf),
                         sb_level = i32 (le32 buf 72), sb_layout = le32 buf 76,
                         chunk_bytes = ucast (le32 buf 88) * MD_SECTOR, raid_disks = le32 buf 92,
                         sb_role = v1_role (le16 buf (V1_FIXED + 2 * unat dev_number)),
                         data_offset = d_offset, data_size = d_size, component_size = c_size,
                         sb_events = le64 buf 200, feature_map = le32 buf 8\<rparr>)))))"

definition v0_role :: "u32 \<Rightarrow> u32 \<Rightarrow> md_role" where
  "v0_role raid_disk state =
     (if (state AND 1) \<noteq> 0 then Faulty
      else if (state AND 2) \<noteq> 0 \<and> (state AND 4) \<noteq> 0 then Active raid_disk
      else Spare)"

definition parse_v0 :: "u8 list \<Rightarrow> u64 \<Rightarrow> nat \<Rightarrow> md_error + md_superblock option" where
  "parse_v0 buf at member =
     (let w = (\<lambda>i. le32 buf (i * 4)) in
      if w 0 \<noteq> MD_MAGIC \<or> w 1 \<noteq> 0 \<or> w 2 \<noteq> 90 then Ok None
      else let uuid = concat (map (\<lambda>word. slice_of (word * 4) 4 buf) [5, 13, 14, 15]);
               c_size = ucast (w 8) * 1024 :: u64
           in if c_size > at
              then Err (md_corrupt member (''size '' @ show_nat (unat c_size) @
                     '' runs into the superblock at '' @ show_nat (unat at)))
              else Ok (Some \<lparr>sb_version = V0_90, superblock_offset = at, array_uuid = uuid, sb_name = [],
                     sb_level = i32 (w 7), sb_layout = w 64, chunk_bytes = ucast (w 65), raid_disks = w 10,
                     sb_role = v0_role (w (992 + 3)) (w (992 + 4)),
                     data_offset = 0, data_size = at, component_size = c_size,
                     sb_events = le64 buf (39 * 4), feature_map = 0\<rparr>))"

section \<open>Finding the superblock of a device\<close>

definition sb_candidates :: "u64 \<Rightarrow> (u64 \<times> md_version) list" where
  "sb_candidates dsize =
     [(0, V1_1), (4096, V1_2)] @
     (case checked_sub (dsize div MD_SECTOR) 16 of
        Some e \<Rightarrow> [((e AND NOT 7) * MD_SECTOR, V1_0)]
      | None \<Rightarrow> [])"

fun try_v1 ::
    "('d, 'x) block_read_scheme \<Rightarrow> 'd \<Rightarrow> u64 \<Rightarrow> nat \<Rightarrow> (u64 \<times> md_version) list
      \<Rightarrow> md_error + md_superblock option" where
  "try_v1 rd d dsize member [] = Ok None"
| "try_v1 rd d dsize member ((at, version) # cs) =
     (if at + 4096 > dsize then try_v1 rd d dsize member cs
      else rbind (map_err MdBlock (read_at rd d at 4096)) (\<lambda>buf.
           rbind (parse_v1 buf at version dsize member) (\<lambda>r.
             case r of Some sb \<Rightarrow> Ok (Some sb) | None \<Rightarrow> try_v1 rd d dsize member cs)))"

definition read_superblock_of ::
    "('d, 'x) block_read_scheme \<Rightarrow> 'd \<Rightarrow> nat \<Rightarrow> md_error + md_superblock option" where
  "read_superblock_of rd d member =
     (let dsize = size_bytes rd d in
      rbind (try_v1 rd d dsize member (sb_candidates dsize)) (\<lambda>r.
        case r of
          Some sb \<Rightarrow> Ok (Some sb)
        | None \<Rightarrow>
            if dsize \<ge> V0_RESERVED
            then let at = (dsize AND NOT (V0_RESERVED - 1)) - V0_RESERVED
                 in rbind (map_err MdBlock (read_at rd d at V0_SIZE)) (\<lambda>b0. parse_v0 b0 at member)
            else Ok None))"

definition read_superblock :: "('d, 'x) block_read_scheme \<Rightarrow> 'd \<Rightarrow> md_error + md_superblock option" where
  "read_superblock rd d = read_superblock_of rd d 0"

section \<open>Sorting devices into arrays\<close>

record 'd md_group =
  g_uuid :: "u8 list"
  g_superblock :: md_superblock
  g_members :: "'d list"

record 'd md_scan =
  scan_arrays :: "'d md_group list"
  scan_others :: "'d list"
  scan_refused :: "('d \<times> md_error) list"

fun add_to_group :: "'d \<Rightarrow> md_superblock \<Rightarrow> 'd md_group list \<Rightarrow> 'd md_group list" where
  "add_to_group d sb [] = [\<lparr>g_uuid = array_uuid sb, g_superblock = sb, g_members = [d]\<rparr>]"
| "add_to_group d sb (g # gs) =
     (if g_uuid g = array_uuid sb
      then g\<lparr>g_superblock := (if sb_events sb > sb_events (g_superblock g) then sb else g_superblock g),
             g_members := g_members g @ [d]\<rparr> # gs
      else g # add_to_group d sb gs)"

definition scan_step :: "('d, 'x) block_read_scheme \<Rightarrow> nat \<times> 'd \<Rightarrow> 'd md_scan \<Rightarrow> 'd md_scan" where
  "scan_step rd = (\<lambda>(member, d) found.
     (case read_superblock_of rd d member of
        Inr None \<Rightarrow> found\<lparr>scan_others := scan_others found @ [d]\<rparr>
      | Inl e \<Rightarrow> found\<lparr>scan_refused := scan_refused found @ [(d, e)]\<rparr>
      | Inr (Some sb) \<Rightarrow> found\<lparr>scan_arrays := add_to_group d sb (scan_arrays found)\<rparr>))"

definition md_scan_devices :: "('d, 'x) block_read_scheme \<Rightarrow> 'd list \<Rightarrow> 'd md_scan" where
  "md_scan_devices rd devices =
     fold (scan_step rd) (enumerate 0 devices) \<lparr>scan_arrays = [], scan_others = [], scan_refused = []\<rparr>"


section \<open>What a decoded superblock promises\<close>

lemma area_fits_iff: "area_fits off len dsize \<longleftrightarrow> unat off + unat len \<le> unat dsize"
  using unat_lt [of dsize]
  by (auto simp: area_fits_def checked_add_eq_Some checked_add_eq_None word_le_nat_alt split: option.splits)

lemma parse_v1_Ok:
  assumes "parse_v1 buf at version dev_size member = Ok (Some sb)"
  shows "superblock_offset sb = at" and "sb_version sb = version"
    and "unat (data_offset sb) + unat (data_size sb) \<le> unat dev_size"
    and "v1_checksum (take (256 + 2 * unat (le32 buf 220)) buf) = le32 buf 216"
    and "chunk_bytes sb = ucast (le32 buf 88) * 512"
  using assms by (auto simp: parse_v1_def Let_def area_fits_iff split: if_splits)

lemma parse_v1_errors:
  assumes "parse_v1 buf at version dev_size member = Err e"
  shows "(\<exists>r. e = MdCorrupt member r) \<or> (\<exists>a b. e = BadChecksum member a b)"
  using assms
  by (auto simp: parse_v1_def Let_def md_corrupt_def sectors_to_bytes_def rbind_eq_Err ok_or_def
      split: if_splits option.splits)

lemma parse_v0_errors: "parse_v0 buf at member = Err e \<Longrightarrow> \<exists>r. e = MdCorrupt member r"
  by (auto simp: parse_v0_def Let_def md_corrupt_def split: if_splits)

lemma parse_v0_Ok:
  assumes "parse_v0 buf at member = Ok (Some sb)"
  shows "superblock_offset sb = at" and "sb_version sb = V0_90" and "data_offset sb = 0" and "data_size sb = at"
    and "component_size sb \<le> at"
  using assms by (auto simp: parse_v0_def Let_def split: if_splits)

context block_reader
begin

lemma try_v1_outcome:
  assumes d: "invar d" and cs: "\<forall>(at, v) \<in> set cs. unat at + 4096 < 2 ^ 64"
  shows "try_v1 rd d (size_bytes rd d) member cs \<noteq> Err (MdBlock e)"
    and "try_v1 rd d (size_bytes rd d) member cs = Ok (Some sb) \<Longrightarrow>
      (superblock_offset sb, sb_version sb) \<in> set cs \<and>
      unat (superblock_offset sb) + 4096 \<le> length (contents d) \<and>
      unat (data_offset sb) + unat (data_size sb) \<le> length (contents d)"
proof -
  have "try_v1 rd d (size_bytes rd d) member cs \<noteq> Err (MdBlock e) \<and>
    (try_v1 rd d (size_bytes rd d) member cs = Ok (Some sb) \<longrightarrow>
      (superblock_offset sb, sb_version sb) \<in> set cs \<and>
      unat (superblock_offset sb) + 4096 \<le> length (contents d) \<and>
      unat (data_offset sb) + unat (data_size sb) \<le> length (contents d))"
    using cs
  proof (induction cs)
    case (Cons c cs)
    obtain at v where c: "c = (at, v)" by (cases c)
    have ua: "unat (at + 4096) = unat at + 4096" using Cons.prems c by (simp add: unat_plus_if')
    show ?case
    proof (cases "at + 4096 > size_bytes rd d")
      case True
      then show ?thesis using Cons.IH Cons.prems c by auto
    next
      case False
      then have fit: "unat at + 4096 \<le> length (contents d)"
        using ua size_contents [OF d] by (simp add: word_less_nat_alt)
      then have r: "read_at rd d at 4096 = Ok (slice_of (unat at) 4096 (contents d))"
        using read_within [OF d, of at 4096] by simp
      show ?thesis
        using Cons.IH Cons.prems c False r fit size_contents [OF d]
          parse_v1_Ok [of "slice_of (unat at) 4096 (contents d)" at v "size_bytes rd d" member sb]
          parse_v1_errors [of "slice_of (unat at) 4096 (contents d)" at v "size_bytes rd d" member]
        by (cases "parse_v1 (slice_of (unat at) 4096 (contents d)) at v (size_bytes rd d) member")
          (auto split: option.splits)
    qed
  qed simp
  then show "try_v1 rd d (size_bytes rd d) member cs \<noteq> Err (MdBlock e)"
    and "try_v1 rd d (size_bytes rd d) member cs = Ok (Some sb) \<Longrightarrow>
      (superblock_offset sb, sb_version sb) \<in> set cs \<and>
      unat (superblock_offset sb) + 4096 \<le> length (contents d) \<and>
      unat (data_offset sb) + unat (data_size sb) \<le> length (contents d)"
    by blast+
qed

end


lemma unat_and_not_mask:
  fixes x :: u64
  shows "unat (x AND NOT (mask n)) = unat x - unat x mod 2 ^ n"
proof -
  let ?a = "x AND mask n" and ?b = "x AND NOT (mask n)"
  have "?a AND ?b = 0" "?a OR ?b = x" by (simp_all add: bit_eq_iff bit_simps) auto
  then have s: "?a + ?b = x" using word_plus_and_or [of ?a ?b] by (simp del: word_plus_and_or)
  have a: "unat ?a = unat x mod 2 ^ n" by (simp add: take_bit_eq_mask [symmetric] unat_take_bit)
  then have "?a \<le> x" by (simp add: word_le_nat_alt)
  moreover have "?b = x - ?a" using s by (simp add: eq_diff_eq add.commute)
  ultimately show ?thesis using a by (simp add: unat_sub)
qed

lemma sb_candidates_bound:
  assumes "(at, v) \<in> set (sb_candidates dsize)"
  shows "unat at + 4096 < 2 ^ 64"
proof (cases "(at, v) \<in> {(0, V1_1), (4096, V1_2)}")
  case False
  then obtain e where e: "checked_sub (dsize div 512) 16 = Some e" "at = (e AND NOT 7) * 512"
    using assms by (cases "checked_sub (dsize div 512) 16") (auto simp: sb_candidates_def)
  have "unat e + 16 = unat dsize div 512" using e(1) by (auto simp: checked_sub_eq_Some unat_div_distrib)
  then have ue: "unat e + 16 < 2 ^ 55" using unat_lt [of dsize] by simp
  have "NOT 7 = NOT (mask 3 :: u64)" by (simp add: mask_eq_exp_minus_1)
  then have le: "unat (e AND NOT 7) \<le> unat e" using unat_and_not_mask [of e 3] by simp
  then have "unat at = unat (e AND NOT 7) * 512" using e(2) ue by (simp add: unat_mult_lem [THEN iffD1])
  then show ?thesis using le ue by simp
qed auto

lemma v0_place:
  assumes "V0_RESERVED \<le> dsize" and "at = (dsize AND NOT (V0_RESERVED - 1)) - V0_RESERVED"
  shows "unat at + 65536 \<le> unat dsize"
proof -
  have "V0_RESERVED - 1 = mask 16" by (simp add: mask_eq_exp_minus_1)
  then have u: "unat (dsize AND NOT (V0_RESERVED - 1)) = unat dsize - unat dsize mod 2 ^ 16"
    by (simp only: unat_and_not_mask)
  have ge: "65536 \<le> unat dsize" using assms(1) by (simp add: word_le_nat_alt)
  have "1 \<le> unat dsize div 65536" using div_le_mono [OF ge, of 65536] by simp
  then have "65536 \<le> unat dsize - unat dsize mod 2 ^ 16"
    by (simp add: minus_mod_eq_mult_div)
  then have "V0_RESERVED \<le> dsize AND NOT (V0_RESERVED - 1)"
    unfolding word_le_nat_alt u by simp
  then show ?thesis unfolding assms(2) using u ge by (simp add: unat_sub)
qed

lemma superblock_on_device:
  assumes rd: "block_reader rd contents invar" and d: "invar d"
  shows "read_superblock_of rd d member \<noteq> Err (MdBlock e)"
    and "read_superblock_of rd d member = Ok (Some sb) \<Longrightarrow>
       unat (data_offset sb) + unat (data_size sb) \<le> length (contents d) \<and>
       unat (superblock_offset sb) + 4096 \<le> length (contents d)"
proof -
  have "read_superblock_of rd d member \<noteq> Err (MdBlock e) \<and>
    (read_superblock_of rd d member = Ok (Some sb) \<longrightarrow>
       unat (data_offset sb) + unat (data_size sb) \<le> length (contents d) \<and>
       unat (superblock_offset sb) + 4096 \<le> length (contents d))"
  proof -
    let ?n = "size_bytes rd d" and ?cs = "sb_candidates (size_bytes rd d)"
    have cs: "\<forall>(at, v) \<in> set ?cs. unat at + 4096 < 2 ^ 64" using sb_candidates_bound by blast
    note T = block_reader.try_v1_outcome [OF rd d cs, where member = member]
    note sz = block_reader.size_contents [OF rd d]
    show ?thesis
    proof (cases "try_v1 rd d ?n member ?cs")
      case (Inl err)
      then show ?thesis using T(1) by (auto simp: read_superblock_of_def Let_def)
    next
      case (Inr r)
      show ?thesis
      proof (cases r)
        case (Some sb')
        then show ?thesis using T(2) [of sb'] Inr by (auto simp: read_superblock_of_def Let_def)
      next
        case None
        show ?thesis
        proof (cases "V0_RESERVED \<le> ?n")
          case True
          define at where "at = (?n AND NOT (V0_RESERVED - 1)) - V0_RESERVED"
          have fit: "unat at + 65536 \<le> length (contents d)" using v0_place [OF True at_def] sz by simp
          then have "read_at rd d at V0_SIZE = Ok (slice_of (unat at) V0_SIZE (contents d))"
            by (intro block_reader.read_within [OF rd d]) simp
          then have e: "read_superblock_of rd d member = parse_v0 (slice_of (unat at) V0_SIZE (contents d)) at member"
            using True Inr None by (simp add: read_superblock_of_def Let_def at_def)
          show ?thesis
            unfolding e using fit parse_v0_errors [of "slice_of (unat at) V0_SIZE (contents d)" at member "MdBlock e"]
              parse_v0_Ok [of "slice_of (unat at) V0_SIZE (contents d)" at member sb]
            by auto
        qed (use Inr None in \<open>simp add: read_superblock_of_def Let_def\<close>)
      qed
    qed
  qed
  then show "read_superblock_of rd d member \<noteq> Err (MdBlock e)"
    and "read_superblock_of rd d member = Ok (Some sb) \<Longrightarrow>
       unat (data_offset sb) + unat (data_size sb) \<le> length (contents d) \<and>
       unat (superblock_offset sb) + 4096 \<le> length (contents d)" by auto
qed

text \<open>
  C35: Looking for a superblock stays on the device. On a device that keeps the
  \<open>BlockRead\<close> contract no place that is tried runs past the end: the block layer never
  fails, and every error is about the content. A superblock that is found describes a data
  area that lies on the device.
\<close>

theorem md_superblock_on_device:
  assumes "block_reader rd contents invar" and "invar d"
  shows "read_superblock_of rd d member \<noteq> Err (MdBlock e) \<and>
    (read_superblock_of rd d member = Ok (Some sb) \<longrightarrow>
       unat (data_offset sb) + unat (data_size sb) \<le> length (contents d) \<and>
       unat (superblock_offset sb) + 4096 \<le> length (contents d))"
  using superblock_on_device [OF assms] by blast

text \<open>A 0.90 member of a one-disk RAID1, written word by word.\<close>

definition v0_words :: "u32 list" where
  "v0_words = (replicate 1024 0)[0 := MD_MAGIC, 2 := 90, 7 := 1, 8 := 64, 10 := 1, 996 := 6]"

definition v0_member :: "u8 list" where
  "v0_member = replicate 65536 0 @ concat (map le32_bytes v0_words) @ replicate 61440 0"

lemma length_concat_le32: "length (concat (map le32_bytes ws)) = 4 * length ws"
  by (induction ws) simp_all

lemma le32_concat: "i < length ws \<Longrightarrow> le32 (concat (map le32_bytes ws)) (i * 4) = ws ! i"
proof (induction ws arbitrary: i)
  case (Cons w ws)
  then show ?case by (cases i) (simp_all add: le32_def slice_of_def)
qed simp

lemma v0_member_slices:
  "slice_of 65536 4096 v0_member = concat (map le32_bytes v0_words)"
  "at + 4096 \<le> 65536 \<Longrightarrow> slice_of at 4096 v0_member = replicate 4096 0"
  "slice_of 122880 4096 v0_member = replicate 4096 0"
  "length v0_member = 131072"
  by (simp_all add: v0_member_def slice_of_def length_concat_le32 v0_words_def)

lemma le32_zeros: "at + 4 \<le> n \<Longrightarrow> le32 (replicate n 0) at = 0"
  by (simp add: le32_def eval_nat_numeral del: replicate_Suc) (simp add: numeral_eq_Suc)

lemma parse_v1_zeros: "parse_v1 (replicate 4096 0) at v dsize member = Ok None"
  by (simp add: parse_v1_def le32_zeros MD_MAGIC_def)

definition v0_sb :: md_superblock where
  "v0_sb = \<lparr>sb_version = V0_90, superblock_offset = 65536, array_uuid = replicate 16 0, sb_name = [],
     sb_level = 1, sb_layout = 0, chunk_bytes = 0, raid_disks = 1, sb_role = Active 0,
     data_offset = 0, data_size = 65536, component_size = 65536, sb_events = 0, feature_map = 0\<rparr>"

lemma v0_member_superblock: "\<exists>ev u. read_superblock_of memdev v0_member k = Ok (Some (v0_sb\<lparr>sb_events := ev, array_uuid := u\<rparr>))"
proof -
  let ?b = "concat (map le32_bytes v0_words)"
  have w: "le32 ?b (i * 4) = v0_words ! i" if "i < 1024" for i
    using le32_concat [of i v0_words] that by (simp add: v0_words_def)
  have c: "sb_candidates 131072 = [(0, V1_1), (4096, V1_2), (122880, V1_0)]"
    by (simp add: sb_candidates_def checked_sub_def)
  have "try_v1 memdev v0_member 131072 k (sb_candidates 131072) = Ok None"
    unfolding c by (simp add: memdev_read_def v0_member_slices parse_v1_zeros)
  moreover have "\<exists>ev u. parse_v0 ?b 65536 k = Ok (Some (v0_sb\<lparr>sb_events := ev, array_uuid := u\<rparr>))"
    using w [of 0] w [of 1] w [of 2] w [of 7] w [of 8] w [of 10] w [of 64] w [of 65] w [of 995] w [of 996]
    by (simp add: parse_v0_def Let_def v0_words_def v0_role_def v0_sb_def i32_def)
  ultimately show ?thesis
    by (simp add: read_superblock_of_def Let_def v0_member_slices memdev_read_def)
qed

theorem md_superblock_on_device_witness:
  "\<exists>sb. read_superblock_of memdev v0_member 0 = Ok (Some sb) \<and> data_size sb = 65536 \<and>
     unat (data_offset sb) + unat (data_size sb) \<le> length v0_member \<and> unat (superblock_offset sb) + 4096 \<le> length v0_member"
proof -
  obtain ev u where r: "read_superblock_of memdev v0_member 0 = Ok (Some (v0_sb\<lparr>sb_events := ev, array_uuid := u\<rparr>))"
    using v0_member_superblock by blast
  have "memdev_invar v0_member" by (simp add: memdev_invar_def v0_member_slices(4))
  from md_superblock_on_device [OF memdev.block_reader_axioms this] r
  have "unat (data_offset (v0_sb\<lparr>sb_events := ev, array_uuid := u\<rparr>)) + unat (data_size (v0_sb\<lparr>sb_events := ev, array_uuid := u\<rparr>)) \<le> length v0_member \<and>
    unat (superblock_offset (v0_sb\<lparr>sb_events := ev, array_uuid := u\<rparr>)) + 4096 \<le> length v0_member" by blast
  moreover have "data_size (v0_sb\<lparr>sb_events := ev, array_uuid := u\<rparr>) = 65536" by (simp add: v0_sb_def)
  ultimately show ?thesis using r by blast
qed

section \<open>Scanning\<close>

text \<open>
  What a list of groups holds: distinct arrays, each with the devices whose superblock
  names it, led by the superblock of one of them and by none with a lower event count.
\<close>

definition group_ok :: "('d, 'x) block_read_scheme \<Rightarrow> 'd md_group \<Rightarrow> bool" where
  "group_ok rd g \<longleftrightarrow>
     (\<forall>d \<in> set (g_members g). \<exists>m sb. read_superblock_of rd d m = Ok (Some sb) \<and>
        array_uuid sb = g_uuid g \<and> sb_events sb \<le> sb_events (g_superblock g)) \<and>
     (\<exists>d \<in> set (g_members g). \<exists>m. read_superblock_of rd d m = Ok (Some (g_superblock g)))"

definition groups_ok :: "('d, 'x) block_read_scheme \<Rightarrow> 'd md_group list \<Rightarrow> bool" where
  "groups_ok rd gs \<longleftrightarrow> distinct (map g_uuid gs) \<and> list_all (group_ok rd) gs"

lemma uuids_add_to_group:
  "set (map g_uuid (add_to_group d sb gs)) = insert (array_uuid sb) (set (map g_uuid gs))"
  by (induction gs) auto

lemma group_ok_join:
  assumes "group_ok rd g" and r: "read_superblock_of rd d m = Ok (Some sb)" and u: "array_uuid sb = g_uuid g"
  shows "group_ok rd (g\<lparr>g_superblock := (if sb_events sb > sb_events (g_superblock g) then sb else g_superblock g),
           g_members := g_members g @ [d]\<rparr>)"
proof -
  let ?lead = "if sb_events sb > sb_events (g_superblock g) then sb else g_superblock g"
  have "\<exists>m s. read_superblock_of rd x m = Ok (Some s) \<and> array_uuid s = g_uuid g \<and> sb_events s \<le> sb_events ?lead"
    if x: "x \<in> set (g_members g) \<union> {d}" for x
  proof (cases "x = d")
    case True
    then show ?thesis using r u by (intro exI [of _ m] exI [of _ sb]) auto
  next
    case False
    then obtain m' s where "read_superblock_of rd x m' = Ok (Some s)" "array_uuid s = g_uuid g"
      "sb_events s \<le> sb_events (g_superblock g)" using x assms(1) unfolding group_ok_def by blast
    then show ?thesis by (intro exI [of _ m'] exI [of _ s]) auto
  qed
  moreover have "\<exists>x \<in> set (g_members g) \<union> {d}. \<exists>m. read_superblock_of rd x m = Ok (Some ?lead)"
    using assms(1) r by (auto simp: group_ok_def)
  ultimately show ?thesis by (simp add: group_ok_def)
qed

lemma add_to_group_ok:
  assumes "groups_ok rd gs" and r: "read_superblock_of rd d m = Ok (Some sb)"
  shows "groups_ok rd (add_to_group d sb gs)"
  using assms(1)
proof (induction gs)
  case Nil
  then show ?case using r by (auto simp: groups_ok_def group_ok_def)
next
  case (Cons g gs)
  then have IH: "groups_ok rd (add_to_group d sb gs)" by (auto simp: groups_ok_def)
  show ?case
    using Cons.prems IH uuids_add_to_group [of d sb gs] group_ok_join [OF _ r, of g]
    by (auto simp: groups_ok_def)
qed

lemma members_add_to_group:
  "mset (concat (map g_members (add_to_group d sb gs))) = add_mset d (mset (concat (map g_members gs)))"
  by (induction gs) auto

definition scan_ok :: "('d, 'x) block_read_scheme \<Rightarrow> 'd md_scan \<Rightarrow> bool" where
  "scan_ok rd r \<longleftrightarrow> groups_ok rd (scan_arrays r) \<and>
     list_all (\<lambda>d. \<exists>m. read_superblock_of rd d m = Ok None) (scan_others r) \<and>
     list_all (\<lambda>(d, e). \<exists>m. read_superblock_of rd d m = Err e) (scan_refused r)"

lemma scan_fold:
  assumes "scan_ok rd r"
  shows "scan_ok rd (fold (scan_step rd) xs r) \<and>
    mset (concat (map g_members (scan_arrays (fold (scan_step rd) xs r)))) +
    mset (scan_others (fold (scan_step rd) xs r)) + mset (map fst (scan_refused (fold (scan_step rd) xs r)))
    = mset (concat (map g_members (scan_arrays r))) + mset (scan_others r) + mset (map fst (scan_refused r)) + mset (map snd xs)"
  using assms
proof (induction xs arbitrary: r)
  case (Cons x xs)
  obtain m d where x: "x = (m, d)" by (cases x)
  let ?r = "scan_step rd x r"
  have "scan_ok rd ?r"
    using Cons.prems add_to_group_ok [of rd "scan_arrays r" d m]
    by (auto simp: scan_step_def x scan_ok_def split: sum.splits option.splits)
  moreover have "mset (concat (map g_members (scan_arrays ?r))) + mset (scan_others ?r) + mset (map fst (scan_refused ?r))
      = add_mset d (mset (concat (map g_members (scan_arrays r))) + mset (scan_others r) + mset (map fst (scan_refused r)))"
    by (auto simp: scan_step_def x members_add_to_group simp del: mset_concat mset_map split: sum.splits option.splits)
  ultimately show ?case using Cons.IH [of ?r] x by simp
qed simp

text \<open>
  C36: A scan loses no device and mixes no arrays. Every device given comes back exactly
  once, in a group, among the others or among the refused; the groups have distinct UUIDs;
  each device of a group has a superblock of that array, and the superblock that speaks for
  the group is that of a member and has the highest event count.
\<close>

theorem md_scan_sorts:
  "scan_ok rd (md_scan_devices rd devices) \<and>
   mset (concat (map g_members (scan_arrays (md_scan_devices rd devices)))) +
   mset (scan_others (md_scan_devices rd devices)) +
   mset (map fst (scan_refused (md_scan_devices rd devices))) = mset devices"
  using scan_fold [of rd "\<lparr>scan_arrays = [], scan_others = [], scan_refused = []\<rparr>" "enumerate 0 devices"]
  by (simp add: md_scan_devices_def scan_ok_def groups_ok_def)

end
