(* ===== verification/Md_Layout.thy ===== *)
theory Md_Layout
  imports Prelude "HOL-Library.Monad_Syntax"
begin

text \<open>
  Where an \<open>md\<close> array keeps its chunks (\<open>md.rs\<close>): the parity layouts of
  RAID4, 5 and 6, the exponents of the RAID6 syndrome, the zones of RAID0 and the copies
  of RAID10.

  Member counts are at most 1920, and a row number is at most a device size over 512, so no
  sum or product here reaches the width of the source's \<open>u64\<close>: the layout functions work on
  \<^typ>\<open>nat\<close>. A subtraction of the source is one here, and none of them goes below
  zero for the arguments the array passes (at least as many members as the level needs).
  An \<open>unreachable!\<close> arm, and a walk that would not end, is \<open>None\<close>.
\<close>

section \<open>Levels and layouts\<close>

definition LEVEL_LINEAR :: int where [simp]: "LEVEL_LINEAR = - 1"
definition LEVEL_RAID0 :: int where [simp]: "LEVEL_RAID0 = 0"
definition LEVEL_RAID1 :: int where [simp]: "LEVEL_RAID1 = 1"
definition LEVEL_RAID4 :: int where [simp]: "LEVEL_RAID4 = 4"
definition LEVEL_RAID5 :: int where [simp]: "LEVEL_RAID5 = 5"
definition LEVEL_RAID6 :: int where [simp]: "LEVEL_RAID6 = 6"
definition LEVEL_RAID10 :: int where [simp]: "LEVEL_RAID10 = 10"

definition RAID0_LAYOUT_ORIGINAL :: u32 where [simp]: "RAID0_LAYOUT_ORIGINAL = 1"
definition RAID0_LAYOUT_ALTERNATE :: u32 where [simp]: "RAID0_LAYOUT_ALTERNATE = 2"
definition RAID10_OFFSET :: u32 where [simp]: "RAID10_OFFSET = push_bit 16 1"

definition LAYOUT_LEFT_ASYMMETRIC :: u32 where [simp]: "LAYOUT_LEFT_ASYMMETRIC = 0"
definition LAYOUT_RIGHT_ASYMMETRIC :: u32 where [simp]: "LAYOUT_RIGHT_ASYMMETRIC = 1"
definition LAYOUT_LEFT_SYMMETRIC :: u32 where [simp]: "LAYOUT_LEFT_SYMMETRIC = 2"
definition LAYOUT_RIGHT_SYMMETRIC :: u32 where [simp]: "LAYOUT_RIGHT_SYMMETRIC = 3"
definition LAYOUT_PARITY_FIRST :: u32 where [simp]: "LAYOUT_PARITY_FIRST = 4"
definition LAYOUT_PARITY_LAST :: u32 where [simp]: "LAYOUT_PARITY_LAST = 5"
definition LAYOUT_ROTATING_ZERO_RESTART :: u32 where [simp]: "LAYOUT_ROTATING_ZERO_RESTART = 8"
definition LAYOUT_ROTATING_N_RESTART :: u32 where [simp]: "LAYOUT_ROTATING_N_RESTART = 9"
definition LAYOUT_ROTATING_N_CONTINUE :: u32 where [simp]: "LAYOUT_ROTATING_N_CONTINUE = 10"
definition LAYOUT_LEFT_ASYMMETRIC_6 :: u32 where [simp]: "LAYOUT_LEFT_ASYMMETRIC_6 = 16"
definition LAYOUT_RIGHT_ASYMMETRIC_6 :: u32 where [simp]: "LAYOUT_RIGHT_ASYMMETRIC_6 = 17"
definition LAYOUT_LEFT_SYMMETRIC_6 :: u32 where [simp]: "LAYOUT_LEFT_SYMMETRIC_6 = 18"
definition LAYOUT_RIGHT_SYMMETRIC_6 :: u32 where [simp]: "LAYOUT_RIGHT_SYMMETRIC_6 = 19"
definition LAYOUT_PARITY_FIRST_6 :: u32 where [simp]: "LAYOUT_PARITY_FIRST_6 = 20"

section \<open>RAID6 rows\<close>

definition raid6_layout_known :: "u32 \<Rightarrow> bool" where
  "raid6_layout_known layout \<longleftrightarrow>
     (LAYOUT_LEFT_ASYMMETRIC \<le> layout \<and> layout \<le> LAYOUT_PARITY_LAST) \<or>
     (LAYOUT_ROTATING_ZERO_RESTART \<le> layout \<and> layout \<le> LAYOUT_ROTATING_N_CONTINUE) \<or>
     (LAYOUT_LEFT_ASYMMETRIC_6 \<le> layout \<and> layout \<le> LAYOUT_PARITY_FIRST_6)"

definition raid6_asymmetric :: "nat \<Rightarrow> nat \<Rightarrow> nat \<Rightarrow> nat \<times> nat \<times> nat" where
  "raid6_asymmetric n i pd =
     (if pd = n - 1 then (i + 1, pd, 0)
      else if i \<ge> pd then (i + 2, pd, pd + 1)
      else (i, pd, pd + 1))"

definition raid6_map :: "u32 \<Rightarrow> nat \<Rightarrow> nat \<Rightarrow> nat \<Rightarrow> (nat \<times> nat \<times> nat) option" where
  "raid6_map layout n stripe i =
     (let data = n - 2 in
      if layout = LAYOUT_LEFT_ASYMMETRIC then Some (raid6_asymmetric n i (n - 1 - stripe mod n))
      else if layout = LAYOUT_ROTATING_N_RESTART then Some (raid6_asymmetric n i (n - 1 - (stripe + 1) mod n))
      else if layout = LAYOUT_RIGHT_ASYMMETRIC \<or> layout = LAYOUT_ROTATING_ZERO_RESTART
        then Some (raid6_asymmetric n i (stripe mod n))
      else if layout = LAYOUT_LEFT_SYMMETRIC then
        (let pd = n - 1 - stripe mod n in Some ((pd + 2 + i) mod n, pd, (pd + 1) mod n))
      else if layout = LAYOUT_RIGHT_SYMMETRIC then
        (let pd = stripe mod n in Some ((pd + 2 + i) mod n, pd, (pd + 1) mod n))
      else if layout = LAYOUT_PARITY_FIRST then Some (i + 2, 0, 1)
      else if layout = LAYOUT_PARITY_LAST then Some (i, data, data + 1)
      else if layout = LAYOUT_ROTATING_N_CONTINUE then
        (let pd = n - 1 - stripe mod n in Some ((pd + 1 + i) mod n, pd, (pd + n - 1) mod n))
      else if layout = LAYOUT_LEFT_ASYMMETRIC_6 \<or> layout = LAYOUT_RIGHT_ASYMMETRIC_6 then
        (let pd = (if layout = LAYOUT_LEFT_ASYMMETRIC_6 then data - stripe mod (n - 1) else stripe mod (n - 1))
         in Some (if i \<ge> pd then i + 1 else i, pd, n - 1))
      else if layout = LAYOUT_LEFT_SYMMETRIC_6 \<or> layout = LAYOUT_RIGHT_SYMMETRIC_6 then
        (let pd = (if layout = LAYOUT_LEFT_SYMMETRIC_6 then data - stripe mod (n - 1) else stripe mod (n - 1))
         in Some ((pd + 1 + i) mod (n - 1), pd, n - 1))
      else if layout = LAYOUT_PARITY_FIRST_6 then Some (i + 1, 0, n - 1)
      else None)"

definition parity_map :: "int \<Rightarrow> u32 \<Rightarrow> nat \<Rightarrow> nat \<Rightarrow> nat \<Rightarrow> (nat \<times> nat \<times> nat option) option" where
  "parity_map level layout n stripe i =
     (if level = LEVEL_RAID6
      then map_option (\<lambda>(dd, pd, qd). (dd, pd, Some qd)) (raid6_map layout n stripe i)
      else let data = n - 1;
               (pd, dd) =
                 (if layout = LAYOUT_LEFT_ASYMMETRIC then
                    (let pd = data - stripe mod n in (pd, if i \<ge> pd then i + 1 else i))
                  else if layout = LAYOUT_RIGHT_ASYMMETRIC then
                    (let pd = stripe mod n in (pd, if i \<ge> pd then i + 1 else i))
                  else if layout = LAYOUT_LEFT_SYMMETRIC then
                    (let pd = data - stripe mod n in (pd, (pd + 1 + i) mod n))
                  else if layout = LAYOUT_RIGHT_SYMMETRIC then
                    (let pd = stripe mod n in (pd, (pd + 1 + i) mod n))
                  else if layout = LAYOUT_PARITY_FIRST then (0, i + 1)
                  else (data, i))
           in Some (dd, pd, None))"

section \<open>The exponents of Q\<close>

partial_function (option) q_walk :: "nat \<Rightarrow> nat \<Rightarrow> nat \<Rightarrow> nat \<Rightarrow> nat \<Rightarrow> int \<Rightarrow> int option" where
  [code]: "q_walk n dd pd qd m slot =
     (if m = dd then Some slot
      else q_walk n dd pd qd ((m + 1) mod n) (if m \<noteq> pd \<and> m \<noteq> qd then slot + 1 else slot))"

definition q_exponent :: "u32 \<Rightarrow> nat \<Rightarrow> nat \<Rightarrow> nat \<Rightarrow> int option" where
  "q_exponent layout n stripe i = do {
     (dd, pd, qd) \<leftarrow> raid6_map layout n stripe i;
     if LAYOUT_ROTATING_ZERO_RESTART \<le> layout \<and> layout \<le> LAYOUT_ROTATING_N_CONTINUE
     then Some (int dd)
     else let d0 = (if qd = n - 1 then 0 else qd + 1) in q_walk n dd pd qd d0 0
   }"

section \<open>RAID0 zones\<close>

record zone =
  z_start :: u64
  z_len :: u64
  z_dev_start :: u64
  z_slots :: "nat list"

definition zone_step :: "u64 list \<Rightarrow> u64 \<Rightarrow> zone list \<times> u64 \<times> u64 \<Rightarrow> zone list \<times> u64 \<times> u64" where
  "zone_step sizes e = (\<lambda>(zones, start, prev).
     (let slots = filter (\<lambda>s. sizes ! s \<ge> e) [0..<length sizes];
          len = (e - prev) * of_nat (length slots)
      in (zones @ [\<lparr>z_start = start, z_len = len, z_dev_start = prev, z_slots = slots\<rparr>], start + len, e)))"

definition raid0_zones :: "u64 list \<Rightarrow> zone list" where
  "raid0_zones sizes =
     (let ends = remdups_adj (sort (filter (\<lambda>s. s > 0) sizes))
      in fst (fold (zone_step sizes) ends ([], 0, 0)))"

section \<open>RAID10 copies\<close>

record raid10 =
  r_near :: nat
  r_far :: nat
  r_offset :: bool
  r_stride :: nat

definition raid10_near :: "nat \<Rightarrow> raid10" where
  "raid10_near near = \<lparr>r_near = near, r_far = 1, r_offset = False, r_stride = 0\<rparr>"

definition raid10_primary :: "raid10 \<Rightarrow> nat \<Rightarrow> nat \<Rightarrow> nat \<times> nat" where
  "raid10_primary g d c =
     (let at = c * r_near g;
          row = at div d;
          row = (if r_offset g then row * r_far g else row)
      in (at mod d, row))"

definition raid10_copies :: "raid10 \<Rightarrow> nat \<Rightarrow> nat \<Rightarrow> (nat \<times> nat) list" where
  "raid10_copies g d c = concat (map (\<lambda>i.
     (let at = c * r_near g + i; dev = at mod d; row = at div d
      in map (\<lambda>k. ((dev + k * r_near g) mod d,
                   if r_offset g then row * r_far g + k else row + k * r_stride g))
           [0..<r_far g]))
     [0..<r_near g])"


section \<open>Rows are permutations\<close>

lemma mod_shift_inj:
  assumes "(c + i) mod n = (c + j) mod n" and "i < n" and "j < (n :: nat)"
  shows "i = j"
proof -
  have "i \<le> j \<Longrightarrow> j < n \<Longrightarrow> (c + i) mod n = (c + j) mod n \<Longrightarrow> i = j" for i j
  proof -
    assume a: "i \<le> j" "j < n" "(c + i) mod n = (c + j) mod n"
    then have "n dvd (c + j) - (c + i)" using mod_eq_dvd_iff_nat [of "c + i" "c + j" n] by auto
    then have "n dvd j - i" by simp
    then show "i = j" using a by (auto dest: dvd_imp_le)
  qed
  then show ?thesis using assms by (metis nle_le)
qed

text \<open>A row of an array: a member for every data chunk, distinct from each other and from the parity members.\<close>

definition row_ok :: "nat \<Rightarrow> nat \<Rightarrow> nat set \<Rightarrow> (nat \<Rightarrow> nat) \<Rightarrow> bool" where
  "row_ok n data par dm \<longleftrightarrow> inj_on dm {..<data} \<and> dm ` {..<data} \<inter> par = {} \<and> dm ` {..<data} \<union> par \<subseteq> {..<n}"

lemma row_okI:
  assumes "\<And>i j. i < data \<Longrightarrow> j < data \<Longrightarrow> dm i = dm j \<Longrightarrow> i = j"
    and "\<And>i. i < data \<Longrightarrow> dm i < n \<and> dm i \<notin> par" and "par \<subseteq> {..<n}"
  shows "row_ok n data par dm"
  using assms by (auto simp: row_ok_def inj_on_def)

lemma row_ok_skip:
  "p < n \<Longrightarrow> row_ok n (n - 1) {p} (\<lambda>i. if i \<ge> p then i + 1 else i)"
  by (rule row_okI) (auto split: if_splits)

lemma row_ok_shift:
  assumes "0 < s" and "p < n" and "s + data \<le> n" and "par \<subseteq> (\<lambda>t. (p + t) mod n) ` {..<s}"
  shows "row_ok n data par (\<lambda>i. (p + s + i) mod n)"
proof (rule row_okI)
  fix i j assume "i < data" "j < data" "(p + s + i) mod n = (p + s + j) mod n"
  then show "i = j" using mod_shift_inj [of "p + s" i n j] assms(3) by simp
next
  fix i assume i: "i < data"
  have "(p + s + i) mod n \<noteq> (p + t) mod n" if "t < s" for t
    using mod_shift_inj [of p "s + i" n t] that i assms(1,3) by (auto simp: add.assoc)
  then show "(p + s + i) mod n < n \<and> (p + s + i) mod n \<notin> par" using assms by auto
qed (use assms in auto)

lemma row_ok_tail: "row_ok m data par dm \<Longrightarrow> m < n \<Longrightarrow> row_ok n data (insert m par) dm"
  by (auto simp: row_ok_def)

lemma row_ok_asymmetric:
  assumes "3 \<le> n" and "p < n"
  shows "\<exists>dm q. (\<forall>i. raid6_asymmetric n i p = (dm i, p, q)) \<and> p \<noteq> q \<and> row_ok n (n - 2) {p, q} dm"
proof (cases "p = n - 1")
  case True
  then show ?thesis
    using assms by (intro exI [of _ "\<lambda>i. i + 1"] exI [of _ 0]) (auto simp: raid6_asymmetric_def intro!: row_okI)
next
  case False
  then show ?thesis
    using assms by (intro exI [of _ "\<lambda>i. if i \<ge> p then i + 2 else i"] exI [of _ "p + 1"])
      (auto simp: raid6_asymmetric_def intro!: row_okI split: if_splits)
qed

definition raid6_row :: "u32 \<Rightarrow> nat \<Rightarrow> nat \<Rightarrow> (nat \<Rightarrow> nat) \<Rightarrow> nat \<Rightarrow> nat \<Rightarrow> bool" where
  "raid6_row layout n stripe dm p q \<longleftrightarrow>
     (\<forall>i. raid6_map layout n stripe i = Some (dm i, p, q)) \<and> p \<noteq> q \<and> row_ok n (n - 2) {p, q} dm"

lemma raid6_layout_cases:
  "raid6_layout_known layout \<longleftrightarrow> layout \<in> {0, 1, 2, 3, 4, 5, 8, 9, 10, 16, 17, 18, 19, 20}"
proof
  assume "raid6_layout_known layout"
  then have "unat layout \<in> {0..5} \<union> {8..10} \<union> {16..20}"
    by (auto simp: raid6_layout_known_def word_le_nat_alt)
  then have "unat layout \<in> {0, 1, 2, 3, 4, 5, 8, 9, 10, 16, 17, 18, 19, 20}" by auto
  then show "layout \<in> {0, 1, 2, 3, 4, 5, 8, 9, 10, 16, 17, 18, 19, 20}" by (auto simp: word_unat_eq_iff)
qed (auto simp: raid6_layout_known_def)


lemma raid6_rowI:
  assumes "\<And>i. raid6_map layout n stripe i = Some (dm i, p, q)" and "p \<noteq> q" and "row_ok n (n - 2) {p, q} dm"
  shows "\<exists>dm p q. raid6_row layout n stripe dm p q"
  using assms unfolding raid6_row_def by blast

lemma raid6_row_asymmetric:
  assumes "\<And>i. raid6_map layout n stripe i = Some (raid6_asymmetric n i p)" and "p < n" and "3 \<le> n"
  shows "\<exists>dm p q. raid6_row layout n stripe dm p q"
proof -
  obtain dm q where a: "\<forall>i. raid6_asymmetric n i p = (dm i, p, q)" "p \<noteq> q" "row_ok n (n - 2) {p, q} dm"
    using row_ok_asymmetric [OF assms(3,2)] by blast
  show ?thesis by (rule raid6_rowI [of _ _ _ dm p q]) (use a assms(1) in auto)
qed

lemma raid6_row_symmetric:
  assumes "\<And>i. raid6_map layout n stripe i = Some ((p + 2 + i) mod n, p, (p + 1) mod n)" and "p < n" and "3 \<le> n"
  shows "\<exists>dm p q. raid6_row layout n stripe dm p q"
proof (rule raid6_rowI [OF assms(1)])
  show "row_ok n (n - 2) {p, (p + 1) mod n} (\<lambda>i. (p + 2 + i) mod n)"
    using assms(2,3) by (intro row_ok_shift) (auto simp: image_iff intro: bexI [of _ 0] bexI [of _ 1])
  show "p \<noteq> (p + 1) mod n" using assms(2,3) mod_shift_inj [of p 0 n 1] by auto
qed

lemma raid6_row_continue:
  assumes "\<And>i. raid6_map layout n stripe i = Some ((p + 1 + i) mod n, p, (p + n - 1) mod n)" and "p < n" and "3 \<le> n"
  shows "\<exists>dm p q. raid6_row layout n stripe dm p q"
proof (rule raid6_rowI [OF assms(1)])
  let ?q = "(p + n - 1) mod n"
  have "(?q + 1) mod n = (p + n - 1 + 1) mod n" by (rule mod_add_left_eq)
  then have q: "(?q + 1) mod n = p" using assms(2,3) by simp
  have "(p + 1 + i) mod n = (?q + 2 + i) mod n" for i
  proof -
    have "(?q + 2 + i) mod n = (?q + 1 + (1 + i)) mod n" by simp
    also have "\<dots> = ((?q + 1) mod n + (1 + i)) mod n" by (rule mod_add_left_eq [symmetric])
    finally show ?thesis unfolding q by simp
  qed
  moreover have l: "?q < n" using assms(3) by simp
  then have "row_ok n (n - 2) {p, ?q} (\<lambda>i. (?q + 2 + i) mod n)"
    using assms(2,3) q by (intro row_ok_shift) (auto simp: image_iff intro: bexI [of _ 0] bexI [of _ 1])
  ultimately show "row_ok n (n - 2) {p, ?q} (\<lambda>i. (p + 1 + i) mod n)" by simp
  show "p \<noteq> ?q" using q l assms(3) mod_shift_inj [of ?q 0 n 1] by auto
qed

lemma raid6_row_skip:
  assumes "\<And>i. raid6_map layout n stripe i = Some (if i \<ge> p then i + 1 else i, p, n - 1)" and "p < n - 1" and "3 \<le> n"
  shows "\<exists>dm p q. raid6_row layout n stripe dm p q"
proof (rule raid6_rowI [OF assms(1)])
  have "row_ok n (n - 1 - 1) {n - 1, p} (\<lambda>i. if i \<ge> p then i + 1 else i)"
    using row_ok_tail [OF row_ok_skip [OF assms(2)], of n] assms(3) by simp
  then show "row_ok n (n - 2) {p, n - 1} (\<lambda>i. if i \<ge> p then i + 1 else i)"
    by (simp add: insert_commute numeral_2_eq_2)
qed (use assms in simp)

lemma raid6_row_rotate:
  assumes "\<And>i. raid6_map layout n stripe i = Some ((p + 1 + i) mod (n - 1), p, n - 1)" and "p < n - 1" and "3 \<le> n"
  shows "\<exists>dm p q. raid6_row layout n stripe dm p q"
proof (rule raid6_rowI [OF assms(1)])
  have "row_ok (n - 1) (n - 2) {p} (\<lambda>i. (p + 1 + i) mod (n - 1))"
    using assms(2,3) by (intro row_ok_shift) (auto simp: image_iff intro: bexI [of _ 0])
  from row_ok_tail [OF this, of n]
  show "row_ok n (n - 2) {p, n - 1} (\<lambda>i. (p + 1 + i) mod (n - 1))"
    using assms(3) by (simp add: insert_commute)
qed (use assms in simp)

lemma raid6_row_linear:
  assumes "\<And>i. raid6_map layout n stripe i = Some (i + s, p, q)" and "p \<noteq> q"
    and "{p, q} = {..<s} \<union> {n - 2 + s..<n}" and "3 \<le> n"
  shows "\<exists>dm p q. raid6_row layout n stripe dm p q"
proof (rule raid6_rowI [OF assms(1,2)])
  have "s \<le> 2"
  proof (rule ccontr)
    assume "\<not> s \<le> 2"
    then have "{0, 1, 2} \<subseteq> {p, q}" unfolding assms(3) by auto
    then show False by (auto)
  qed
  then show "row_ok n (n - 2) {p, q} (\<lambda>i. i + s)"
    unfolding assms(3) using assms(4) by (intro row_okI) auto
qed

lemma raid6_rows:
  assumes "raid6_layout_known layout" and n: "3 \<le> n"
  shows "\<exists>dm p q. raid6_row layout n stripe dm p q"
proof -
  have m: "n - 1 - stripe mod n < n" "stripe mod n < n" "n - 1 - (stripe + 1) mod n < n"
    "stripe mod (n - 1) < n - 1" "n - 2 - stripe mod (n - 1) < n - 1" using n by simp_all
  from assms(1) consider "layout = 0" | "layout = 1" | "layout = 8" | "layout = 9" | "layout = 2" | "layout = 3"
    | "layout = 4" | "layout = 5" | "layout = 10" | "layout = 16" | "layout = 17" | "layout = 18" | "layout = 19" | "layout = 20"
    unfolding raid6_layout_cases by blast
  then show ?thesis
  proof cases
    case 1 then show ?thesis by (intro raid6_row_asymmetric [OF _ m(1) n]) (simp add: raid6_map_def)
  next
    case 2 then show ?thesis by (intro raid6_row_asymmetric [OF _ m(2) n]) (simp add: raid6_map_def)
  next
    case 3 then show ?thesis by (intro raid6_row_asymmetric [OF _ m(2) n]) (simp add: raid6_map_def)
  next
    case 4 then show ?thesis by (intro raid6_row_asymmetric [OF _ m(3) n]) (simp add: raid6_map_def)
  next
    case 5 then show ?thesis by (intro raid6_row_symmetric [OF _ m(1) n]) (simp add: raid6_map_def Let_def)
  next
    case 6 then show ?thesis by (intro raid6_row_symmetric [OF _ m(2) n]) (simp add: raid6_map_def Let_def)
  next
    case 7 then show ?thesis using n by (intro raid6_row_linear [of _ _ _ 2 0 1]) (auto simp: raid6_map_def)
  next
    case 8 then show ?thesis using n by (intro raid6_row_linear [of _ _ _ 0 "n - 2" "n - 2 + 1"]) (auto simp: raid6_map_def Let_def)
  next
    case 9 then show ?thesis by (intro raid6_row_continue [OF _ m(1) n]) (simp add: raid6_map_def Let_def)
  next
    case 10 then show ?thesis by (intro raid6_row_skip [OF _ m(5) n]) (simp add: raid6_map_def Let_def)
  next
    case 11 then show ?thesis by (intro raid6_row_skip [OF _ m(4) n]) (simp add: raid6_map_def Let_def)
  next
    case 12 then show ?thesis by (intro raid6_row_rotate [OF _ m(5) n]) (simp add: raid6_map_def Let_def)
  next
    case 13 then show ?thesis by (intro raid6_row_rotate [OF _ m(4) n]) (simp add: raid6_map_def Let_def)
  next
    case 14 then show ?thesis using n by (intro raid6_row_linear [of _ _ _ 1 0 "n - 1"]) (auto simp: raid6_map_def)
  qed
qed


text \<open>RAID4 and RAID5, whose parity map is total.\<close>

definition raid5_row :: "u32 \<Rightarrow> nat \<Rightarrow> nat \<Rightarrow> (nat \<Rightarrow> nat) \<Rightarrow> nat \<Rightarrow> bool" where
  "raid5_row layout n stripe dm p \<longleftrightarrow>
     (\<forall>level i. level \<noteq> LEVEL_RAID6 \<longrightarrow> parity_map level layout n stripe i = Some (dm i, p, None)) \<and>
     row_ok n (n - 1) {p} dm"

lemma raid5_rows:
  assumes n: "2 \<le> n"
  shows "\<exists>dm p. raid5_row layout n stripe dm p"
proof -
  have m: "n - 1 - stripe mod n < n" "stripe mod n < n" using n by simp_all
  have shift: "row_ok n (n - 1) {p} (\<lambda>i. (p + 1 + i) mod n)" if "p < n" for p
    using that n by (intro row_ok_shift) (auto simp: image_iff intro: bexI [of _ 0])
  consider "layout = 0" | "layout = 1" | "layout = 2" | "layout = 3" | "layout = 4" | "layout \<notin> {0, 1, 2, 3, 4}" by blast
  then show ?thesis
  proof cases
    case 1 then show ?thesis using row_ok_skip [OF m(1)] unfolding raid5_row_def
      by (intro exI conjI allI impI) (auto simp: parity_map_def Let_def)
  next
    case 2 then show ?thesis using row_ok_skip [OF m(2)] unfolding raid5_row_def
      by (intro exI conjI allI impI) (auto simp: parity_map_def Let_def)
  next
    case 3 then show ?thesis using shift [OF m(1)] unfolding raid5_row_def
      by (intro exI conjI allI impI) (auto simp: parity_map_def Let_def)
  next
    case 4 then show ?thesis using shift [OF m(2)] unfolding raid5_row_def
      by (intro exI conjI allI impI) (auto simp: parity_map_def Let_def)
  next
    case 5 then show ?thesis using n unfolding raid5_row_def
      by (intro exI [of _ "\<lambda>i. i + 1"] exI [of _ 0] conjI allI impI) (auto simp: parity_map_def intro!: row_okI)
  next
    case 6 then show ?thesis using n unfolding raid5_row_def
      by (intro exI [of _ "\<lambda>i. i"] exI [of _ "n - 1"] conjI allI impI) (auto simp: parity_map_def intro!: row_okI)
  qed
qed

section \<open>The exponents of Q are distinct\<close>

definition q_count :: "nat \<Rightarrow> nat set \<Rightarrow> nat \<Rightarrow> nat \<Rightarrow> nat" where
  "q_count n par m k = length (filter (\<lambda>t. (m + t) mod n \<notin> par) [0..<k])"

lemma q_walk_count:
  assumes "m < n" and "(m + k) mod n = dd" and "\<forall>t < k. (m + t) mod n \<noteq> dd"
  shows "q_walk n dd pd qd m slot = Some (slot + int (q_count n {pd, qd} m k))"
  using assms
proof (induction k arbitrary: m slot)
  case 0
  then show ?case by (simp add: q_walk.simps q_count_def)
next
  case (Suc k)
  have ne: "m \<noteq> dd" using Suc.prems(1,3) by force
  let ?m = "(m + 1) mod n" and ?s = "if m \<noteq> pd \<and> m \<noteq> qd then slot + 1 else slot"
  have sh: "(?m + t) mod n = (m + Suc t) mod n" for t by (simp add: mod_add_left_eq)
  have f: "filter (\<lambda>t. (?m + t) mod n \<notin> {pd, qd}) [0..<k] = filter (\<lambda>t. (m + Suc t) mod n \<notin> {pd, qd}) [0..<k]"
    unfolding sh ..
  have "[0..<Suc k] = 0 # map Suc [0..<k]" by (simp add: upt_conv_Cons map_Suc_upt del: upt_Suc)
  then have c: "q_count n {pd, qd} m (Suc k) = (if m \<noteq> pd \<and> m \<noteq> qd then 1 else 0) + q_count n {pd, qd} ?m k"
    using Suc.prems(1) unfolding q_count_def f by (simp add: filter_map o_def del: upt_Suc)
  have "q_walk n dd pd qd ?m ?s = Some (?s + int (q_count n {pd, qd} ?m k))"
    using Suc.prems sh by (intro Suc.IH) auto
  then show ?case using ne c by (subst q_walk.simps) (auto simp: algebra_simps)
qed

lemma q_count_less:
  assumes "k < k'" and "(m + k) mod n \<notin> par"
  shows "q_count n par m k < q_count n par m k'"
proof -
  have "[0..<k'] = [0..<k] @ k # [Suc k..<k']" using assms(1)
    by (metis le0 less_imp_le_nat upt_add_eq_append le_add_diff_inverse upt_conv_Cons)
  then show ?thesis using assms(2) by (simp add: q_count_def)
qed

lemma q_count_le: "q_count n par m k \<le> k"
  unfolding q_count_def using length_filter_le [of _ "[0..<k]"] by simp

text \<open>The steps of the walk from one member to another.\<close>

lemma walk_steps:
  assumes "m < n" and "dd < (n :: nat)"
  obtains k where "k < n" and "(m + k) mod n = dd" and "\<forall>t < k. (m + t) mod n \<noteq> dd"
proof -
  define k where "k = (if m \<le> dd then dd - m else n - m + dd)"
  have k: "k < n" "(m + k) mod n = dd" using assms by (auto simp: k_def)
  moreover have "(m + t) mod n \<noteq> dd" if "t < k" for t
    using mod_shift_inj [of m t n k] that k by auto
  ultimately show thesis using that by blast
qed

lemma q_exponent_row:
  assumes "raid6_row layout n stripe dm p q" and "i < n - 2" and n: "3 \<le> n"
  shows "\<exists>e. q_exponent layout n stripe i = Some (int e) \<and> e < n"
proof -
  have map: "raid6_map layout n stripe i = Some (dm i, p, q)" and d: "dm i < n" and q: "q < n"
    using assms by (auto simp: raid6_row_def row_ok_def)
  show ?thesis
  proof (cases "8 \<le> layout \<and> layout \<le> 10")
    case True
    then show ?thesis using map d by (simp add: q_exponent_def)
  next
    case False
    let ?d0 = "if q = n - 1 then 0 else q + 1"
    have "?d0 < n" using q n by auto
    then obtain k where k: "k < n" "(?d0 + k) mod n = dm i" "\<forall>t < k. (?d0 + t) mod n \<noteq> dm i"
      by (rule walk_steps [OF _ d])
    have "q_exponent layout n stripe i = Some (int (q_count n {p, q} ?d0 k))"
      using q_walk_count [OF \<open>?d0 < n\<close> k(2,3)] False map by (auto simp: q_exponent_def Let_def)
    then show ?thesis using q_count_le [of n "{p, q}" ?d0 k] k(1) by auto
  qed
qed

lemma q_exponent_inj:
  assumes r: "raid6_row layout n stripe dm p q" and n: "3 \<le> n" and i: "i < n - 2" and j: "j < n - 2"
    and "q_exponent layout n stripe i = q_exponent layout n stripe j"
  shows "i = j"
proof -
  have map: "raid6_map layout n stripe x = Some (dm x, p, q)" for x using r by (simp add: raid6_row_def)
  have d: "dm x < n" "dm x \<notin> {p, q}" if "x < n - 2" for x using r that by (auto simp: raid6_row_def row_ok_def)
  have q: "q < n" using r by (auto simp: raid6_row_def row_ok_def)
  have "dm i = dm j"
  proof (cases "8 \<le> layout \<and> layout \<le> 10")
    case True
    then show ?thesis using assms(5) map by (simp add: q_exponent_def)
  next
    case False
    let ?d0 = "if q = n - 1 then 0 else q + 1"
    have d0: "?d0 < n" using q n by auto
    obtain k where k: "k < n" "(?d0 + k) mod n = dm i" "\<forall>t < k. (?d0 + t) mod n \<noteq> dm i"
      by (rule walk_steps [OF d0 d(1) [OF i]])
    obtain l where l: "l < n" "(?d0 + l) mod n = dm j" "\<forall>t < l. (?d0 + t) mod n \<noteq> dm j"
      by (rule walk_steps [OF d0 d(1) [OF j]])
    have "q_count n {p, q} ?d0 k = q_count n {p, q} ?d0 l"
      using q_walk_count [OF d0 k(2,3), of p q 0] q_walk_count [OF d0 l(2,3), of p q 0] False map assms(5)
      by (auto simp: q_exponent_def Let_def)
    then have "k = l"
      using q_count_less [of k l ?d0 n "{p, q}"] q_count_less [of l k ?d0 n "{p, q}"] k(2) l(2) d(2) i j
      by (metis less_irrefl linorder_neqE_nat)
    then show ?thesis using k(2) l(2) by simp
  qed
  then show ?thesis using r i j by (auto simp: raid6_row_def row_ok_def inj_on_def)
qed


lemma row_ok_bij:
  assumes "row_ok n data par dm" and "finite par" and "data + card par = n"
  shows "bij_betw dm {..<data} ({..<n} - par)"
proof -
  have inj: "inj_on dm {..<data}" and sub: "dm ` {..<data} \<subseteq> {..<n} - par" and par: "par \<subseteq> {..<n}"
    using assms(1) by (auto simp: row_ok_def)
  have "card ({..<n} - par) = data" using par assms(2,3) by (subst card_Diff_subset) auto
  then have "dm ` {..<data} = {..<n} - par"
    using sub inj by (intro card_subset_eq) (auto simp: card_image)
  then show ?thesis using inj by (simp add: bij_betw_def)
qed

text \<open>
  C33: Every RAID6 layout fills a row exactly. For a layout that assembly knows, over at
  least three members, each row has two different members for P and Q, the same for all
  its chunks, and its data chunks are spread one to one over all the other members; and
  the exponents of the generator that weight them in Q exist and differ from chunk to
  chunk.
\<close>

theorem raid6_layout_exact:
  assumes "raid6_layout_known layout" and "3 \<le> n"
  shows "\<exists>dm p q. (\<forall>i. parity_map LEVEL_RAID6 layout n stripe i = Some (dm i, p, Some q)) \<and>
    p < n \<and> q < n \<and> p \<noteq> q \<and> bij_betw dm {..<n - 2} ({..<n} - {p, q}) \<and>
    (\<forall>i < n - 2. \<exists>e. q_exponent layout n stripe i = Some (int e) \<and> e < n) \<and>
    inj_on (q_exponent layout n stripe) {..<n - 2}"
proof -
  obtain dm p q where r: "raid6_row layout n stripe dm p q" using raid6_rows [OF assms] by blast
  then have "row_ok n (n - 2) {p, q} dm" "p \<noteq> q" by (auto simp: raid6_row_def)
  moreover from this have "p < n" "q < n" by (auto simp: row_ok_def)
  ultimately show ?thesis
    using r assms(2) q_exponent_row [OF r _ assms(2)] q_exponent_inj [OF r assms(2)]
    by (intro exI [of _ dm] exI [of _ p] exI [of _ q] conjI row_ok_bij)
      (auto simp: raid6_row_def parity_map_def inj_on_def)
qed

theorem raid6_layout_exact_witness:
  "\<exists>dm p q. (\<forall>i. parity_map LEVEL_RAID6 LAYOUT_LEFT_SYMMETRIC 4 7 i = Some (dm i, p, Some q)) \<and>
    bij_betw dm {..<2} ({..<4} - {p, q})"
  using raid6_layout_exact [of LAYOUT_LEFT_SYMMETRIC 4 7] by (fastforce simp: raid6_layout_known_def)

text \<open>
  Every RAID4 and RAID5 row has one parity member, and its data chunks are spread
  one to one over the others, whatever number the superblock records as the layout.
\<close>

theorem raid5_layout_exact:
  assumes "level \<noteq> LEVEL_RAID6" and "2 \<le> n"
  shows "\<exists>dm p. (\<forall>i. parity_map level layout n stripe i = Some (dm i, p, None)) \<and> p < n \<and>
    bij_betw dm {..<n - 1} ({..<n} - {p})"
proof -
  obtain dm p where r: "raid5_row layout n stripe dm p" using raid5_rows [OF assms(2)] by blast
  then have "row_ok n (n - 1) {p} dm" by (simp add: raid5_row_def)
  then show ?thesis
    using r assms row_ok_bij [of n "n - 1" "{p}" dm]
    by (intro exI [of _ dm] exI [of _ p]) (auto simp: raid5_row_def row_ok_def)
qed

theorem raid5_layout_exact_witness:
  "\<exists>dm p. (\<forall>i. parity_map LEVEL_RAID5 LAYOUT_LEFT_ASYMMETRIC 3 5 i = Some (dm i, p, None)) \<and>
    bij_betw dm {..<2} ({..<3} - {p})"
  using raid5_layout_exact [of LEVEL_RAID5 3 LAYOUT_LEFT_ASYMMETRIC 5] by auto

section \<open>RAID10 places\<close>

text \<open>A geometry that assembly accepts over \<open>d\<close> members.\<close>

definition raid10_ok :: "raid10 \<Rightarrow> nat \<Rightarrow> bool" where
  "raid10_ok g d \<longleftrightarrow> 0 < r_near g \<and> 0 < r_far g \<and> r_near g * r_far g \<le> d"

definition raid10_place :: "raid10 \<Rightarrow> nat \<Rightarrow> nat \<Rightarrow> nat \<Rightarrow> nat \<Rightarrow> nat \<times> nat" where
  "raid10_place g d c i k =
     (let at = c * r_near g + i in
      ((at + k * r_near g) mod d,
       if r_offset g then at div d * r_far g + k else at div d + k * r_stride g))"

lemma raid10_copies_place:
  "raid10_copies g d c = concat (map (\<lambda>i. map (raid10_place g d c i) [0..<r_far g]) [0..<r_near g])"
  by (simp add: raid10_copies_def raid10_place_def [abs_def] Let_def mod_add_left_eq)

lemma length_raid10_copies: "length (raid10_copies g d c) = r_near g * r_far g"
  by (simp add: raid10_copies_place length_concat o_def sum_list_triv)

lemma hd_raid10_copies:
  assumes "raid10_ok g d"
  shows "raid10_copies g d c = raid10_primary g d c # tl (raid10_copies g d c)"
proof -
  have "[0..<r_near g] = 0 # [1..<r_near g]" "[0..<r_far g] = 0 # [1..<r_far g]"
    using assms by (auto simp: raid10_ok_def upt_conv_Cons)
  then show ?thesis by (simp add: raid10_copies_place raid10_place_def raid10_primary_def Let_def)
qed

lemma set_concat_upt:
  "x \<in> set (concat (map (\<lambda>i. map (f i) [0..<m]) [0..<n])) \<longleftrightarrow> (\<exists>i < n. \<exists>k < m. x = f i k)"
proof -
  have "x \<in> set (concat (map (\<lambda>i. map (f i) [0..<m]) [0..<n])) \<longleftrightarrow> (\<exists>i \<in> {0..<n}. \<exists>k \<in> {0..<m}. x = f i k)"
    by (simp add: image_iff)
  then show ?thesis by (simp add: Bex_def)
qed

lemma set_raid10_copies:
  "x \<in> set (raid10_copies g d c) \<longleftrightarrow> (\<exists>i < r_near g. \<exists>k < r_far g. x = raid10_place g d c i k)"
  unfolding raid10_copies_place by (rule set_concat_upt)

lemma near_far_unique:
  assumes "i < near" and "j < near" and "i + k * near = j + l * (near :: nat)"
  shows "i = j \<and> k = l"
proof -
  have "(i + k * near) div near = k" "(j + l * near) div near = l" using assms(1,2) by simp_all
  then have "k = l" using assms(3) by simp
  then show ?thesis using assms(3) by simp
qed

lemma raid10_slots_inj:
  assumes ok: "raid10_ok g d" and "i < r_near g" "k < r_far g" "j < r_near g" "l < r_far g"
    and "fst (raid10_place g d c i k) = fst (raid10_place g d c j l)"
  shows "i = j \<and> k = l"
proof -
  let ?n = "r_near g"
  have b: "x + y * ?n < d" if "x < ?n" "y < r_far g" for x y
  proof -
    have "x + y * ?n < ?n + y * ?n" using that by simp
    also have "\<dots> = Suc y * ?n" by simp
    also have "\<dots> \<le> r_far g * ?n" using that by (intro mult_le_mono1) simp
    finally show ?thesis using ok by (simp add: raid10_ok_def mult.commute)
  qed
  have "(c * ?n + (i + k * ?n)) mod d = (c * ?n + (j + l * ?n)) mod d"
    using assms(6) by (simp add: raid10_place_def Let_def add.assoc)
  then have "i + k * ?n = j + l * ?n" by (rule mod_shift_inj [OF _ b [OF assms(2,3)] b [OF assms(4,5)]])
  then show ?thesis using near_far_unique assms(2,4) by blast
qed

text \<open>Distinct copies of one chunk lie on distinct members.\<close>

lemma raid10_copies_distinct:
  assumes "raid10_ok g d"
  shows "distinct (map fst (raid10_copies g d c))"
proof -
  have in_row: "distinct (map fst (map (raid10_place g d c i) [0..<r_far g]))" if "i < r_near g" for i
    using raid10_slots_inj [OF assms that _ that] by (auto simp: distinct_map inj_on_def)
  have "distinct (concat (map (\<lambda>i. map fst (map (raid10_place g d c i) [0..<r_far g])) [0..<m]))"
    if "m \<le> r_near g" for m
    using that
  proof (induction m)
    case (Suc m)
    have "set (map fst (map (raid10_place g d c m) [0..<r_far g]))
      \<inter> set (concat (map (\<lambda>i. map fst (map (raid10_place g d c i) [0..<r_far g])) [0..<m])) = {}"
    proof (rule ccontr)
      assume "\<not> ?thesis"
      then obtain k i l where "i < m" "k < r_far g" "l < r_far g"
        "fst (raid10_place g d c m k) = fst (raid10_place g d c i l)" by (auto simp: image_iff)
      then show False using raid10_slots_inj [OF assms, of m k i l c] Suc.prems by simp
    qed
    then show ?case using Suc in_row [of m] by auto
  qed simp
  from this [of "r_near g"] show ?thesis by (simp add: raid10_copies_place map_concat o_def)
qed

text \<open>And no two chunks share a place, while the rows of one section stay within it.\<close>

lemma raid10_place_inj:
  assumes ok: "raid10_ok g d" and i: "i < r_near g" "j < r_near g" and k: "k < r_far g" "l < r_far g"
    and rows: "\<not> r_offset g \<Longrightarrow> (c * r_near g + i) div d < r_stride g \<and> (c' * r_near g + j) div d < r_stride g"
    and eq: "raid10_place g d c i k = raid10_place g d c' j l"
  shows "c = c' \<and> i = j \<and> k = l"
proof -
  let ?n = "r_near g"
  define at at' where "at = c * ?n + i" and "at' = c' * ?n + j"
  have "0 < r_near g * r_far g" using ok by (simp add: raid10_ok_def)
  then have d: "0 < d" using ok unfolding raid10_ok_def by linarith
  have "at div d = at' div d \<and> k = l"
  proof (cases "r_offset g")
    case True
    then have "k + at div d * r_far g = l + at' div d * r_far g"
      using eq by (simp add: raid10_place_def Let_def at_def at'_def add.commute)
    then show ?thesis using near_far_unique [OF k] by blast
  next
    case False
    then have "at div d + k * r_stride g = at' div d + l * r_stride g"
      using eq by (simp add: raid10_place_def Let_def at_def at'_def)
    then show ?thesis using near_far_unique [of "at div d" "r_stride g" "at' div d" k l] rows [OF False]
      by (simp add: at_def at'_def)
  qed
  then have kl: "k = l" and row: "at div d = at' div d" by blast+
  have "(at + k * ?n) mod d = (at' + k * ?n) mod d"
    using eq kl by (simp add: raid10_place_def Let_def at_def at'_def)
  then have "(k * ?n + at mod d) mod d = (k * ?n + at' mod d) mod d"
    using mod_add_right_eq [of "k * ?n" at d] mod_add_right_eq [of "k * ?n" at' d] by (simp add: add.commute)
  then have "at mod d = at' mod d" by (rule mod_shift_inj) (simp_all add: d)
  then have "i + c * ?n = j + c' * ?n"
  proof -
    have "at = at'" using row \<open>at mod d = at' mod d\<close> by (metis div_mult_mod_eq)
    then show ?thesis by (simp add: at_def at'_def add.commute)
  qed
  then show ?thesis using near_far_unique [OF i] kl by blast
qed

text \<open>
  RAID10 keeps every chunk apart. Over the members of a geometry that assembly
  accepts, a chunk has near times far copies on that many different members, the primary
  copy being the first of them; and while the rows of a far section stay within its stride,
  no two chunks, and no two copies of one, are ever given the same place.
\<close>

theorem raid10_places_apart:
  assumes "raid10_ok g d"
  shows "length (raid10_copies g d c) = r_near g * r_far g \<and> distinct (map fst (raid10_copies g d c)) \<and>
    raid10_copies g d c ! 0 = raid10_primary g d c \<and>
    (c \<noteq> c' \<longrightarrow> (r_offset g \<or> (\<forall>x \<in> {c, c'}. \<forall>i < r_near g. (x * r_near g + i) div d < r_stride g)) \<longrightarrow>
      set (raid10_copies g d c) \<inter> set (raid10_copies g d c') = {})"
proof (intro conjI impI)
  show "length (raid10_copies g d c) = r_near g * r_far g" by (rule length_raid10_copies)
  show "distinct (map fst (raid10_copies g d c))" by (rule raid10_copies_distinct [OF assms])
  show "raid10_copies g d c ! 0 = raid10_primary g d c" by (subst hd_raid10_copies [OF assms]) simp
  assume "c \<noteq> c'" and "r_offset g \<or> (\<forall>x \<in> {c, c'}. \<forall>i < r_near g. (x * r_near g + i) div d < r_stride g)"
  then show "set (raid10_copies g d c) \<inter> set (raid10_copies g d c') = {}"
    using raid10_place_inj [OF assms] unfolding disjoint_iff set_raid10_copies by blast
qed

theorem raid10_places_apart_witness:
  "set (raid10_copies \<lparr>r_near = 2, r_far = 1, r_offset = False, r_stride = 8\<rparr> 3 1) \<inter>
   set (raid10_copies \<lparr>r_near = 2, r_far = 1, r_offset = False, r_stride = 8\<rparr> 3 2) = {}"
  using raid10_places_apart [of "\<lparr>r_near = 2, r_far = 1, r_offset = False, r_stride = 8\<rparr>" 3 1 2]
  by (simp add: raid10_ok_def less_Suc_eq numeral_2_eq_2)


section \<open>RAID0 zones cover the members\<close>

text \<open>
  The zones from array byte \<open>st\<close> on, the members being used up to byte \<open>prev\<close>:
  each follows the last one on the array and on the members, is striped over exactly the
  members that reach to its end, and ends where the first of them does.
\<close>

fun zones_ok :: "u64 list \<Rightarrow> nat \<Rightarrow> nat \<Rightarrow> zone list \<Rightarrow> bool" where
  "zones_ok sizes st prev [] \<longleftrightarrow> (\<forall>s \<in> set sizes. unat s \<le> prev)"
| "zones_ok sizes st prev (z # zs) \<longleftrightarrow>
     (\<exists>w > 0. unat (z_start z) = st \<and> unat (z_dev_start z) = prev \<and> unat (z_len z) = w * length (z_slots z) \<and>
        z_slots z = filter (\<lambda>s. prev + w \<le> unat (sizes ! s)) [0..<length sizes] \<and> z_slots z \<noteq> [] \<and>
        (\<forall>s \<in> set sizes. unat s \<le> prev \<or> prev + w \<le> unat s) \<and> prev + w \<in> unat ` set sizes \<and>
        zones_ok sizes (st + unat (z_len z)) (prev + w) zs)"

definition left_over :: "nat \<Rightarrow> u64 list \<Rightarrow> nat" where
  "left_over prev sizes = sum_list (map (\<lambda>s. unat s - prev) sizes)"

lemma left_over_0: "\<forall>s \<in> set sizes. unat s \<le> prev \<Longrightarrow> left_over prev sizes = 0"
  by (induction sizes) (auto simp: left_over_def)

lemma left_over_split:
  assumes "\<forall>s \<in> set sizes. unat s \<le> prev \<or> prev + w \<le> unat s"
  shows "left_over prev sizes = w * length (filter (\<lambda>s. prev + w \<le> unat s) sizes) + left_over (prev + w) sizes"
  using assms by (induction sizes) (auto simp: left_over_def)

lemma filter_nth_upt: "length (filter (\<lambda>s. P (xs ! s)) [0..<length xs]) = length (filter P xs)"
proof -
  have "filter P xs = map ((!) xs) (filter (\<lambda>s. P (xs ! s)) [0..<length xs])"
    using filter_map [of P "(!) xs" "[0..<length xs]"] by (simp add: map_nth o_def)
  then show ?thesis by simp
qed

text \<open>The ends of zones in order: the next one leaves no member's end in between, and the rest are above it.\<close>

lemma next_end:
  assumes "sorted (e # es)" and "distinct (e # es)" and "set (e # es) = {s \<in> set sizes. prev < s}"
  shows "set es = {s \<in> set sizes. e < s}" and "s \<in> set sizes \<Longrightarrow> s \<le> prev \<or> e \<le> s"
proof -
  have above: "s \<in> set (e # es) \<longleftrightarrow> s \<in> set sizes \<and> prev < s" for s using assms(3) by blast
  have "s \<in> set es \<longleftrightarrow> s \<in> set (e # es) \<and> e < s" for s using assms(1,2) by (auto simp: less_le)
  moreover have "prev < e" using above [of e] by simp
  ultimately show "set es = {s \<in> set sizes. e < s}" using above order.strict_trans by blast
  show "s \<le> prev \<or> e \<le> s" if "s \<in> set sizes"
    using that above [of s] assms(1) by (auto simp: not_less)
qed

lemma fold_zones:
  assumes "sorted es" and "distinct es" and "set es = {s \<in> set sizes. prev < s}"
    and "unat st + left_over (unat prev) sizes < 2 ^ 64"
  shows "\<exists>zs. fst (fold (zone_step sizes) es (acc, st, prev)) = acc @ zs \<and> zones_ok sizes (unat st) (unat prev) zs"
  using assms
proof (induction es arbitrary: acc st prev)
  case Nil
  then show ?case by (intro exI [of _ "[]"]) (auto simp: not_less [symmetric] word_less_nat_alt)
next
  case (Cons e es)
  have e: "prev < e" "e \<in> set sizes" using Cons.prems(3) by auto
  define w where "w = unat e - unat prev"
  have w: "0 < w" "unat prev + w = unat e" using e(1) by (simp_all add: w_def word_less_nat_alt)
  note nx = next_end [OF Cons.prems(1-3)]
  have gap: "\<forall>s \<in> set sizes. unat s \<le> unat prev \<or> unat prev + w \<le> unat s"
    using nx(2) w(2) by (auto simp: word_le_nat_alt)
  define slots where "slots = filter (\<lambda>s. sizes ! s \<ge> e) [0..<length sizes]"
  define len where "len = (e - prev) * of_nat (length slots)"
  define z where "z = \<lparr>z_start = st, z_len = len, z_dev_start = prev, z_slots = slots\<rparr>"
  have sl: "slots = filter (\<lambda>s. unat prev + w \<le> unat (sizes ! s)) [0..<length sizes]"
    by (simp add: slots_def w(2) word_le_nat_alt)
  have lo: "left_over (unat prev) sizes = w * length slots + left_over (unat prev + w) sizes"
    using left_over_split [OF gap] filter_nth_upt [of "\<lambda>s. unat prev + w \<le> unat s" sizes] by (simp add: sl)
  have wl: "w * length slots < 2 ^ 64" using Cons.prems(4) lo by simp
  have ne: "slots \<noteq> []"
  proof -
    obtain k where "k < length sizes" "sizes ! k = e" using e(2) by (auto simp: in_set_conv_nth)
    then show ?thesis by (auto simp: slots_def filter_empty_conv)
  qed
  have ue: "unat (e - prev) = w" using e(1) by (simp add: w_def unat_sub)
  have "length slots \<le> w * length slots" using w(1) by simp
  then have "length slots < 2 ^ 64" using wl by linarith
  then have "unat (of_nat (length slots) :: u64) = length slots" by (simp add: unat_of_nat)
  then have ul: "unat len = w * length slots"
    using wl ue by (simp add: len_def unat_mult_lem [THEN iffD1])
  have us: "unat (st + len) = unat st + unat len"
    using Cons.prems(4) lo ul by (simp add: unat_plus_if')
  have "\<exists>zs. fst (fold (zone_step sizes) es (acc @ [z], st + len, e)) = (acc @ [z]) @ zs \<and>
      zones_ok sizes (unat (st + len)) (unat e) zs"
  proof (rule Cons.IH)
    show "set es = {s \<in> set sizes. e < s}" by (rule nx(1))
    show "unat (st + len) + left_over (unat e) sizes < 2 ^ 64" using Cons.prems(4) lo us ul w(2) by simp
    show "sorted es" "distinct es" using Cons.prems(1,2) by simp_all
  qed
  then obtain zs where zs: "fst (fold (zone_step sizes) es (acc @ [z], st + len, e)) = acc @ z # zs"
    "zones_ok sizes (unat st + unat len) (unat prev + w) zs"
    by (auto simp: us w(2))
  have "fold (zone_step sizes) (e # es) (acc, st, prev) = fold (zone_step sizes) es (acc @ [z], st + len, e)"
    by (simp add: zone_step_def Let_def slots_def [symmetric] len_def [symmetric] z_def)
  moreover have "zones_ok sizes (unat st) (unat prev) (z # zs)"
    unfolding zones_ok.simps using w ul sl ne gap zs(2) e(2) by (intro exI [of _ w]) (simp add: z_def)
  ultimately show ?case using zs(1) by (intro exI [of _ "z # zs"]) simp
qed

lemma distinct_remdups_adj_sorted: "sorted xs \<Longrightarrow> distinct (remdups_adj xs)"
  by (induction xs rule: remdups_adj.induct) (auto simp: order.antisym)

lemma raid0_zones_ok:
  assumes "sum_list (map unat sizes) < 2 ^ 64"
  shows "zones_ok sizes 0 0 (raid0_zones sizes)"
proof -
  let ?es = "remdups_adj (sort (filter (\<lambda>s. s > 0) sizes))"
  have "\<exists>zs. fst (fold (zone_step sizes) ?es ([], 0, 0)) = [] @ zs \<and> zones_ok sizes (unat (0 :: u64)) (unat (0 :: u64)) zs"
    using assms by (intro fold_zones) (auto simp: left_over_def sorted_remdups_adj distinct_remdups_adj_sorted)
  then show ?thesis by (auto simp: raid0_zones_def Let_def)
qed

lemma zones_ok_total: "zones_ok sizes st prev zs \<Longrightarrow> sum_list (map (\<lambda>z. unat (z_len z)) zs) = left_over prev sizes"
proof (induction zs arbitrary: st prev)
  case Nil
  then show ?case by (simp add: left_over_0)
next
  case (Cons z zs)
  from Cons.prems obtain w where w: "unat (z_len z) = w * length (z_slots z)"
    "z_slots z = filter (\<lambda>s. prev + w \<le> unat (sizes ! s)) [0..<length sizes]"
    "\<forall>s \<in> set sizes. unat s \<le> prev \<or> prev + w \<le> unat s"
    "zones_ok sizes (st + unat (z_len z)) (prev + w) zs" unfolding zones_ok.simps by blast
  show ?case
    using Cons.IH [OF w(4)] left_over_split [OF w(3)] w(1,2) filter_nth_upt [of "\<lambda>s. prev + w \<le> unat s" sizes] by simp
qed

lemma zones_ok_find:
  assumes "zones_ok sizes st prev zs" and "st \<le> pos" and "pos < st + left_over prev sizes"
  shows "\<exists>z. List.find (\<lambda>z. unat (z_start z) \<le> pos \<and> pos < unat (z_start z) + unat (z_len z)) zs = Some z"
  using assms
proof (induction zs arbitrary: st prev)
  case (Cons z zs)
  show ?case
  proof (cases "pos < st + unat (z_len z)")
    case False
    from Cons.prems(1) obtain w where w: "zones_ok sizes (st + unat (z_len z)) (prev + w) zs"
      by auto
    have "sum_list (map (\<lambda>z. unat (z_len z)) (z # zs)) = left_over prev sizes"
      by (rule zones_ok_total [OF Cons.prems(1)])
    then have "left_over prev sizes = unat (z_len z) + left_over (prev + w) sizes"
      using zones_ok_total [OF w] by simp
    then show ?thesis using Cons.IH [OF w] Cons.prems False by simp
  qed (use Cons.prems in auto)
qed (simp add: left_over_0)

text \<open>
  The zones of a RAID0 account for every byte of every member. When the sizes sum
  to less than 2^64, the zones follow one another on the array from byte 0 and on the
  members from byte 0, each is striped over exactly the members that reach to its end, no
  member ends inside a zone, together they hold as many bytes as the members do, and
  every array byte lies in a zone.
\<close>

theorem raid0_zones_cover:
  assumes "sum_list (map unat sizes) < 2 ^ 64"
  shows "zones_ok sizes 0 0 (raid0_zones sizes) \<and>
    sum_list (map (\<lambda>z. unat (z_len z)) (raid0_zones sizes)) = sum_list (map unat sizes) \<and>
    (\<forall>pos < sum_list (map unat sizes). \<exists>z.
       List.find (\<lambda>z. unat (z_start z) \<le> pos \<and> pos < unat (z_start z) + unat (z_len z)) (raid0_zones sizes) = Some z)"
  using raid0_zones_ok [OF assms] zones_ok_total [OF raid0_zones_ok [OF assms]]
    zones_ok_find [OF raid0_zones_ok [OF assms]] by (simp add: left_over_def)

theorem raid0_zones_cover_witness:
  "sum_list (map (\<lambda>z. unat (z_len z)) (raid0_zones [1024, 512, 1024])) = 2560"
  using raid0_zones_cover [of "[1024, 512, 1024]"] by simp

end
