(* ===== verification/Gf256.thy ===== *)
theory Gf256
  imports Prelude
begin

text \<open>
  The field GF(256) of the RAID6 syndrome (\<open>md.rs\<close>): the tables the source builds at
  compile time, and multiplication, powers of the generator and inverses through them. The
  tables are related to repeated doubling \<open>xt\<close> (multiplication by \<open>{02}\<close> modulo
  the field polynomial), which is linear over XOR and of order 255; the field laws the RAID6
  reconstruction needs follow from that.
\<close>

section \<open>The tables\<close>

definition gf_double :: "u16 \<Rightarrow> u16" where
  "gf_double x0 = (let x = push_bit 1 x0 in if x AND 0x100 \<noteq> 0 then x XOR 0x11d else x)"

fun gf_fill :: "nat \<Rightarrow> nat \<Rightarrow> u16 \<Rightarrow> u8 list \<Rightarrow> u8 list \<Rightarrow> u8 list \<times> u8 list" where
  "gf_fill 0 i x ex lg = (ex, lg)"
| "gf_fill (Suc n) i x ex lg =
     gf_fill n (Suc i) (gf_double x) (ex[i := ucast x]) (lg[unat x := of_nat i])"

definition gf_tables :: "u8 list \<times> u8 list" where
  "gf_tables = (let (ex, lg) = gf_fill 255 0 1 (replicate 256 0) (replicate 256 0)
     in (ex[255 := ex ! 0], lg))"

definition GF_EXP :: "u8 list" where "GF_EXP = fst gf_tables"
definition GF_LOG :: "u8 list" where "GF_LOG = snd gf_tables"

definition gf_pow2 :: "int \<Rightarrow> u8" where
  "gf_pow2 e = GF_EXP ! nat (e mod 255)"

definition gf_mul :: "u8 \<Rightarrow> u8 \<Rightarrow> u8" where
  "gf_mul a b = (if a = 0 \<or> b = 0 then 0
     else GF_EXP ! ((unat (GF_LOG ! unat a) + unat (GF_LOG ! unat b)) mod 255))"

definition gf_inv :: "u8 \<Rightarrow> u8" where
  "gf_inv a = GF_EXP ! ((255 - unat (GF_LOG ! unat a)) mod 255)"

section \<open>Doubling\<close>

definition xt :: "u8 \<Rightarrow> u8" where
  "xt b = push_bit 1 b XOR (if bit b 7 then 0x1d else 0)"

lemma xt_xor: "xt (a XOR b) = xt a XOR xt b"
  by (simp add: xt_def bit_eq_iff bit_simps) (auto simp: bit_simps)

lemma xt_0 [simp]: "xt 0 = 0"
  by (simp add: xt_def)

lemma bit8_cases: "n < LENGTH(8) \<Longrightarrow> n \<in> {0, 1, 2, 3, 4, 5, 6, 7}"
  by auto

lemma xt_eq_0: "xt z = 0 \<longleftrightarrow> z = 0"
proof
  assume z: "xt z = 0"
  have "\<not> bit (push_bit 1 z) 0" by (simp only: bit_push_bit_iff) simp
  then have "bit (xt z) 0 = bit z 7" by (simp add: xt_def bit_simps del: push_bit_Suc push_bit_of_1)
  then have 7: "\<not> bit z 7" using z by simp
  then have "push_bit 1 z = 0" using z by (simp add: xt_def)
  then have "\<not> bit (push_bit 1 z) (Suc n)" for n by (simp only: bit_0_eq bot_apply) simp
  then have "\<not> bit z n" if "n < 7" for n
    using that unfolding bit_push_bit_iff by (auto simp: possible_bit_def)
  then have "\<not> bit z n" if "n < 8" for n using 7 that by (cases "n = 7") auto
  then show "z = 0" by (intro bit_word_eqI) simp
qed simp

lemma xor_eq_0: "a XOR b = 0 \<longleftrightarrow> a = (b :: u8)"
  by (metis xor.assoc xor.left_neutral xor_self_eq)

lemma xt_inj: "xt a = xt b \<longleftrightarrow> a = b"
  using xt_xor [of a b] xt_eq_0 [of "a XOR b"] by (auto simp: xor_eq_0)

lemma xtp_0 [simp]: "(xt ^^ n) 0 = 0"
  by (induction n) simp_all

lemma xtp_xor: "(xt ^^ n) (a XOR b) = (xt ^^ n) a XOR (xt ^^ n) b"
  by (induction n) (simp_all add: xt_xor)

lemma xtp_inj: "(xt ^^ n) a = (xt ^^ n) b \<longleftrightarrow> a = b"
  by (induction n) (simp_all add: xt_inj)

lemma funpow_15: "(f ^^ 15) x = f (f (f (f (f (f (f (f (f (f (f (f (f (f (f x))))))))))))))"
  by (simp add: numeral_eq_Suc)

lemma xt_blocks:
  "(xt ^^ 15) 1 = 38" "(xt ^^ 15) 38 = 96" "(xt ^^ 15) 96 = 193" "(xt ^^ 15) 193 = 185"
    "(xt ^^ 15) 185 = 15" "(xt ^^ 15) 15 = 223" "(xt ^^ 15) 223 = 26" "(xt ^^ 15) 26 = 59"
    "(xt ^^ 15) 59 = 169" "(xt ^^ 15) 169 = 85" "(xt ^^ 15) 85 = 145" "(xt ^^ 15) 145 = 150"
    "(xt ^^ 15) 150 = 100" "(xt ^^ 15) 100 = 89" "(xt ^^ 15) 89 = 36" "(xt ^^ 15) 36 = 44"
    "(xt ^^ 15) 44 = 1"
  by (simp_all add: funpow_15 xt_def)

lemma funpow_plus_apply: "(f ^^ (m + n)) x = (f ^^ m) ((f ^^ n) x)"
  by (simp add: funpow_add)

lemma xt_powers: "(xt ^^ 15) 1 \<noteq> 1" "(xt ^^ 51) 1 \<noteq> 1" "(xt ^^ 85) 1 \<noteq> 1" "(xt ^^ 255) 1 = 1"
proof -
  have m: "(xt ^^ (15 * Suc k)) x = (xt ^^ (15 * k)) ((xt ^^ 15) x)" for k x
    using funpow_plus_apply [of "15 * k" 15 xt x] by (simp add: algebra_simps)
  have e: "51 = 6 + 15 * Suc (Suc (Suc 0))" "85 = 10 + 15 * Suc (Suc (Suc (Suc (Suc 0))))" by simp_all
  have f: "(f ^^ 6) x = f (f (f (f (f (f x)))))" "(f ^^ 10) x = f (f (f (f (f (f (f (f (f (f x)))))))))"
    for f :: "u8 \<Rightarrow> u8" and x
    by (simp_all add: numeral_eq_Suc)
  show "(xt ^^ 15) 1 \<noteq> 1" by (simp add: xt_blocks)
  show "(xt ^^ 51) 1 \<noteq> 1" unfolding e(1) funpow_plus_apply m by (simp add: xt_blocks f xt_def)
  show "(xt ^^ 85) 1 \<noteq> 1" unfolding e(2) funpow_plus_apply m by (simp add: xt_blocks f xt_def)
  have "(255 :: nat) = 15 * Suc (Suc (Suc (Suc (Suc (Suc (Suc (Suc (Suc (Suc (Suc (Suc (Suc (Suc (Suc (Suc (Suc 0))))))))))))))))" by simp
  then show "(xt ^^ 255) 1 = 1" by (simp only: m) (simp add: xt_blocks)
qed


section \<open>The order of the generator\<close>

definition gpow :: "nat \<Rightarrow> u8" where
  "gpow n = (xt ^^ n) 1"

lemma gpow_period: "gpow (i + 255 * k) = gpow i"
proof (induction k)
  case (Suc k)
  have "i + 255 * Suc k = (i + 255 * k) + 255" by simp
  then show ?case using Suc unfolding gpow_def by (simp only: funpow_plus_apply xt_powers(4))
qed simp

lemma gpow_mod: "gpow (i mod 255) = gpow i"
  using gpow_period [of "i mod 255" "i div 255"] by simp

lemma gpow_nonzero: "gpow i \<noteq> 0"
  using xtp_inj [of i 1 0] by (simp add: gpow_def)

lemma gpow_mult: "gpow d = 1 \<Longrightarrow> gpow (d * k + i) = gpow i"
proof (induction k)
  case (Suc k)
  have "d * Suc k + i = d * k + i + d" by simp
  then show ?case using Suc unfolding gpow_def by (simp only: funpow_plus_apply)
qed simp

lemma gpow_eq_1:
  assumes "0 < d" and "d < 255"
  shows "gpow d \<noteq> 1"
proof
  assume 1: "gpow d = 1"
  obtain x y where "d * x = 255 * y + gcd d 255" using bezout_nat [of d 255] assms(1) by auto
  then have "gpow (gcd d 255) = 1"
    using gpow_mult [OF 1, of x 0] gpow_period [of "gcd d 255" y] by (simp add: add.commute gpow_def)
  moreover have "gcd d 255 dvd 255" by simp
  moreover have "gcd d 255 < 255" using assms gcd_le1_nat [of d 255] by linarith
  ultimately obtain g where g: "gpow g = 1" "g dvd 255" "g < 255" by blast
  have "list_all (\<lambda>g. 255 mod g = 0 \<longrightarrow> 15 mod g = 0 \<or> 51 mod g = 0 \<or> 85 mod g = 0) [0..<255]"
    by code_simp
  then have "g dvd 15 \<or> g dvd 51 \<or> g dvd 85"
    using g(2,3) by (simp add: list_all_iff dvd_eq_mod_eq_0)
  then obtain k where k: "15 = g * k \<or> 51 = g * k \<or> 85 = g * k" unfolding dvd_def by blast
  have "gpow (g * k) = 1" using gpow_mult [OF g(1), of k 0] by (simp add: gpow_def)
  then show False using k xt_powers(1-3) by (auto simp: gpow_def)
qed


lemma gpow_inj:
  assumes "i < 255" and "j < 255" and "gpow i = gpow j"
  shows "i = j"
proof -
  have "i \<le> j \<Longrightarrow> j < 255 \<Longrightarrow> gpow i = gpow j \<Longrightarrow> i = j" for i j
  proof (rule ccontr)
    assume a: "i \<le> j" "j < 255" "gpow i = gpow j" "i \<noteq> j"
    then have "(xt ^^ i) ((xt ^^ (j - i)) 1) = (xt ^^ i) 1"
      unfolding gpow_def by (simp only: funpow_plus_apply [symmetric]) simp
    then have "gpow (j - i) = 1" unfolding xtp_inj gpow_def .
    then show False using gpow_eq_1 [of "j - i"] a by simp
  qed
  then show ?thesis using assms by (metis nle_le)
qed

lemma gpow_surj:
  assumes "b \<noteq> 0"
  obtains i where "i < 255" and "b = gpow i"
proof -
  have c: "card (gpow ` {..<255}) = 255"
    using gpow_inj by (subst card_image) (auto simp: inj_on_def)
  have "gpow ` {..<255} = UNIV - {0}"
  proof (rule card_subset_eq)
    show "gpow ` {..<255} \<subseteq> UNIV - {0}" using gpow_nonzero by auto
    have "card (UNIV - {0 :: u8}) = card (UNIV :: u8 set) - 1" by (simp add: card_Diff_singleton)
    then show "card (gpow ` {..<255}) = card (UNIV - {0 :: u8})" using c by (simp add: card_word)
  qed simp
  then show thesis using that assms by auto
qed

section \<open>What the tables hold\<close>

lemma gf_double_xt: "gf_double (ucast b) = ucast (xt b)"
proof -
  have "bit (push_bit 1 (ucast b :: u16)) 8 \<longleftrightarrow> bit b 7"
    unfolding bit_push_bit_iff by (simp add: bit_simps)
  then have "push_bit 1 (ucast b :: u16) AND 0x100 \<noteq> 0 \<longleftrightarrow> bit b 7"
    using and_exp_eq_0_iff_not_bit [of "push_bit 1 (ucast b :: u16)" 8] by simp
  then have d: "gf_double (ucast b) = push_bit 1 (ucast b) XOR (if bit b 7 then 0x11d else 0)"
    by (simp add: gf_double_def Let_def del: push_bit_Suc)
  show ?thesis
  proof (rule bit_word_eqI)
    fix n assume "n < LENGTH(16)"
    then have "n < 16" by simp
    then have "n \<in> {0, 1, 2, 3, 4, 5, 6, 7, 8, 9, 10, 11, 12, 13, 14, 15}" by (auto simp: less_Suc_eq numeral_eq_Suc)
    then show "bit (gf_double (ucast b)) n = bit (ucast (xt b) :: u16) n"
      unfolding d xt_def by (auto simp: bit_simps simp del: push_bit_Suc dest: bit_imp_le_length)
  qed
qed

lemma ucast_16: "unat (ucast (b :: u8) :: u16) = unat b" "ucast (ucast (b :: u8) :: u16) = b"
  using unat_lt [of b] by (simp_all add: unat_ucast word_unat_eq_iff)

definition filled :: "nat \<Rightarrow> nat \<Rightarrow> u8 list \<Rightarrow> u8 list \<Rightarrow> u8 list \<times> u8 list \<Rightarrow> bool" where
  "filled i n ex lg t \<longleftrightarrow> length (fst t) = 256 \<and> length (snd t) = 256 \<and>
     (\<forall>j < 256. fst t ! j = (if i \<le> j \<and> j < i + n then gpow j else ex ! j)) \<and>
     (\<forall>j < 255. snd t ! unat (gpow j) = (if i \<le> j \<and> j < i + n then of_nat j else lg ! unat (gpow j)))"

lemma gf_fill_spec:
  assumes "i + n \<le> 255" and "length ex = 256" and "length lg = 256"
  shows "filled i n ex lg (gf_fill n i (ucast (gpow i)) ex lg)"
  using assms
proof (induction n arbitrary: i ex lg)
  case (Suc n)
  let ?ex = "ex[i := gpow i]" and ?lg = "lg[unat (gpow i) := of_nat i]"
  have s: "gf_fill (Suc n) i (ucast (gpow i)) ex lg = gf_fill n (Suc i) (ucast (gpow (Suc i))) ?ex ?lg"
    by (simp add: gf_double_xt gpow_def ucast_16)
  have lt: "unat (gpow j) < 256" for j using unat_lt [of "gpow j"] by simp
  have IH: "filled (Suc i) n ?ex ?lg (gf_fill n (Suc i) (ucast (gpow (Suc i))) ?ex ?lg)"
    using Suc by simp
  have e: "?ex ! j = (if j = i then gpow i else ex ! j)" if "j < 256" for j
    using that Suc.prems by (simp add: nth_list_update)
  have g: "?lg ! unat (gpow j) = (if j = i then of_nat i else lg ! unat (gpow j))" if "j < 255" for j
    using that Suc.prems lt gpow_inj [of i j] by (auto simp: nth_list_update word_unat_eq_iff [symmetric])
  show ?case using IH unfolding s filled_def by (auto simp: e g)
qed (auto simp: filled_def)

lemma gf_exp: "i < 256 \<Longrightarrow> GF_EXP ! i = gpow i"
  and gf_log: "i < 255 \<Longrightarrow> GF_LOG ! unat (gpow i) = of_nat i"
proof -
  have one: "(1 :: u16) = ucast (gpow 0)" by (simp add: gpow_def)
  have F: "filled 0 255 (replicate 256 0) (replicate 256 0) (gf_fill 255 0 1 (replicate 256 0) (replicate 256 0))"
    unfolding one by (rule gf_fill_spec) simp_all
  have "gpow 255 = gpow 0" using xt_powers(4) by (simp add: gpow_def)
  then show "i < 256 \<Longrightarrow> GF_EXP ! i = gpow i"
    using F by (cases "i = 255")
      (simp_all add: filled_def GF_EXP_def gf_tables_def nth_list_update case_prod_beta Let_def del: gf_fill.simps)
  show "i < 255 \<Longrightarrow> GF_LOG ! unat (gpow i) = of_nat i"
    using F by (simp add: filled_def GF_LOG_def gf_tables_def case_prod_beta Let_def del: gf_fill.simps)
qed

section \<open>The field laws\<close>

lemma gf_pow2_gpow: "gf_pow2 e = gpow (nat (e mod 255))"
proof -
  have "nat (e mod 255) < 255" by (simp add: nat_less_iff)
  then show ?thesis by (simp add: gf_pow2_def gf_exp)
qed

lemma gf_mul_gpow: "gf_mul (gpow i) b = (xt ^^ i) b"
proof (cases "b = 0")
  case False
  then obtain j where j: "j < 255" "b = gpow j" by (rule gpow_surj)
  have l: "unat (GF_LOG ! unat (gpow k)) = k mod 255" for k
  proof -
    have "k mod 255 < 255" by simp
    then show ?thesis using gf_log [of "k mod 255"] by (simp only: gpow_mod) (simp add: unat_of_nat)
  qed
  have "gf_mul (gpow i) b = gpow ((i mod 255 + j mod 255) mod 255)"
    using j gpow_nonzero by (simp add: gf_mul_def l gf_exp)
  also have "\<dots> = gpow (i + j)" by (simp only: mod_add_eq gpow_mod)
  finally show ?thesis by (simp add: j(2) gpow_def funpow_plus_apply)
qed (simp add: gf_mul_def)


lemma byte_gpow: "\<exists>i. a = gpow i" if "a \<noteq> 0"
  using gpow_surj [OF that] by blast

lemma gf_mul_0 [simp]: "gf_mul 0 b = 0" "gf_mul a 0 = 0"
  by (simp_all add: gf_mul_def)

lemma gf_mul_commute: "gf_mul a b = gf_mul b a"
  by (simp add: gf_mul_def add.commute)

lemma gf_mul_xor: "gf_mul a (b XOR c) = gf_mul a b XOR gf_mul a c"
  using byte_gpow [of a] by (cases "a = 0") (auto simp: gf_mul_gpow xtp_xor)

lemma gf_mul_assoc: "gf_mul a (gf_mul b c) = gf_mul (gf_mul a b) c"
proof (cases "a = 0 \<or> b = 0")
  case False
  then obtain i j where "a = gpow i" "b = gpow j" using byte_gpow by blast
  moreover have "gf_mul (gpow i) (gpow j) = gpow (i + j)" by (simp add: gf_mul_gpow) (simp add: gpow_def funpow_plus_apply)
  ultimately show ?thesis by (simp add: gf_mul_gpow funpow_plus_apply)
qed auto

lemma gf_mul_1: "gf_mul 1 a = a"
  using gf_mul_gpow [of 0 a] by (simp add: gpow_def)

lemma gf_inv: "a \<noteq> 0 \<Longrightarrow> gf_mul (gf_inv a) a = 1"
proof -
  assume "a \<noteq> 0"
  then obtain i where i: "i < 255" "a = gpow i" by (rule gpow_surj)
  have "(255 - i) mod 255 < 256" using mod_less_divisor [of 255 "255 - i"] by linarith
  then have "gf_inv a = gpow ((255 - i) mod 255)"
    using i gf_log [of i] gf_exp by (simp add: gf_inv_def unat_of_nat)
  then have "gf_mul (gf_inv a) a = gpow ((255 - i) + i)"
    using i(2) by (simp only: gpow_mod gf_mul_gpow) (simp add: gpow_def funpow_plus_apply [symmetric])
  then show ?thesis using i(1) xt_powers(4) by (simp add: gpow_def)
qed

lemma gf_pow2_add: "gf_mul (gf_pow2 e) (gf_pow2 f) = gf_pow2 (e + f)"
proof -
  have "gf_mul (gf_pow2 e) (gf_pow2 f) = gpow (nat (e mod 255) + nat (f mod 255))"
    by (simp add: gf_pow2_gpow gf_mul_gpow) (simp add: gpow_def funpow_plus_apply)
  also have "\<dots> = gpow ((nat (e mod 255) + nat (f mod 255)) mod 255)" by (simp add: gpow_mod)
  also have "(nat (e mod 255) + nat (f mod 255)) mod 255 = nat ((e + f) mod 255)"
    using nat_mod_distrib [of "e mod 255 + f mod 255" 255] by (simp add: nat_add_distrib mod_add_eq)
  finally show ?thesis by (simp add: gf_pow2_gpow)
qed

lemma gf_pow2_eq_1: "gf_pow2 e = 1 \<longleftrightarrow> e mod 255 = 0"
proof
  assume "gf_pow2 e = 1"
  then show "e mod 255 = 0"
    using gpow_eq_1 [of "nat (e mod 255)"] by (force simp: gf_pow2_gpow)
qed (simp add: gf_pow2_gpow gpow_def)

lemma gf_pow2_nonzero: "gf_pow2 e \<noteq> 0"
  by (simp add: gf_pow2_gpow gpow_nonzero)

lemma gf_pow2_cancel: "gf_mul (gf_pow2 (- e)) (gf_mul (gf_pow2 e) b) = b"
  using gf_pow2_add [of "- e" e] gf_pow2_eq_1 [of 0] by (simp add: gf_mul_assoc gf_mul_1)

section \<open>The contract of the field\<close>

text \<open>
  What the reconstruction of RAID6 relies on: bytes under XOR and \<open>mul\<close> form a
  commutative ring in which every non-zero byte has an inverse. Its one consequence that
  matters is the solution of the two syndrome equations for two lost bytes.
\<close>

locale byte_field =
  fixes mul :: "u8 \<Rightarrow> u8 \<Rightarrow> u8" and inv :: "u8 \<Rightarrow> u8"
  assumes mul_commute: "mul a b = mul b a"
    and mul_assoc: "mul a (mul b c) = mul (mul a b) c"
    and mul_1: "mul 1 a = a"
    and mul_xor: "mul a (b XOR c) = mul a b XOR mul a c"
    and mul_inv: "a \<noteq> 0 \<Longrightarrow> mul (inv a) a = 1"
begin

lemma mul_xor_left: "mul (a XOR b) c = mul a c XOR mul b c"
  by (metis mul_commute mul_xor)

lemma two_erasures:
  assumes "gx' = 1" and "h = mul gy xi" and "gx' = mul gx xi" and "h XOR 1 \<noteq> 0"
  shows "mul (mul h (inv (h XOR 1))) (dx XOR dy) XOR
         mul (mul xi (inv (h XOR 1))) (mul gx dx XOR mul gy dy) = dx"
proof -
  let ?v = "inv (h XOR 1)"
  have 1: "mul (mul xi ?v) (mul gx dx XOR mul gy dy) = mul ?v dx XOR mul ?v (mul h dy)"
  proof -
    have "mul (mul xi ?v) (mul g d) = mul ?v (mul (mul g xi) d)" for g d
      by (metis mul_assoc mul_commute)
    then show ?thesis unfolding mul_xor assms(2) using assms(1,3) by (simp add: mul_1)
  qed
  have 2: "mul (mul h ?v) (dx XOR dy) = mul ?v (mul h dx) XOR mul ?v (mul h dy)"
    by (metis mul_assoc mul_commute mul_xor)
  have "mul (mul h ?v) (dx XOR dy) XOR mul (mul xi ?v) (mul gx dx XOR mul gy dy)
      = mul ?v (mul h dx) XOR mul ?v dx"
    unfolding 1 2 by (simp add: xor.left_commute xor.commute xor.assoc)
  also have "\<dots> = mul ?v (mul (h XOR 1) dx)" by (simp add: mul_xor [symmetric] mul_xor_left mul_1)
  also have "\<dots> = dx" using mul_inv [OF assms(4)] by (simp add: mul_assoc mul_1)
  finally show ?thesis .
qed

end

interpretation gf: byte_field gf_mul gf_inv
  by unfold_locales (auto intro: gf_mul_commute gf_mul_assoc gf_mul_1 gf_mul_xor gf_inv)

text \<open>
  C34: The compile-time tables make a field. Multiplication through the logarithm and
  exponent tables is commutative and associative with unit 1, distributes over XOR, and
  \<open>gf_inv\<close> inverts every non-zero byte; the powers of the generator \<open>{02}\<close>
  multiply by adding exponents, and \<open>{02}\<close> has order exactly 255.
\<close>

theorem gf256_is_field:
  "gf_mul a b = gf_mul b a \<and> gf_mul a (gf_mul b c) = gf_mul (gf_mul a b) c \<and> gf_mul 1 a = a \<and>
   gf_mul a (b XOR c) = gf_mul a b XOR gf_mul a c \<and> (a = 0 \<or> gf_mul (gf_inv a) a = 1) \<and>
   gf_mul (gf_pow2 e) (gf_pow2 f) = gf_pow2 (e + f) \<and> (gf_pow2 e = 1 \<longleftrightarrow> e mod 255 = 0)"
  by (intro conjI)
    (simp_all add: gf_mul_commute [of a b] gf_mul_assoc gf_mul_1 gf_mul_xor gf_pow2_add gf_pow2_eq_1 disj_imp gf_inv)

end
