(* ===== verification/Md_Array.thy ===== *)
theory Md_Array
  imports Md_Superblock Md_Layout Gf256
begin

text \<open>
  The assembled \<open>md\<close> array (\<open>md.rs\<close>): assembly from the members' superblocks, and the
  read path of every level, with the reconstruction of missing chunks from other copies,
  parity, and the RAID6 syndromes.

  A read takes the buffer it fills and returns the filled one. A member read returns
  \<open>None\<close> where the source says \<open>false\<close>: the member is missing and the buffer is as it was.
\<close>

section \<open>Chunks of parity and mirror arrays\<close>

record striping =
  st_level :: int
  st_layout :: u32
  st_chunk :: u64
  st_members :: u64
  st_raid10 :: "raid10 option"

type_synonym member_reader = "nat \<Rightarrow> u64 \<Rightarrow> u8 list \<Rightarrow> fs_error + u8 list option"

text \<open>The copies of a chunk in turn: the first that can be read, or the last error met.\<close>

fun try_copies ::
    "member_reader \<Rightarrow> u64 \<Rightarrow> u64 \<Rightarrow> u8 list \<Rightarrow> fs_error option \<Rightarrow> (nat \<times> nat) list
      \<Rightarrow> (fs_error option) + u8 list" where
  "try_copies member chunk within buf failed [] = Err failed"
| "try_copies member chunk within buf failed ((slot, row) # cs) =
     (case member slot (of_nat row * chunk + within) buf of
        Inr (Some b) \<Rightarrow> Ok b
      | Inr None \<Rightarrow> try_copies member chunk within buf failed cs
      | Inl e \<Rightarrow> try_copies member chunk within buf (Some e) cs)"

text \<open>XOR of every other member of the row into the buffer.\<close>

fun xor_row :: "member_reader \<Rightarrow> u64 \<Rightarrow> nat \<Rightarrow> nat option \<Rightarrow> u8 list \<Rightarrow> nat list \<Rightarrow> fs_error + u8 list" where
  "xor_row member off dd qd buf [] = Ok buf"
| "xor_row member off dd qd buf (slot # slots) =
     (if slot = dd \<or> Some slot = qd then xor_row member off dd qd buf slots
      else rbind (member slot off (replicate (length buf) 0)) (\<lambda>r.
        case r of
          None \<Rightarrow> Err (Custom (''md: slot '' @ show_nat slot @ '' missing while reconstructing slot '' @ show_nat dd))
        | Some tmp \<Rightarrow> xor_row member off dd qd (map2 (XOR) buf tmp) slots))"

definition exponent_of :: "u32 \<Rightarrow> nat \<Rightarrow> nat \<Rightarrow> nat \<Rightarrow> fs_error + int" where
  "exponent_of layout n stripe i =
     ok_or (q_exponent layout n stripe i) (Panicked ''the walk over the members does not end'')"

text \<open>P and Q of a RAID6 row with the data chunks that are present taken out, and the chunks that are not.\<close>

fun strip_row ::
    "member_reader \<Rightarrow> u32 \<Rightarrow> nat \<Rightarrow> nat \<Rightarrow> u64 \<Rightarrow> nat list \<Rightarrow> u8 list \<times> u8 list \<times> nat list
      \<Rightarrow> fs_error + u8 list \<times> u8 list \<times> nat list" where
  "strip_row member layout n stripe off [] (p, q, missing) = Ok (p, q, missing)"
| "strip_row member layout n stripe off (i # is) (p, q, missing) =
     (case parity_map LEVEL_RAID6 layout n stripe i of
        None \<Rightarrow> Err (Panicked ''internal error: entered unreachable code'')
      | Some (slot, _, _) \<Rightarrow>
          rbind (member slot off (replicate (length p) 0)) (\<lambda>r.
            case r of
              None \<Rightarrow> strip_row member layout n stripe off is (p, q, missing @ [i])
            | Some d \<Rightarrow>
                rbind (exponent_of layout n stripe i) (\<lambda>e.
                  let g = gf_pow2 e in
                  strip_row member layout n stripe off is
                    (map2 (XOR) p d, map2 (\<lambda>qb db. qb XOR gf_mul g db) q d, missing))))"

definition raid6_lost :: "nat \<Rightarrow> nat list \<Rightarrow> bool \<Rightarrow> bool \<Rightarrow> fs_error" where
  "raid6_lost stripe missing have_p have_q =
     Custom (''md: RAID6 row '' @ show_nat stripe @ '' has lost data chunks '' @ debug_nats missing @
             '', P present '' @ show_bool have_p @ '', Q present '' @ show_bool have_q)"

definition solve_raid6 ::
    "u32 \<Rightarrow> nat \<Rightarrow> nat \<Rightarrow> nat \<Rightarrow> bool \<Rightarrow> bool \<Rightarrow> u8 list \<times> u8 list \<times> nat list \<Rightarrow> fs_error + u8 list" where
  "solve_raid6 layout n stripe x have_p have_q = (\<lambda>(p, q, missing).
     (case missing of
        [_] \<Rightarrow>
          if have_p then Ok p
          else if have_q then
            rbind (exponent_of layout n stripe x) (\<lambda>ex. Ok (map (gf_mul (gf_pow2 (- ex))) q))
          else Err (raid6_lost stripe missing have_p have_q)
      | [a, b] \<Rightarrow>
          if have_p \<and> have_q then
            rbind (exponent_of layout n stripe x) (\<lambda>ex.
            rbind (exponent_of layout n stripe (if a = x then b else a)) (\<lambda>ey.
              let gyx = gf_pow2 (ey - ex) in
              if gyx XOR 1 = 0 then Err (raid6_lost stripe missing have_p have_q)
              else let denom = gf_inv (gyx XOR 1);
                       ca = gf_mul gyx denom;
                       cb = gf_mul (gf_pow2 (- ex)) denom
                   in Ok (map2 (\<lambda>pb qb. gf_mul ca pb XOR gf_mul cb qb) p q)))
          else Err (raid6_lost stripe missing have_p have_q)
      | _ \<Rightarrow> Err (raid6_lost stripe missing have_p have_q)))"

definition or_zeros :: "nat \<Rightarrow> u8 list option \<Rightarrow> u8 list" where
  "or_zeros n r = (case r of Some b \<Rightarrow> b | None \<Rightarrow> replicate n 0)"

definition rebuild_raid6 ::
    "striping \<Rightarrow> member_reader \<Rightarrow> nat \<Rightarrow> nat \<Rightarrow> u64 \<Rightarrow> u8 list \<Rightarrow> fs_error + u8 list" where
  "rebuild_raid6 s member stripe x off buf =
     (let n = unat (st_members s); layout = st_layout s; len = length buf in
      case parity_map LEVEL_RAID6 layout n stripe 0 of
        Some (_, pd, Some qd) \<Rightarrow>
          rbind (member pd off (replicate len 0)) (\<lambda>p.
          rbind (member qd off (replicate len 0)) (\<lambda>q.
          rbind (strip_row member layout n stripe off [0..<n - 2] (or_zeros len p, or_zeros len q, []))
            (solve_raid6 layout n stripe x (p \<noteq> None) (q \<noteq> None))))
      | Some (_, _, None) \<Rightarrow> Err (Panicked ''a RAID6 row has Q'')
      | None \<Rightarrow> Err (Panicked ''internal error: entered unreachable code''))"

definition read_chunk :: "striping \<Rightarrow> member_reader \<Rightarrow> u64 \<Rightarrow> u64 \<Rightarrow> u8 list \<Rightarrow> fs_error + u8 list" where
  "read_chunk s member k within buf =
     (let n = unat (st_members s) in
      case st_raid10 s of
        Some geo \<Rightarrow>
          map_err (\<lambda>failed. case failed of Some e \<Rightarrow> e
              | None \<Rightarrow> Custom (''md: no copy of chunk '' @ show_nat (unat k) @ '' is present''))
            (try_copies member (st_chunk s) within buf None
               (raid10_primary geo n (unat k) # drop 1 (raid10_copies geo n (unat k))))
      | None \<Rightarrow>
          let parity = (if st_level s = LEVEL_RAID6 then 2 else 1);
              data = n - parity;
              stripe = unat k div data;
              layout = (if st_level s = LEVEL_RAID4 then LAYOUT_PARITY_LAST else st_layout s)
          in case parity_map (st_level s) layout n stripe (unat k mod data) of
               None \<Rightarrow> Err (Panicked ''internal error: entered unreachable code'')
             | Some (dd, _, qd) \<Rightarrow>
                 let off = of_nat stripe * st_chunk s + within in
                 rbind (member dd off buf) (\<lambda>r.
                   case r of
                     Some b \<Rightarrow> Ok b
                   | None \<Rightarrow>
                       if st_level s = LEVEL_RAID6
                       then rebuild_raid6 s member stripe (unat k mod data) off buf
                       else xor_row member off dd qd (replicate (length buf) 0) [0..<n]))"


section \<open>The assembled array\<close>

record 'd md_member =
  m_dev :: 'd
  m_data_offset :: u64
  m_data_size :: u64

record 'd md_array =
  a_slots :: "'d md_member option list"
  a_level :: int
  a_layout :: u32
  a_chunk :: u64
  a_size :: u64
  a_zones :: "zone list"
  a_raid10 :: "raid10 option"
  a_superblock :: md_superblock

text \<open>The superblock of every device, in the order given; the first device without one stops the assembly.\<close>

definition member_superblocks ::
    "('d, 'x) block_read_scheme \<Rightarrow> 'd list \<Rightarrow> md_error + (nat \<times> 'd \<times> md_superblock) list" where
  "member_superblocks rd devices =
     traverse (\<lambda>(member, d). rbind (read_superblock_of rd d member) (\<lambda>r.
        rbind (ok_or r (NoSuperblock member)) (\<lambda>sb. Ok (member, d, sb)))) (enumerate 0 devices)"

fun place_members ::
    "u64 \<Rightarrow> u32 \<Rightarrow> 'd md_member option list \<Rightarrow> (nat \<times> 'd \<times> md_superblock) list
      \<Rightarrow> md_error + 'd md_member option list" where
  "place_members newest n slots [] = Ok slots"
| "place_members newest n slots ((_, d, sb) # found) =
     (case sb_role sb of
        Active slot \<Rightarrow>
          if sb_events sb < newest \<or> (feature_map sb AND FEATURE_RECOVERY_OFFSET) \<noteq> 0
          then place_members newest n slots found
          else if slot \<ge> n then place_members newest n slots found
          else if slots ! unat slot \<noteq> None then Err (DuplicateRole slot)
          else place_members newest n
                 (slots[unat slot := Some \<lparr>m_dev = d, m_data_offset = data_offset sb, m_data_size = data_size sb\<rparr>])
                 found
      | _ \<Rightarrow> place_members newest n slots found)"

definition present_count :: "'a option list \<Rightarrow> nat" where
  "present_count slots = length (filter (\<lambda>s. s \<noteq> None) slots)"

definition need_members :: "int \<Rightarrow> nat \<Rightarrow> u32 \<Rightarrow> md_error + unit" where
  "need_members level present needed =
     (if of_nat present < needed then Err (TooFewMembers level (of_nat present) needed) else Ok ())"

definition needs_chunk :: "u64 \<Rightarrow> md_error + unit" where
  "needs_chunk chunk =
     (if chunk = 0 \<or> chunk mod MD_SECTOR \<noteq> 0
      then Err (md_corrupt 0 (''chunk size '' @ show_nat (unat chunk))) else Ok ())"

text \<open>Linear: a zone of one member each, end to end in slot order.\<close>

fun linear_zones :: "u64 \<Rightarrow> nat \<Rightarrow> u64 \<Rightarrow> 'd md_member list \<Rightarrow> md_error + zone list \<times> u64" where
  "linear_zones chunk slot start [] = Ok ([], start)"
| "linear_zones chunk slot start (m # ms) =
     (let len = (if chunk = 0 then m_data_size m else m_data_size m div chunk * chunk) in
      rbind (ok_or (checked_add start len) (md_corrupt 0 ''array size overflows'')) (\<lambda>next.
      rbind (linear_zones chunk (slot + 1) next ms) (\<lambda>(zs, asize).
        Ok (\<lparr>z_start = start, z_len = len, z_dev_start = 0, z_slots = [slot]\<rparr> # zs, asize))))"

definition raid10_geometry :: "u32 \<Rightarrow> u64 \<Rightarrow> raid10" where
  "raid10_geometry layout dev_chunks =
     (let far = unat (drop_bit 8 layout AND 0xff) in
      \<lparr>r_near = unat (layout AND 0xff), r_far = far, r_offset = (layout AND RAID10_OFFSET) \<noteq> 0,
       r_stride = unat dev_chunks div far\<rparr>)"

fun check_copies :: "raid10 \<Rightarrow> nat \<Rightarrow> 'a option list \<Rightarrow> nat list \<Rightarrow> md_error + unit" where
  "check_copies geo d slots [] = Ok ()"
| "check_copies geo d slots (c # cs) =
     (let copies = raid10_copies geo d c in
      if list_all (\<lambda>(s, _). slots ! s = None) copies
      then Err (NoCopyLeft (map (\<lambda>(s, _). of_nat s) copies))
      else check_copies geo d slots cs)"

type_synonym array_shape = "u64 \<times> zone list \<times> raid10 option"

definition shape_linear :: "md_superblock \<Rightarrow> 'd md_member option list \<Rightarrow> md_error + array_shape" where
  "shape_linear lead slots =
     rbind (need_members (sb_level lead) (present_count slots) (raid_disks lead)) (\<lambda>_.
     rbind (linear_zones (chunk_bytes lead) 0 0 (List.map_filter id slots)) (\<lambda>(zs, asize).
       Ok (asize, zs, None)))"

definition shape_raid0 :: "md_superblock \<Rightarrow> 'd md_member option list \<Rightarrow> md_error + array_shape" where
  "shape_raid0 lead slots =
     (let chunk = chunk_bytes lead in
      rbind (need_members (sb_level lead) (present_count slots) (raid_disks lead)) (\<lambda>_.
      rbind (needs_chunk chunk) (\<lambda>_.
        let zones = raid0_zones (map (\<lambda>m. m_data_size m div chunk * chunk) (List.map_filter id slots)) in
        if length zones > 1 \<and> sb_layout lead \<noteq> RAID0_LAYOUT_ALTERNATE \<and> sb_layout lead \<noteq> RAID0_LAYOUT_ORIGINAL
        then Err (MdUnsupported (''multi-zone RAID0 with layout '' @ show_nat (unat (sb_layout lead))))
        else Ok (sum_list (map z_len zones), zones, None))))"

definition shape_raid10 :: "md_superblock \<Rightarrow> 'd md_member option list \<Rightarrow> md_error + array_shape" where
  "shape_raid10 lead slots =
     (let chunk = chunk_bytes lead; layout = sb_layout lead; d = ucast (raid_disks lead) :: u64 in
      rbind (needs_chunk chunk) (\<lambda>_.
        if (layout AND NOT (RAID10_OFFSET OR 0xffff)) \<noteq> 0
        then Err (MdUnsupported (''RAID10 layout '' @ show_hex (unat layout)))
        else let near = ucast (layout AND 0xff) :: u64; far = ucast (drop_bit 8 layout AND 0xff) :: u64 in
        if near = 0 \<or> far = 0 \<or> near * far > d
        then Err (md_corrupt 0 (''RAID10 layout '' @ show_hex (unat layout) @ '' over '' @
               show_nat (unat (raid_disks lead)) @ '' members''))
        else let dev_chunks = component_size lead div chunk;
                 geo = raid10_geometry layout dev_chunks
             in rbind (check_copies geo (unat d) slots [0..<unat d]) (\<lambda>_.
                rbind (ok_or (checked_mul (dev_chunks div far * d div near) chunk)
                         (md_corrupt 0 ''array size overflows'')) (\<lambda>asize.
                  Ok (asize, [], Some geo)))))"

definition shape_parity :: "md_superblock \<Rightarrow> 'd md_member option list \<Rightarrow> md_error + array_shape" where
  "shape_parity lead slots =
     (let chunk = chunk_bytes lead; level = sb_level lead; n = raid_disks lead; layout = sb_layout lead in
      rbind (needs_chunk chunk) (\<lambda>_.
        let parity = (if level = LEVEL_RAID6 then 2 else 1) in
        if n \<le> parity
        then Err (md_corrupt 0 (''RAID'' @ show_int level @ '' with '' @ show_nat (unat n) @ '' members''))
        else if level = LEVEL_RAID6 \<and> \<not> raid6_layout_known layout
        then Err (MdUnsupported (''RAID6 layout '' @ show_nat (unat layout)))
        else if level = LEVEL_RAID5 \<and> layout > LAYOUT_PARITY_LAST
        then Err (MdUnsupported (''RAID5 layout '' @ show_nat (unat layout)))
        else rbind (need_members level (present_count slots) (n - parity)) (\<lambda>_.
             rbind (ok_or (checked_mul (component_size lead div chunk * chunk) (ucast (n - parity)))
                      (md_corrupt 0 ''array size overflows'')) (\<lambda>asize.
               Ok (asize, [], None)))))"

definition array_shape_of :: "md_superblock \<Rightarrow> 'd md_member option list \<Rightarrow> md_error + array_shape" where
  "array_shape_of lead slots =
     (let level = sb_level lead in
      if level = LEVEL_LINEAR then shape_linear lead slots
      else if level = LEVEL_RAID1 then
        rbind (need_members level (present_count slots) 1) (\<lambda>_. Ok (component_size lead, [], None))
      else if level = LEVEL_RAID0 then shape_raid0 lead slots
      else if level = LEVEL_RAID10 then shape_raid10 lead slots
      else if level = LEVEL_RAID4 \<or> level = LEVEL_RAID5 \<or> level = LEVEL_RAID6 then shape_parity lead slots
      else Err (MdUnsupported (''RAID level '' @ show_int level)))"

text \<open>How far into its data area each member must reach.\<close>

definition member_span :: "int \<Rightarrow> u64 \<Rightarrow> u64 \<Rightarrow> u64" where
  "member_span level asize per_member =
     (if level = LEVEL_RAID1 then asize
      else if level = LEVEL_RAID0 \<or> level = LEVEL_LINEAR then 0
      else per_member)"

definition lead_of :: "(nat \<times> 'd \<times> md_superblock) list \<Rightarrow> md_superblock" where
  "lead_of found =
     (let newest = Max (set (map (\<lambda>(_, _, sb). sb_events sb) found))
      in snd (snd (the (List.find (\<lambda>(_, _, sb). sb_events sb = newest) found))))"

definition assemble :: "('d, 'x) block_read_scheme \<Rightarrow> 'd list \<Rightarrow> md_error + 'd md_array" where
  "assemble rd devices =
     (if devices = [] then Err MdEmpty
      else rbind (member_superblocks rd devices) (\<lambda>found.
        let first = snd (snd (hd found)) in
        case List.find (\<lambda>(_, _, sb). array_uuid sb \<noteq> array_uuid first) found of
          Some (member, _, _) \<Rightarrow> Err (MixedArrays member)
        | None \<Rightarrow>
            let lead = lead_of found; n = raid_disks lead in
            if (feature_map lead AND FEATURE_RESHAPE_ACTIVE) \<noteq> 0
            then Err (MdUnsupported ''the array is mid-reshape'')
            else if n = 0 \<or> n > V1_MAX_DEV then Err (md_corrupt 0 (''raid_disks '' @ show_nat (unat n)))
            else rbind (place_members (sb_events lead) n (replicate (unat n) None) found) (\<lambda>slots.
                 rbind (array_shape_of lead slots) (\<lambda>(asize, zones, geo).
                   let span = member_span (sb_level lead) asize (component_size lead) in
                   if list_all (\<lambda>m. area_fits (m_data_offset m) span (size_bytes rd (m_dev m))) (List.map_filter id slots)
                   then Ok \<lparr>a_slots = slots, a_level = sb_level lead, a_layout = sb_layout lead,
                            a_chunk = chunk_bytes lead, a_size = asize, a_zones = zones, a_raid10 = geo,
                            a_superblock = lead\<rparr>
                   else Err (md_corrupt 0 ''a member is shorter than the array needs'')))))"

definition md_group_assemble :: "('d, 'x) block_read_scheme \<Rightarrow> 'd md_group \<Rightarrow> md_error + 'd md_array" where
  "md_group_assemble rd g = assemble rd (g_members g)"

definition md_present :: "'d md_array \<Rightarrow> nat" where
  "md_present a = present_count (a_slots a)"

definition md_is_degraded :: "'d md_array \<Rightarrow> bool" where
  "md_is_degraded a \<longleftrightarrow> md_present a < length (a_slots a)"

section \<open>Reading the array\<close>

definition read_member ::
    "('d, 'x) block_read_scheme \<Rightarrow> 'd md_array \<Rightarrow> nat \<Rightarrow> u64 \<Rightarrow> u8 list \<Rightarrow> fs_error + u8 list option" where
  "read_member rd a slot off buf =
     (case a_slots a ! slot of
        Some m \<Rightarrow> map_ok Some (read_at rd (m_dev m) (m_data_offset m + off) (length buf))
      | None \<Rightarrow> Ok None)"

fun try_mirrors ::
    "('d, 'x) block_read_scheme \<Rightarrow> u64 \<Rightarrow> nat \<Rightarrow> fs_error option \<Rightarrow> 'd md_member list \<Rightarrow> fs_error + u8 list" where
  "try_mirrors rd off n failed [] =
     Err (case failed of Some e \<Rightarrow> e | None \<Rightarrow> Custom ''no RAID1 member present'')"
| "try_mirrors rd off n failed (m # ms) =
     (case read_at rd (m_dev m) (m_data_offset m + off) n of
        Inr b \<Rightarrow> Ok b
      | Inl e \<Rightarrow> try_mirrors rd off n (Some e) ms)"

definition read_raid1 :: "('d, 'x) block_read_scheme \<Rightarrow> 'd md_array \<Rightarrow> u64 \<Rightarrow> u8 list \<Rightarrow> fs_error + u8 list" where
  "read_raid1 rd a off buf = try_mirrors rd off (length buf) None (List.map_filter id (a_slots a))"

text \<open>The bytes \<open>read_zoned\<close> puts at the front of the buffer.\<close>

definition read_zoned :: "('d, 'x) block_read_scheme \<Rightarrow> 'd md_array \<Rightarrow> u64 \<Rightarrow> u8 list \<Rightarrow> fs_error + u8 list" where
  "read_zoned rd a pos buf =
     (case List.find (\<lambda>z. pos \<ge> z_start z \<and> pos < z_start z + z_len z) (a_zones a) of
        None \<Rightarrow> Err (Panicked ''zones cover the array'')
      | Some z \<Rightarrow>
          let within = pos - z_start z in
          if a_level a = LEVEL_LINEAR then
            let n = min (unat (z_len z - within)) (length buf)
            in map_ok (\<lambda>r. case r of Some b \<Rightarrow> b | None \<Rightarrow> take n buf)
                 (read_member rd a (z_slots z ! 0) (z_dev_start z + within) (take n buf))
          else
            let k = of_nat (length (z_slots z)) :: u64;
                c = within div a_chunk a;
                inner = within mod a_chunk a;
                n = min (unat (a_chunk a - inner)) (length buf);
                off = z_dev_start z + (c div k) * a_chunk a + inner;
                pick = (if a_layout a = RAID0_LAYOUT_ORIGINAL then pos div a_chunk a else c)
            in map_ok (\<lambda>r. case r of Some b \<Rightarrow> b | None \<Rightarrow> take n buf)
                 (read_member rd a (z_slots z ! unat (pick mod k)) off (take n buf)))"

definition striping_of :: "'d md_array \<Rightarrow> striping" where
  "striping_of a = \<lparr>st_level = a_level a, st_layout = a_layout a, st_chunk = a_chunk a,
     st_members = of_nat (length (a_slots a)), st_raid10 = a_raid10 a\<rparr>"

text \<open>
  The loop of \<open>read_at\<close> over pieces: \<open>piece\<close> reads some bytes at a position into the
  front of the rest of the buffer. A piece of no bytes would make the source's loop run
  forever; it is the error \<open>Panicked\<close> here, and assembled arrays have none.
\<close>

function read_pieces :: "(u64 \<Rightarrow> u8 list \<Rightarrow> fs_error + u8 list) \<Rightarrow> u64 \<Rightarrow> u8 list \<Rightarrow> fs_error + u8 list" where
  "read_pieces piece pos buf =
     (if buf = [] then Ok []
      else rbind (piece pos buf) (\<lambda>got.
        if got = [] then Err (Panicked ''the read makes no progress'')
        else map_ok ((@) got) (read_pieces piece (pos + of_nat (length got)) (drop (length got) buf))))"
  by auto
termination by (relation "measure (\<lambda>(_, _, buf). length buf)") auto

declare read_pieces.simps [simp del]

definition chunk_piece ::
    "('d, 'x) block_read_scheme \<Rightarrow> 'd md_array \<Rightarrow> u64 \<Rightarrow> u8 list \<Rightarrow> fs_error + u8 list" where
  "chunk_piece rd a pos buf =
     (let k = pos div a_chunk a;
          within = pos mod a_chunk a;
          n = min (unat (a_chunk a - within)) (length buf)
      in read_chunk (striping_of a) (read_member rd a) k within (take n buf))"

definition md_read_at :: "('d, 'x) block_read_scheme \<Rightarrow> 'd md_array \<Rightarrow> u64 \<Rightarrow> u8 list \<Rightarrow> fs_error + u8 list" where
  "md_read_at rd a offset buf =
     (let len = of_nat (length buf) in
      if \<not> area_fits offset len (a_size a) then Err (OutOfBounds offset len (a_size a))
      else if a_level a = LEVEL_RAID1 then read_raid1 rd a offset buf
      else if a_level a = LEVEL_RAID0 \<or> a_level a = LEVEL_LINEAR then read_pieces (read_zoned rd a) offset buf
      else read_pieces (chunk_piece rd a) offset buf)"

definition md_size_bytes :: "'d md_array \<Rightarrow> u64" where
  "md_size_bytes a = a_size a"

section \<open>Rows and what is read of them\<close>

text \<open>
  The ideal row: the bytes every slot of the array has, or had before it was lost, at one
  offset. A member reader reads it when it returns these bytes for the slots that are
  present and says so for those that are not.
\<close>

definition row_reads ::
    "member_reader \<Rightarrow> u64 \<Rightarrow> nat \<Rightarrow> nat \<Rightarrow> (nat \<Rightarrow> u8 list) \<Rightarrow> (nat \<Rightarrow> bool) \<Rightarrow> bool" where
  "row_reads member off len n R present \<longleftrightarrow>
     (\<forall>slot < n. length (R slot) = len \<and>
        (\<forall>buf. length buf = len \<longrightarrow> member slot off buf = Ok (if present slot then Some (R slot) else None)))"

definition xsum :: "(nat \<Rightarrow> u8) \<Rightarrow> nat list \<Rightarrow> u8" where
  "xsum f is = foldr (\<lambda>i acc. f i XOR acc) is 0"

lemma xsum_simps [simp]: "xsum f [] = 0" "xsum f (i # is) = f i XOR xsum f is"
  by (simp_all add: xsum_def)

lemma xsum_partition: "xsum f (filter P is) XOR xsum f (filter (\<lambda>i. \<not> P i) is) = xsum f is"
  by (induction "is") (simp_all add: xor.assoc xor.left_commute)

lemma xsum_filter: "xsum f (filter (\<lambda>i. \<not> P i) is) = xsum f is XOR xsum f (filter P is)"
  using xsum_partition [of f P "is"] by (metis xor.assoc xor.commute xor.left_neutral xor_self_eq)

lemma xsum_remove:
  assumes "x < n"
  shows "xsum f (filter (\<lambda>s. s \<noteq> x) [0..<n]) = xsum f [0..<n] XOR f x"
proof -
  have "filter (\<lambda>s. s = x) [0..<n] = [x]"
    using assms by (induction n) (auto simp: less_Suc_eq)
  then show ?thesis using xsum_filter [of f "\<lambda>s. s = x" "[0..<n]"] by simp
qed

lemma row_read:
  assumes "row_reads member off len n R present" and "slot < n" and "length buf = len"
  shows "member slot off buf = Ok (if present slot then Some (R slot) else None)" and "length (R slot) = len"
  using assms by (simp_all add: row_reads_def)

lemma map2_as_map: "length xs = n \<Longrightarrow> length ys = n \<Longrightarrow> map2 f xs ys = map (\<lambda>b. f (xs ! b) (ys ! b)) [0..<n]"
  by (intro nth_equalityI) simp_all

lemma xor_row_ok:
  assumes "row_reads member off len n R present" and "\<forall>slot \<in> set slots. slot < n \<and> (slot \<noteq> dd \<longrightarrow> present slot)"
    and "length buf = len"
  shows "xor_row member off dd None buf slots =
    Ok (map (\<lambda>b. buf ! b XOR xsum (\<lambda>s. R s ! b) (filter (\<lambda>s. s \<noteq> dd) slots)) [0..<len])"
  using assms(2,3)
proof (induction slots arbitrary: buf)
  case Nil
  then show ?case using map_nth [of buf] by simp
next
  case (Cons slot slots)
  show ?case
  proof (cases "slot = dd")
    case False
    have s: "slot < n" "present slot" using Cons.prems(1) False by auto
    have r: "member slot off (replicate (length buf) 0) = Ok (Some (R slot))" and l: "length (R slot) = len"
      using row_read [OF assms(1) s(1)] s(2) Cons.prems(2) by simp_all
    show ?thesis
      using False r l Cons.prems Cons.IH [of "map2 (XOR) buf (R slot)"] by (simp add: xor.assoc)
  qed (use Cons in simp)
qed

text \<open>A row of RAID4 or RAID5 is consistent when its bytes XOR to zero.\<close>

definition row5_consistent :: "nat \<Rightarrow> nat \<Rightarrow> (nat \<Rightarrow> u8 list) \<Rightarrow> bool" where
  "row5_consistent n len R \<longleftrightarrow> (\<forall>b < len. xsum (\<lambda>s. R s ! b) [0..<n] = 0)"

lemma xor_row_rebuilds:
  assumes r: "row_reads member off len n R present" and c: "row5_consistent n len R"
    and dd: "dd < n" and pres: "\<forall>slot < n. slot \<noteq> dd \<longrightarrow> present slot"
  shows "xor_row member off dd None (replicate len 0) [0..<n] = Ok (R dd)"
proof -
  have "xor_row member off dd None (replicate len 0) [0..<n] =
    Ok (map (\<lambda>b. replicate len 0 ! b XOR xsum (\<lambda>s. R s ! b) (filter (\<lambda>s. s \<noteq> dd) [0..<n])) [0..<len])"
    by (rule xor_row_ok [OF r]) (use pres in auto)
  also have "map (\<lambda>b. replicate len 0 ! b XOR xsum (\<lambda>s. R s ! b) (filter (\<lambda>s. s \<noteq> dd) [0..<n])) [0..<len] = R dd"
    using c row_read(2) [OF r dd, of "replicate len 0"]
    by (intro nth_equalityI) (simp_all add: xsum_remove [OF dd] row5_consistent_def)
  finally show ?thesis .
qed

section \<open>The RAID6 row\<close>

definition exponent :: "u32 \<Rightarrow> nat \<Rightarrow> nat \<Rightarrow> nat \<Rightarrow> int" where
  "exponent layout n stripe i = (case q_exponent layout n stripe i of Some e \<Rightarrow> e | None \<Rightarrow> 0)"

lemma exponent_of_ok:
  assumes "raid6_row layout n stripe dm p q" and "i < n - 2" and "3 \<le> n"
  shows "exponent_of layout n stripe i = Ok (exponent layout n stripe i)"
    and "0 \<le> exponent layout n stripe i \<and> exponent layout n stripe i < int n"
  using q_exponent_row [OF assms] by (auto simp: exponent_of_def exponent_def)

lemma strip_row_ok:
  assumes r: "row_reads member off len n R present" and row: "raid6_row layout n stripe dm p q" and n: "3 \<le> n"
    and "\<forall>i \<in> set is. i < n - 2" and "length pb = len" and "length qb = len"
  shows "strip_row member layout n stripe off is (pb, qb, ms) =
    Ok (map (\<lambda>b. pb ! b XOR xsum (\<lambda>i. R (dm i) ! b) (filter (\<lambda>i. present (dm i)) is)) [0..<len],
        map (\<lambda>b. qb ! b XOR xsum (\<lambda>i. gf_mul (gf_pow2 (exponent layout n stripe i)) (R (dm i) ! b))
                       (filter (\<lambda>i. present (dm i)) is)) [0..<len],
        ms @ filter (\<lambda>i. \<not> present (dm i)) is)"
  using assms(4-6)
proof (induction "is" arbitrary: pb qb ms)
  case Nil
  then show ?case using map_nth [of pb] map_nth [of qb] by simp
next
  case (Cons i js)
  have i: "i < n - 2" using Cons.prems(1) by simp
  have pm: "parity_map LEVEL_RAID6 layout n stripe i = Some (dm i, p, Some q)"
    using row by (simp add: parity_map_def raid6_row_def)
  have dm: "dm i < n" using row i by (auto simp: raid6_row_def row_ok_def)
  have m: "member (dm i) off (replicate (length pb) 0) = Ok (if present (dm i) then Some (R (dm i)) else None)"
    and l: "length (R (dm i)) = len"
    using row_read [OF r dm] Cons.prems(2) by simp_all
  note ex = exponent_of_ok(1) [OF row i n]
  have js: "\<forall>i \<in> set js. i < n - 2" using Cons.prems(1) by simp
  show ?case
    using pm m l ex Cons.IH [OF js] Cons.prems(2,3) by (simp add: Let_def xor.assoc)
qed

text \<open>A row of RAID6 is consistent when P is the XOR of the data and Q the weighted one.\<close>

definition row6_consistent ::
    "u32 \<Rightarrow> nat \<Rightarrow> nat \<Rightarrow> nat \<Rightarrow> (nat \<Rightarrow> u8 list) \<Rightarrow> (nat \<Rightarrow> nat) \<Rightarrow> nat \<Rightarrow> nat \<Rightarrow> bool" where
  "row6_consistent layout n stripe len R dm p q \<longleftrightarrow> (\<forall>b < len.
     R p ! b = xsum (\<lambda>i. R (dm i) ! b) [0..<n - 2] \<and>
     R q ! b = xsum (\<lambda>i. gf_mul (gf_pow2 (exponent layout n stripe i)) (R (dm i) ! b)) [0..<n - 2])"


lemma missing_count:
  assumes row: "raid6_row layout n stripe dm p q" and few: "card {s. s < n \<and> \<not> present s} \<le> 2"
  shows "length (filter (\<lambda>i. \<not> present (dm i)) [0..<n - 2]) +
    (if present p then 0 else 1) + (if present q then 0 else 1) \<le> (2 :: nat)"
proof -
  let ?M = "set (filter (\<lambda>i. \<not> present (dm i)) [0..<n - 2])"
  let ?P = "{s. s = p \<and> \<not> present s}" and ?Q = "{s. s = q \<and> \<not> present s}"
  have rk: "inj_on dm {..<n - 2}" "dm ` {..<n - 2} \<inter> {p, q} = {}" "dm ` {..<n - 2} \<union> {p, q} \<subseteq> {..<n}" "p \<noteq> q"
    using row by (auto simp: raid6_row_def row_ok_def)
  have inj: "inj_on dm ?M" by (rule inj_on_subset [OF rk(1)]) auto
  have c: "card (dm ` ?M) = length (filter (\<lambda>i. \<not> present (dm i)) [0..<n - 2])"
    using card_image [OF inj] distinct_card [of "filter (\<lambda>i. \<not> present (dm i)) [0..<n - 2]"] by simp
  have cp: "card ?P = (if present p then 0 else 1)" "card ?Q = (if present q then 0 else 1)"
    by (auto simp: Collect_conv_if)
  have fin: "finite ?P" "finite ?Q" "finite (dm ` ?M)" by (auto simp: Collect_conv_if)
  have dj: "dm ` ?M \<inter> ?P = {}" "(dm ` ?M \<union> ?P) \<inter> ?Q = {}" using rk(2,4) by auto
  have "dm ` ?M \<union> ?P \<union> ?Q \<subseteq> {s. s < n \<and> \<not> present s}" using rk(3) by auto
  then have "card (dm ` ?M \<union> ?P \<union> ?Q) \<le> card {s. s < n \<and> \<not> present s}" by (intro card_mono) auto
  moreover have "card (dm ` ?M \<union> ?P \<union> ?Q) = card (dm ` ?M) + card ?P + card ?Q"
    using fin dj by (simp add: card_Un_disjoint)
  ultimately show ?thesis using few c cp by simp
qed

lemma list_len_cases:
  assumes "x \<in> set M" and "distinct M" and "length M \<le> 2"
  shows "M = [x] \<or> (\<exists>y. y \<noteq> x \<and> (M = [x, y] \<or> M = [y, x]))"
proof (cases M)
  case (Cons a as)
  then show ?thesis using assms by (cases as) auto
qed (use assms in simp)

lemma exponents_apart:
  assumes row: "raid6_row layout n stripe dm p q" and n: "3 \<le> n" "n \<le> 255" and i: "i < n - 2" "j < n - 2" and "i \<noteq> j"
  shows "gf_pow2 (exponent layout n stripe j - exponent layout n stripe i) XOR 1 \<noteq> 0"
proof -
  let ?d = "exponent layout n stripe j - exponent layout n stripe i"
  have "exponent layout n stripe j \<noteq> exponent layout n stripe i"
    using q_exponent_inj [OF row n(1) i] q_exponent_row [OF row i(1) n(1)] q_exponent_row [OF row i(2) n(1)] assms(6)
    by (auto simp: exponent_def)
  moreover have "\<bar>?d\<bar> < 255"
    using exponent_of_ok(2) [OF row i(1) n(1)] exponent_of_ok(2) [OF row i(2) n(1)] n(2) by linarith
  ultimately have "?d mod 255 \<noteq> 0" using dvd_imp_le_int [of ?d 255] by (auto simp: mod_eq_0_iff_dvd)
  then show ?thesis using gf_pow2_eq_1 [of ?d] by (simp add: xor_eq_0)
qed

lemma solve_two:
  assumes "exponent_of layout n stripe x = Ok ex" and "exponent_of layout n stripe y = Ok ey"
    and l: "length P = len" "length Q = len" "length dx = len"
    and h: "gf_pow2 (ey - ex) XOR 1 \<noteq> 0" and M: "x \<noteq> y" "M = [x, y] \<or> M = [y, x]" and pq: "hp" "hq"
    and P: "\<And>b. b < len \<Longrightarrow> P ! b = dx ! b XOR dy ! b"
    and Q: "\<And>b. b < len \<Longrightarrow> Q ! b = gf_mul (gf_pow2 ex) (dx ! b) XOR gf_mul (gf_pow2 ey) (dy ! b)"
  shows "solve_raid6 layout n stripe x hp hq (P, Q, M) = Ok dx"
proof -
  have g: "gf_pow2 (ey - ex) = gf_mul (gf_pow2 ey) (gf_pow2 (- ex))" "1 = gf_mul (gf_pow2 ex) (gf_pow2 (- ex))"
    using gf_pow2_eq_1 [of 0] by (simp_all add: gf_pow2_add)
  let ?h = "gf_pow2 (ey - ex)" and ?v = "gf_inv (gf_pow2 (ey - ex) XOR 1)"
  have "map2 (\<lambda>pb qb. gf_mul (gf_mul ?h ?v) pb XOR gf_mul (gf_mul (gf_pow2 (- ex)) ?v) qb) P Q = dx"
    using l P Q gf.two_erasures [OF refl g h] by (intro nth_equalityI) simp_all
  then show ?thesis using assms(1,2) M pq h by (auto simp: solve_raid6_def Let_def)
qed

text \<open>Solving for a lost chunk, from what P and Q leave of the missing ones.\<close>

lemma solve_raid6_ok:
  assumes row: "raid6_row layout n stripe dm p q" and n: "3 \<le> n" "n \<le> 255" and x: "x < n - 2" "\<not> present (dm x)"
    and few: "card {s. s < n \<and> \<not> present s} \<le> 2"
    and M: "M = filter (\<lambda>i. \<not> present (dm i)) [0..<n - 2]" and lPQ: "length P = len" "length Q = len" and lx: "length (R (dm x)) = len"
    and P: "\<And>b. present p \<Longrightarrow> b < len \<Longrightarrow> P ! b = xsum (\<lambda>i. R (dm i) ! b) M"
    and Q: "\<And>b. present q \<Longrightarrow> b < len \<Longrightarrow> Q ! b = xsum (\<lambda>i. gf_mul (gf_pow2 (exponent layout n stripe i)) (R (dm i) ! b)) M"
  shows "solve_raid6 layout n stripe x (present p) (present q) (P, Q, M) = Ok (R (dm x))"
proof -
  note cnt = missing_count [OF row few, folded M]
  note exx = exponent_of_ok(1) [OF row x(1) n(1)]
  have "x \<in> set M" "distinct M" "length M \<le> 2" using x cnt by (simp_all add: M)
  have two: "y < n - 2 \<and> present p \<and> present q" if "length M = 2" "y \<in> set M" for y
    using that cnt by (auto simp: M split: if_splits)
  have pair: "solve_raid6 layout n stripe x (present p) (present q) (P, Q, M) = Ok (R (dm x))"
    if y: "y \<noteq> x" and M2: "M = [x, y] \<or> M = [y, x]" for y
  proof -
    have y3: "y < n - 2" "present p" "present q" using two [of y] M2 by auto
    show ?thesis using M2 y y3 P Q
      by (intro solve_two [where dy = "R (dm y)", OF exx exponent_of_ok(1) [OF row y3(1) n(1)] lPQ lx]
          exponents_apart [OF row n x(1) y3(1)]) (auto simp: xor.commute)
  qed
  from \<open>x \<in> set M\<close> \<open>distinct M\<close> \<open>length M \<le> 2\<close> consider "M = [x]" | y where "y \<noteq> x" "M = [x, y] \<or> M = [y, x]"
    using list_len_cases [of x M] by blast
  then show ?thesis
  proof cases
    case 1
    show ?thesis
    proof (cases "present p")
      case True
      then have "P = R (dm x)" using P 1 lPQ lx by (intro nth_equalityI) simp_all
      then show ?thesis using 1 True by (simp add: solve_raid6_def)
    next
      case False
      then have q: "present q" using cnt 1 by (auto split: if_splits)
      have "map (gf_mul (gf_pow2 (- exponent layout n stripe x))) Q = R (dm x)"
        using Q [OF q] 1 lPQ lx by (intro nth_equalityI) (simp_all add: gf_pow2_cancel)
      then show ?thesis using 1 False q exx by (simp add: solve_raid6_def)
    qed
  qed (rule pair)
qed

lemma rebuild_raid6_ok:
  assumes r: "row_reads member off len n R present" and row: "raid6_row layout n stripe dm p q" and n: "3 \<le> n"
    and c: "row6_consistent layout n stripe len R dm p q" and few: "card {s. s < n \<and> \<not> present s} \<le> 2"
    and n255: "n \<le> 255" and x: "x < n - 2" "\<not> present (dm x)"
    and s: "st_members s = of_nat n" "st_layout s = layout" and n64: "n < 2 ^ 64" and buf: "length buf = len"
  shows "rebuild_raid6 s member stripe x off buf = Ok (R (dm x))"
proof -
  let ?M = "filter (\<lambda>i. \<not> present (dm i)) [0..<n - 2]" and ?g = "\<lambda>i. gf_pow2 (exponent layout n stripe i)"
  let ?D = "\<lambda>i b. R (dm i) ! b"
  have pq: "p < n" "q < n" using row by (auto simp: raid6_row_def row_ok_def)
  have un: "unat (st_members s) = n" using s(1) n64 by (simp add: unat_of_nat)
  have pm: "parity_map LEVEL_RAID6 layout n stripe 0 = Some (dm 0, p, Some q)"
    using row by (simp add: parity_map_def raid6_row_def)
  have mp: "member p off (replicate len 0) = Ok (if present p then Some (R p) else None)"
    and mq: "member q off (replicate len 0) = Ok (if present q then Some (R q) else None)"
    and lp: "length (R p) = len" "length (R q) = len" and lx: "length (R (dm x)) = len"
    using row_read [OF r pq(1), of "replicate len 0"] row_read [OF r pq(2), of "replicate len 0"]
      row_read(2) [OF r, of "dm x" "replicate len 0"] row x(1)
    by (auto simp: raid6_row_def row_ok_def)
  let ?pb = "or_zeros len (if present p then Some (R p) else None)"
    and ?qb = "or_zeros len (if present q then Some (R q) else None)"
  have lpb: "length ?pb = len" "length ?qb = len" using lp by (simp_all add: or_zeros_def)
  define P where "P = map (\<lambda>b. ?pb ! b XOR xsum (\<lambda>i. ?D i b) (filter (\<lambda>i. present (dm i)) [0..<n - 2])) [0..<len]"
  define Q where "Q = map (\<lambda>b. ?qb ! b XOR xsum (\<lambda>i. gf_mul (?g i) (?D i b)) (filter (\<lambda>i. present (dm i)) [0..<n - 2])) [0..<len]"
  have sr: "strip_row member layout n stripe off [0..<n - 2] (?pb, ?qb, []) = Ok (P, Q, ?M)"
    using strip_row_ok [OF r row n _ lpb, of "[0..<n - 2]" "[]"] by (simp add: P_def Q_def)
  have main: "rebuild_raid6 s member stripe x off buf = solve_raid6 layout n stripe x (present p) (present q) (P, Q, ?M)"
    using un s(2) pm mp mq sr buf by (auto simp: rebuild_raid6_def Let_def)
  have P: "P ! b = xsum (\<lambda>i. ?D i b) ?M" if "present p" "b < len" for b
    using that c xsum_filter [of "\<lambda>i. ?D i b" "\<lambda>i. present (dm i)" "[0..<n - 2]"]
    by (simp add: P_def or_zeros_def row6_consistent_def)
  have Q: "Q ! b = xsum (\<lambda>i. gf_mul (?g i) (?D i b)) ?M" if "present q" "b < len" for b
    using that c xsum_filter [of "\<lambda>i. gf_mul (?g i) (?D i b)" "\<lambda>i. present (dm i)" "[0..<n - 2]"]
    by (simp add: Q_def or_zeros_def row6_consistent_def)
  have lPQ: "length P = len" "length Q = len" by (simp_all add: P_def Q_def)
  show ?thesis unfolding main
    using P Q by (intro solve_raid6_ok [where present = present and R = R, OF row n n255 x few refl lPQ lx]) simp_all
qed

end
