(* ===== verification/Lvm_Volume.thy ===== *)
theory Lvm_Volume
  imports Thin Md_Array
begin

text \<open>
  Logical volumes (\<open>lvm.rs\<close>): the runs a volume's segments are resolved to, resolving them
  against the devices given, and reading through them.

  A run's map nests: an image of a raid or mirror segment, and the data and metadata of a thin
  pool, are lists of runs. \<open>run_reader\<close> gives the reads of a run by recursion on it, where the
  source calls \<open>read_runs\<close> again. A read takes the buffer it fills and returns the bytes read;
  a device of the list is named by its position.
\<close>

section \<open>Runs\<close>

datatype run = Run (run_start: u64) (run_len: u64) (run_map: lv_map)
and lv_map =
    Striped u64 "(nat \<times> u64) list"
  | Raid int "raid10 option" u32 u64 u64 "run list option list"
  | ThinMap u64 "run list" "run list" u64

type_synonym piece_reader = "u64 \<Rightarrow> u8 list \<Rightarrow> fs_error + u8 list"
type_synonym device_reader = "nat \<Rightarrow> u64 \<Rightarrow> nat \<Rightarrow> fs_error + u8 list"
type_synonym reader = "u64 \<times> u64 \<times> piece_reader"

section \<open>Reading through runs\<close>

text \<open>
  One round of \<open>read_runs\<close>: the run that holds the position, and what its map reads of the
  bytes of the run that are wanted.
\<close>

definition run_piece :: "reader list \<Rightarrow> piece_reader" where
  "run_piece rs pos buf =
     (case List.find (\<lambda>(start, len, _). pos \<ge> start \<and> pos < start + len) rs of
        None \<Rightarrow> Err (OutOfBounds pos (of_nat (length buf))
                  (case rs of [] \<Rightarrow> 0 | _ \<Rightarrow> (let (start, len, _) = List.last rs in start + len)))
      | Some (start, len, piece) \<Rightarrow> piece (pos - start) (take (unat (start + len - pos)) buf))"

definition read_through :: "reader list \<Rightarrow> piece_reader" where
  "read_through rs = read_pieces (run_piece rs)"

definition striped_piece :: "device_reader \<Rightarrow> u64 \<Rightarrow> (nat \<times> u64) list \<Rightarrow> piece_reader" where
  "striped_piece dr ssize stripes within buf =
     (if length stripes = 1
      then (let (d, off) = stripes ! 0 in dr d (off + within) (length buf))
      else let n = of_nat (length stripes) :: u64;
               k = within div ssize;
               inner = within mod ssize;
               (d, off) = stripes ! unat (k mod n)
           in dr d (off + (k div n) * ssize + inner) (min (unat (ssize - inner)) (length buf)))"

text \<open>An image's data region, as md reads a member.\<close>

definition image_member :: "u64 \<Rightarrow> reader list option list \<Rightarrow> member_reader" where
  "image_member doff images slot off b =
     (case images ! slot of
        Some rs \<Rightarrow> map_ok Some (read_through rs (doff + off) b)
      | None \<Rightarrow> Ok None)"

fun try_images :: "member_reader \<Rightarrow> u64 \<Rightarrow> u8 list \<Rightarrow> fs_error \<Rightarrow> nat list \<Rightarrow> fs_error + u8 list" where
  "try_images member within buf failed [] = Err failed"
| "try_images member within buf failed (slot # slots) =
     (case member slot within buf of
        Inr (Some b) \<Rightarrow> Ok b
      | Inr None \<Rightarrow> try_images member within buf failed slots
      | Inl e \<Rightarrow> try_images member within buf e slots)"

definition raid_piece ::
    "int \<Rightarrow> raid10 option \<Rightarrow> u32 \<Rightarrow> u64 \<Rightarrow> u64 \<Rightarrow> reader list option list \<Rightarrow> piece_reader" where
  "raid_piece level r10 layout chunk doff images within buf =
     (let member = image_member doff images in
      if level = 1
      then try_images member within buf (Custom ''no image of the mirror is present'') [0..<length images]
      else let inner = within mod chunk;
               n = min (unat (chunk - inner)) (length buf)
           in read_chunk \<lparr>st_level = level, st_layout = layout, st_chunk = chunk,
                st_members = of_nat (length images), st_raid10 = r10\<rparr> member (within div chunk) inner (take n buf))"

text \<open>
  What \<open>Display\<close> writes. A name of more than a byte per character has no rendering in the
  model's \<open>string\<close>; the messages turned into text here, those of the thin metadata, hold none.
\<close>

fun show_piece :: "piece \<Rightarrow> string" where
  "show_piece (S s) = s"
| "show_piece (U u) = map (\<lambda>c. char_of (unat c)) u"
| "show_piece (Q u) = ''\"'' @ map (\<lambda>c. char_of (unat c)) u @ ''\"''"
| "show_piece (N n) = show_nat n"
| "show_piece (X n) = show_hex n"
| "show_piece (I i) = show_int i"

definition show_message :: "message \<Rightarrow> string" where
  "show_message m = concat (map show_piece m)"

fun lvm_message :: "lvm_error \<Rightarrow> message" where
  "lvm_message (LvmBlock e) = []"
| "lvm_message (NoLabel d) = [S ''device '', N d, S '': no LVM2 label'']"
| "lvm_message (LvmBadChecksum d what) = [S ''device '', N d, S '': '', S what, S '' checksum mismatch'']"
| "lvm_message (LvmCorrupt m) = S ''corrupt: '' # m"
| "lvm_message (Syntax line m) = [S ''metadata line '', N line, S '': ''] @ m"
| "lvm_message (NoSuchVolume v) = [S ''no logical volume '', Q v]"
| "lvm_message (MissingPv p) = [S ''physical volume '', U p, S '' not given'']"
| "lvm_message (LvmUnsupported m) = S ''unsupported: '' # m"

definition thin_error :: "lvm_error \<Rightarrow> fs_error" where
  "thin_error e = (case e of LvmBlock e \<Rightarrow> e | _ \<Rightarrow> Custom (show_message (lvm_message e)))"

definition thin_piece :: "u64 \<Rightarrow> u64 \<Rightarrow> reader list \<Rightarrow> reader list \<Rightarrow> piece_reader" where
  "thin_piece block root meta data within buf =
     (let inner = within mod block;
          n = min (unat (block - inner)) (length buf)
      in rbind (map_err thin_error (data_block (read_through meta) root (within div block))) (\<lambda>mapped.
           case mapped of
             Some db \<Rightarrow>
               (case Option.bind (checked_mul db block) (\<lambda>a. checked_add a inner) of
                  None \<Rightarrow> Err (Custom (''thin data block '' @ show_nat (unat db) @ '' overflows''))
                | Some at \<Rightarrow> read_through data at (take n buf))
           | None \<Rightarrow> Ok (replicate n 0)))"

primrec run_reader :: "device_reader \<Rightarrow> run \<Rightarrow> reader"
and map_reader :: "device_reader \<Rightarrow> lv_map \<Rightarrow> piece_reader" where
  "run_reader dr (Run start len m) = (start, len, map_reader dr m)"
| "map_reader dr (Striped ssize stripes) = striped_piece dr ssize stripes"
| "map_reader dr (Raid level r10 layout chunk doff images) =
     raid_piece level r10 layout chunk doff (map (map_option (map (run_reader dr))) images)"
| "map_reader dr (ThinMap block meta data root) =
     thin_piece block root (map (run_reader dr) meta) (map (run_reader dr) data)"

definition device_read :: "('d, 'x) block_read_scheme \<Rightarrow> 'd list \<Rightarrow> device_reader" where
  "device_read rd devices d at n = read_at rd (devices ! d) at n"

definition read_runs :: "('d, 'x) block_read_scheme \<Rightarrow> 'd list \<Rightarrow> run list \<Rightarrow> piece_reader" where
  "read_runs rd devices runs = read_through (map (run_reader (device_read rd devices)) runs)"

section \<open>The dm-raid superblock\<close>

definition DM_RAID_MAGIC :: u32 where [simp]: "DM_RAID_MAGIC = 0x64526d44"
definition COMPAT_V190 :: u32 where [simp]: "COMPAT_V190 = 1"
definition DM_RAID_SIZE :: nat where [simp]: "DM_RAID_SIZE = 120"

record dm_raid_super =
  dm_level :: int
  dm_layout :: u32
  dm_chunk :: u64
  dm_data_offset :: u64

definition parse_dm_raid_super :: "u8 list \<Rightarrow> ustring \<Rightarrow> lvm_error + dm_raid_super" where
  "parse_dm_raid_super b what =
     (if length b < DM_RAID_SIZE \<or> le32 b 0 \<noteq> DM_RAID_MAGIC
      then Err (LvmCorrupt [U what, S '': no dm-raid superblock''])
      else let doff = (if le32 b 4 AND COMPAT_V190 \<noteq> 0 then le64 b 96 else 0) in
        rbind (ok_or (checked_mul doff LVM_SECTOR) (LvmCorrupt [U what, S '': data offset overflows''])) (\<lambda>off.
          Ok \<lparr>dm_level = i32 (le32 b 48), dm_layout = le32 b 52,
              dm_chunk = ucast (le32 b 56) * LVM_SECTOR, dm_data_offset = off\<rparr>))"

definition survives :: "int \<Rightarrow> raid10 option \<Rightarrow> 'a option list \<Rightarrow> bool" where
  "survives level r10 images =
     (let n = length images; missing = length (filter (\<lambda>i. i = None) images) in
      if level = 1 then missing < n
      else case (if level = 10 then r10 else None) of
        Some geo \<Rightarrow> list_all (\<lambda>c. list_ex (\<lambda>(s, _). images ! s \<noteq> None) (raid10_copies geo n c)) [0..<n]
      | None \<Rightarrow> if level = 6 then missing \<le> 2 else missing \<le> 1)"

section \<open>Resolving a volume\<close>

record 'd mapper =
  mp_vg :: volume_group
  mp_uuid_to_dev :: "ustring \<rightharpoonup> nat"
  mp_devices :: "'d list"

definition find_lv :: "volume_group \<Rightarrow> ustring \<Rightarrow> lvm_error + logical_volume_info" where
  "find_lv vg name = ok_or (List.find (\<lambda>lv. lv_name lv = name) (logical_volumes vg)) (NoSuchVolume name)"

definition map_stripe ::
    "('d, 'x) block_read_scheme \<Rightarrow> 'd mapper \<Rightarrow> ustring \<Rightarrow> u64 \<Rightarrow> stripe \<Rightarrow> lvm_error + nat \<times> u64" where
  "map_stripe rd m name per_stripe st =
     (let ext = extent_size (mp_vg m) in
      rbind (ok_or (List.find (\<lambda>p. pv_name p = stripe_pv st) (physical_volumes (mp_vg m)))
               (LvmCorrupt [S ''unknown PV '', U (stripe_pv st)])) (\<lambda>pv.
      rbind (ok_or (mp_uuid_to_dev m (pv_uuid pv)) (MissingPv (pv_uuid pv))) (\<lambda>dev.
        if (case checked_add (stripe_start st) per_stripe of None \<Rightarrow> True | Some e \<Rightarrow> e > pe_count pv)
        then Err (LvmCorrupt [U name, S '': stripe past '', U (stripe_pv st)])
        else rbind (ok_or (Option.bind (checked_mul (stripe_start st) ext) (\<lambda>off. checked_add off (pe_start pv)))
                      (LvmCorrupt [S ''extent offset overflows''])) (\<lambda>off.
          if (case checked_add off (per_stripe * ext) of None \<Rightarrow> True
              | Some e \<Rightarrow> e > size_bytes rd (mp_devices m ! dev))
          then Err (LvmCorrupt [U name, S '': stripe runs past the end of '', U (stripe_pv st)])
          else Ok (dev, off)))))"

definition map_striped ::
    "('d, 'x) block_read_scheme \<Rightarrow> 'd mapper \<Rightarrow> ustring \<Rightarrow> segment \<Rightarrow> lvm_error + lv_map" where
  "map_striped rd m name seg =
     (let n = of_nat (length (seg_stripes seg)) :: u64 in
      if n = 0 \<or> \<not> is_multiple_of (extent_count seg) n
      then Err (LvmCorrupt [U name, S '': '', N (unat (extent_count seg)), S '' extents over '', N (unat n), S '' stripes''])
      else let per_stripe = extent_count seg div n in
        rbind (traverse (map_stripe rd m name per_stripe) (seg_stripes seg)) (\<lambda>stripes.
          if n > 1 \<and> \<not> is_multiple_of (per_stripe * extent_size (mp_vg m)) (stripe_size seg)
          then Err (LvmUnsupported [U name, S '': stripe size '', N (unat (stripe_size seg)),
                 S '' does not divide the extent run''])
          else Ok (Striped (stripe_size seg) stripes)))"

text \<open>Resolving a sub-volume is an argument of what follows.\<close>

type_synonym sub_mapper = "ustring \<Rightarrow> lvm_error + run list \<times> u64"

fun map_images ::
    "sub_mapper \<Rightarrow> ustring list \<Rightarrow> lvm_error option \<Rightarrow> lvm_error + run list option list \<times> lvm_error option" where
  "map_images sub [] gone = Ok ([], gone)"
| "map_images sub (img # imgs) gone =
     (case sub img of
        Inr (runs, _) \<Rightarrow> map_ok (\<lambda>(images, g). (Some runs # images, g)) (map_images sub imgs gone)
      | Inl (MissingPv p) \<Rightarrow>
          map_ok (\<lambda>(images, g). (None # images, g))
            (map_images sub imgs (case gone of None \<Rightarrow> Some (MissingPv p) | Some g \<Rightarrow> Some g))
      | Inl e \<Rightarrow> Err e)"

definition images_of :: "sub_mapper \<Rightarrow> segment \<Rightarrow> lvm_error + run list option list \<times> lvm_error option" where
  "images_of sub seg =
     (if seg_images seg = [] then Err (LvmCorrupt [S ''a raid or mirror segment with no images''])
      else map_images sub (seg_images seg) None)"

text \<open>\<open>Option::expect\<close> of an error: the error, or the panic.\<close>

definition expect_error :: "lvm_error option \<Rightarrow> string \<Rightarrow> lvm_error" where
  "expect_error e what = (case e of Some e \<Rightarrow> e | None \<Rightarrow> LvmBlock (Panicked what))"

fun first_super ::
    "('d, 'x) block_read_scheme \<Rightarrow> 'd list \<Rightarrow> sub_mapper \<Rightarrow> ustring list \<Rightarrow> lvm_error option \<Rightarrow> lvm_error + dm_raid_super" where
  "first_super rd devices sub [] gone =
     Err (expect_error gone ''images and metadata are as many, and not none'')"
| "first_super rd devices sub (meta # metas) gone =
     (case sub meta of
        Inr (runs, _) \<Rightarrow>
          rbind (map_err LvmBlock (read_runs rd devices runs 0 (replicate DM_RAID_SIZE 0))) (\<lambda>b.
            parse_dm_raid_super b meta)
      | Inl (MissingPv p) \<Rightarrow>
          first_super rd devices sub metas (case gone of None \<Rightarrow> Some (MissingPv p) | Some g \<Rightarrow> Some g)
      | Inl e \<Rightarrow> Err e)"

definition level_parity :: "ustring \<Rightarrow> int \<Rightarrow> lvm_error + int \<times> nat" where
  "level_parity name l =
     (if l = 1 then Ok (1, 0) else if l = 4 \<or> l = 5 then Ok (5, 1) else if l = 6 then Ok (6, 2)
      else if l = 10 then Ok (10, 0)
      else Err (LvmUnsupported [U name, S '': dm-raid level '', I l]))"

definition raid10_of :: "ustring \<Rightarrow> u32 \<Rightarrow> nat \<Rightarrow> lvm_error + raid10" where
  "raid10_of name layout n =
     (let near = unat (layout AND 0xff) in
      if layout AND NOT 0xff \<noteq> push_bit 8 1
      then Err (LvmUnsupported [U name, S '': raid10 layout '', X (unat layout),
             S ''; only the near layout is read, not dm-raid's far or offset ones''])
      else if near = 0 \<or> near > n
      then Err (LvmCorrupt [U name, S '': raid10 with '', N near, S '' near copies over '', N n, S '' images''])
      else Ok (raid10_near near))"

text \<open>The map of a raid segment, from its superblock and its images.\<close>

definition raid_of_super ::
    "ustring \<Rightarrow> dm_raid_super \<Rightarrow> run list option list \<Rightarrow> lvm_error option \<Rightarrow> lvm_error + lv_map" where
  "raid_of_super name sb images gone =
     (let n = length images in
      rbind (level_parity name (dm_level sb)) (\<lambda>(level, parity).
      rbind (if level = 10 then map_ok Some (raid10_of name (dm_layout sb) n) else Ok None) (\<lambda>r10.
        if level \<noteq> 1 \<and> (dm_chunk sb = 0 \<or> n \<le> parity)
        then Err (LvmCorrupt [U name, S '': raid'', I (dm_level sb), S '' with '', N n, S '' images and a '',
               N (unat (dm_chunk sb)), S ''-byte chunk''])
        else if \<not> survives level r10 images then Err (expect_error gone ''an image is missing'')
        else Ok (Raid level r10 (dm_layout sb) (dm_chunk sb) (dm_data_offset sb) images))))"

definition map_raid ::
    "('d, 'x) block_read_scheme \<Rightarrow> 'd mapper \<Rightarrow> sub_mapper \<Rightarrow> ustring \<Rightarrow> segment \<Rightarrow> lvm_error + lv_map" where
  "map_raid rd m sub name seg =
     (if length (seg_metadata seg) \<noteq> length (seg_images seg)
      then Err (LvmCorrupt [U name, S '': '', N (length (seg_images seg)), S '' images and '',
             N (length (seg_metadata seg)), S '' metadata sub-volumes''])
      else rbind (images_of sub seg) (\<lambda>(images, gone).
           rbind (first_super rd (mp_devices m) sub (seg_metadata seg) None) (\<lambda>sb.
             raid_of_super name sb images gone)))"

definition map_thin ::
    "('d, 'x) block_read_scheme \<Rightarrow> 'd mapper \<Rightarrow> sub_mapper \<Rightarrow> ustring \<Rightarrow> segment \<Rightarrow> lvm_error + lv_map" where
  "map_thin rd m sub name seg =
     (case external_origin seg of
        Some origin \<Rightarrow> Err (LvmUnsupported [U name, S '': a thin volume over the external origin '', U origin])
      | None \<Rightarrow>
          if start_extent seg \<noteq> 0
          then Err (LvmCorrupt [U name, S '': a thin segment that does not start the volume''])
          else case (thin_pool seg, device_id seg) of
            (Some pool_name, Some dev) \<Rightarrow>
              rbind (find_lv (mp_vg m) pool_name) (\<lambda>pool.
                case lv_segments pool of
                  [pseg] \<Rightarrow>
                    (case (seg_kind pseg = ustr ''thin-pool'', seg_images pseg, seg_metadata pseg) of
                       (True, [tdata], [tmeta]) \<Rightarrow>
                         rbind (sub tmeta) (\<lambda>(meta, _).
                         rbind (sub tdata) (\<lambda>(data, _).
                           let read = read_runs rd (mp_devices m) meta in
                           rbind (thin_superblock_of read) (\<lambda>sb.
                           rbind (rbind (device_root read sb dev) (\<lambda>r. ok_or r
                                    (LvmCorrupt [U name, S '': thin device '', N (unat dev), S '' is not in '',
                                       U pool_name, S (CHR 0x27 # ''s metadata'')]))) (\<lambda>root.
                             Ok (ThinMap (data_block_size sb) meta data root)))))
                     | _ \<Rightarrow> Err (LvmCorrupt [U name, S '': its thin_pool '', U pool_name, S '' is not a thin pool'']))
                | _ \<Rightarrow> Err (LvmUnsupported [U pool_name, S '': a thin pool of '', N (length (lv_segments pool)), S '' segments'']))
          | _ \<Rightarrow> Err (LvmCorrupt [U name, S '': a thin segment without thin_pool and device_id'']))"

definition map_segment ::
    "('d, 'x) block_read_scheme \<Rightarrow> 'd mapper \<Rightarrow> sub_mapper \<Rightarrow> ustring \<Rightarrow> segment \<Rightarrow> lvm_error + lv_map" where
  "map_segment rd m sub name seg =
     (let kind = seg_kind seg in
      if kind = ustr ''striped'' then map_striped rd m name seg
      else if kind = ustr ''thin'' then map_thin rd m sub name seg
      else if kind = ustr ''thin-pool''
      then Err (LvmUnsupported [U name, S '' is a thin pool; the thin volumes in it are what is read''])
      else if kind = ustr ''mirror'' then
        rbind (images_of sub seg) (\<lambda>(images, gone).
          if \<not> survives 1 None images then Err (expect_error gone ''an image is missing'')
          else Ok (Raid 1 None 0 0 0 images))
      else if kind = ustr ''raid1'' \<or> kind = ustr ''raid10'' \<or> kind = ustr ''raid4'' \<or>
              starts_with kind ''raid5'' \<or> starts_with kind ''raid6''
      then map_raid rd m sub name seg
      else Err (LvmUnsupported [S ''segment type '', Q kind, S '' in '', U name]))"

fun map_segments ::
    "('d, 'x) block_read_scheme \<Rightarrow> 'd mapper \<Rightarrow> sub_mapper \<Rightarrow> ustring \<Rightarrow> u64 \<Rightarrow> segment list \<Rightarrow> lvm_error + run list \<times> u64" where
  "map_segments rd m sub name nxt [] = Ok ([], nxt * extent_size (mp_vg m))"
| "map_segments rd m sub name nxt (seg # segs) =
     (if start_extent seg \<noteq> nxt
      then Err (LvmCorrupt [U name, S '': segments leave a gap at extent '', N (unat nxt)])
      else rbind (ok_or (checked_mul (extent_count seg) (extent_size (mp_vg m))) (LvmCorrupt [S ''segment size overflows''])) (\<lambda>len.
           rbind (map_segment rd m sub name seg) (\<lambda>lmap.
             map_ok (\<lambda>(runs, lvsize). (Run (nxt * extent_size (mp_vg m)) len lmap # runs, lvsize))
               (map_segments rd m sub name (nxt + extent_count seg) segs))))"

text \<open>\<open>Mapper::map\<close>, by the nesting levels left: 3 at depth 0.\<close>

fun map_lv :: "('d, 'x) block_read_scheme \<Rightarrow> 'd mapper \<Rightarrow> nat \<Rightarrow> ustring \<Rightarrow> lvm_error + run list \<times> u64" where
  "map_lv rd m 0 name = Err (LvmUnsupported [U name, S '': sub-volumes nested deeper than an image of an image''])"
| "map_lv rd m (Suc levels) name =
     rbind (find_lv (mp_vg m) name) (\<lambda>info.
       map_segments rd m (map_lv rd m levels) name 0 (lv_segments info))"

section \<open>The volume\<close>

record 'd logical_volume =
  lvol_devices :: "'d list"
  lvol_runs :: "run list"
  lvol_size :: u64
  lvol_info :: logical_volume_info

fun uuid_table :: "('d, 'x) block_read_scheme \<Rightarrow> (nat \<times> 'd) list \<Rightarrow> (ustring \<rightharpoonup> nat) \<Rightarrow> lvm_error + (ustring \<rightharpoonup> nat)" where
  "uuid_table rd [] t = Ok t"
| "uuid_table rd ((i, d) # ds) t =
     rbind (rbind (read_pv_label_of rd d i) (\<lambda>l. ok_or l (NoLabel i))) (\<lambda>label.
       uuid_table rd ds (t(label_uuid label \<mapsto> i)))"

definition lvm_open :: "('d, 'x) block_read_scheme \<Rightarrow> 'd list \<Rightarrow> ustring \<Rightarrow> lvm_error + 'd logical_volume" where
  "lvm_open rd devices name =
     rbind (read_volume_group rd devices) (\<lambda>vg.
     rbind (uuid_table rd (enumerate 0 devices) Map.empty) (\<lambda>table.
       let m = \<lparr>mp_vg = vg, mp_uuid_to_dev = table, mp_devices = devices\<rparr> in
       rbind (find_lv vg name) (\<lambda>info.
       rbind (map_lv rd m 3 name) (\<lambda>(runs, lvsize).
         Ok \<lparr>lvol_devices = devices, lvol_runs = runs, lvol_size = lvsize, lvol_info = info\<rparr>))))"

definition lvm_read_at :: "('d, 'x) block_read_scheme \<Rightarrow> 'd logical_volume \<Rightarrow> u64 \<Rightarrow> u8 list \<Rightarrow> fs_error + u8 list" where
  "lvm_read_at rd lv offset buf =
     (let len = of_nat (length buf) in
      if \<not> area_fits offset len (lvol_size lv) then Err (OutOfBounds offset len (lvol_size lv))
      else read_runs rd (lvol_devices lv) (lvol_runs lv) offset buf)"

definition lvm_size_bytes :: "'d logical_volume \<Rightarrow> u64" where
  "lvm_size_bytes lv = lvol_size lv"

end
