(* ===== verification/Md_Read.thy ===== *)
theory Md_Read
  imports Md_Array
begin

text \<open>
  What reading an assembled \<open>md\<close> array returns. An image gives the bytes every slot has,
  or had before its member was lost; the array's bytes are defined on the image alone, and
  \<open>md_read_at\<close> is shown to return them, at every level and with as many members missing as
  the level survives.
\<close>

section \<open>What assembly establishes\<close>

definition md_wf :: "('d, 'x) block_read_scheme \<Rightarrow> 'd md_array \<Rightarrow> bool" where
  "md_wf rd a \<longleftrightarrow>
     (let lead = a_superblock a in
      a_level a = sb_level lead \<and> a_layout a = sb_layout lead \<and> a_chunk a = chunk_bytes lead \<and>
      length (a_slots a) = unat (raid_disks lead) \<and> 0 < length (a_slots a) \<and> length (a_slots a) \<le> 1920 \<and>
      array_shape_of lead (a_slots a) = Ok (a_size a, a_zones a, a_raid10 a) \<and>
      (\<forall>m. Some m \<in> set (a_slots a) \<longrightarrow>
         unat (m_data_offset m) + unat (m_data_size m) \<le> unat (size_bytes rd (m_dev m)) \<and>
         unat (m_data_offset m) + unat (member_span (a_level a) (a_size a) (component_size lead))
           \<le> unat (size_bytes rd (m_dev m))))"

definition member_of :: "'d \<Rightarrow> md_superblock \<Rightarrow> 'd md_member" where
  "member_of d sb = \<lparr>m_dev = d, m_data_offset = data_offset sb, m_data_size = data_size sb\<rparr>"

lemma place_members_Cons:
  "place_members newest n slots ((i, d, sb) # found) = Ok slots' \<longleftrightarrow>
     (\<exists>slots''. place_members newest n slots'' found = Ok slots' \<and>
        (slots'' = slots \<or> (\<exists>j. slots'' = slots[j := Some (member_of d sb)] \<and> slots ! j = None)) \<and>
        place_members newest n slots [(i, d, sb)] = Ok slots'')"
  by (auto simp: member_of_def split: md_role.splits if_splits)

lemma place_members_slots:
  assumes "place_members newest n slots found = Ok slots'"
  shows "length slots' = length slots" and "Some m \<in> set slots' \<Longrightarrow> Some m \<in> set slots \<or>
    (\<exists>i d sb. (i, d, sb) \<in> set found \<and> m = member_of d sb)"
proof -
  have "length slots' = length slots \<and> (Some m \<in> set slots' \<longrightarrow> Some m \<in> set slots \<or>
    (\<exists>i d sb. (i, d, sb) \<in> set found \<and> m = member_of d sb))"
    using assms
  proof (induction found arbitrary: slots)
    case (Cons x found)
    obtain i d sb where x: "x = (i, d, sb)" by (cases x) auto
    with Cons.prems obtain slots'' where "place_members newest n slots'' found = Ok slots'"
      and s: "slots'' = slots \<or> (\<exists>j. slots'' = slots[j := Some (member_of d sb)])"
      using place_members_Cons by metis
    note ih = Cons.IH [OF this(1)]
    from s have "length slots'' = length slots" "set slots'' \<subseteq> insert (Some (member_of d sb)) (set slots)"
      using set_update_subset_insert [of slots _ "Some (member_of d sb)"] by auto
    with ih x show ?case by auto
  qed auto
  then show "length slots' = length slots" and "Some m \<in> set slots' \<Longrightarrow> Some m \<in> set slots \<or>
    (\<exists>i d sb. (i, d, sb) \<in> set found \<and> m = member_of d sb)" by auto
qed

lemma member_superblocks_found:
  assumes "member_superblocks rd devices = Ok found" and "(i, d, sb) \<in> set found"
  shows "d \<in> set devices" and "read_superblock_of rd d i = Ok (Some sb)"
proof -
  obtain j where "j < length found" "found ! j = (i, d, sb)" using assms(2) by (auto simp: in_set_conv_nth)
  with assms(1) have j: "j < length devices" "read_superblock_of rd (devices ! j) j = Ok (Some sb)" "i = j" "d = devices ! j"
    using traverse_length [OF assms(1) [unfolded member_superblocks_def]]
      traverse_nth [OF assms(1) [unfolded member_superblocks_def], of j]
    by (auto simp: nth_enumerate_eq)
  then show "d \<in> set devices" "read_superblock_of rd d i = Ok (Some sb)" by auto
qed

lemma set_map_filter_id: "m \<in> set (List.map_filter id xs) \<longleftrightarrow> Some m \<in> set xs"
  by (auto simp: List.map_filter_def image_iff)

lemma assemble_wf:
  assumes rd: "block_reader rd contents invar" and inv: "\<forall>d \<in> set devices. invar d" and "assemble rd devices = Ok a"
  shows "md_wf rd a" and "Some m \<in> set (a_slots a) \<Longrightarrow> m_dev m \<in> set devices"
proof -
  let ?lead = "a_superblock a"
  from assms(3) obtain found slots where f: "member_superblocks rd devices = Ok found"
    and n: "raid_disks ?lead \<noteq> 0" "raid_disks ?lead \<le> V1_MAX_DEV"
    and p: "place_members (sb_events ?lead) (raid_disks ?lead) (replicate (unat (raid_disks ?lead)) None) found = Ok slots"
    and sh: "array_shape_of ?lead slots = Ok (a_size a, a_zones a, a_raid10 a)"
    and fit: "list_all (\<lambda>m. area_fits (m_data_offset m)
        (member_span (sb_level ?lead) (a_size a) (component_size ?lead)) (size_bytes rd (m_dev m)))
        (List.map_filter id slots)"
    and a: "a_slots a = slots" "a_level a = sb_level ?lead" "a_layout a = sb_layout ?lead" "a_chunk a = chunk_bytes ?lead"
    by (auto simp: assemble_def Let_def split: if_splits option.splits)
  note ps = place_members_slots [OF p]
  have dev: "m_dev m \<in> set devices \<and> (\<exists>member sb. read_superblock_of rd (m_dev m) member = Ok (Some sb) \<and>
      m_data_offset m = data_offset sb \<and> m_data_size m = data_size sb)" if "Some m \<in> set slots" for m
    using ps(2) [OF that] member_superblocks_found [OF f] by (fastforce simp: member_of_def)
  then show "Some m \<in> set (a_slots a) \<Longrightarrow> m_dev m \<in> set devices" using a(1) by blast
  have "unat (m_data_offset m) + unat (m_data_size m) \<le> unat (size_bytes rd (m_dev m))" if "Some m \<in> set slots" for m
  proof -
    from dev [OF that] inv have "invar (m_dev m)" by blast
    with dev [OF that] show ?thesis
      using superblock_on_device(2) [OF rd] block_reader.size_contents [OF rd] by fastforce
  qed
  moreover have "unat (raid_disks ?lead) \<noteq> 0" "unat (raid_disks ?lead) \<le> 1920"
    using n by (simp_all add: unat_eq_0 word_le_nat_alt)
  moreover have "unat (m_data_offset m) + unat (member_span (a_level a) (a_size a) (component_size ?lead))
           \<le> unat (size_bytes rd (m_dev m))" if "Some m \<in> set slots" for m
    using fit that a by (auto simp: list_all_iff set_map_filter_id area_fits_iff)
  ultimately show "md_wf rd a"
    unfolding md_wf_def Let_def using a sh ps(1) by simp
qed

section \<open>The loop over pieces\<close>

text \<open>
  A piece that reads the array's bytes, at least one and no more than asked for, makes the
  whole read return them: the loop ends, and the pieces join up.
\<close>

lemma area_fits_buf: "unat pos + length buf \<le> unat asize \<Longrightarrow> area_fits pos (of_nat (length buf)) asize"
  using unat_lt [of asize] by (simp add: area_fits_iff unat_of_nat)

lemma read_pieces_ok:
  assumes "\<And>pos buf. buf \<noteq> [] \<Longrightarrow> unat pos + length buf \<le> asize \<Longrightarrow>
      \<exists>n. 0 < n \<and> n \<le> length buf \<and> piece pos buf = Ok (map f [unat pos..<unat pos + n])"
    and "unat pos + length buf \<le> asize" and "asize < 2 ^ 64"
  shows "read_pieces piece pos buf = Ok (map f [unat pos..<unat pos + length buf])"
  using assms(2)
proof (induction "length buf" arbitrary: pos buf rule: less_induct)
  case less
  show ?case
  proof (cases "buf = []")
    case False
    from assms(1) [OF this less.prems] obtain n where n: "0 < n" "n \<le> length buf"
      "piece pos buf = Ok (map f [unat pos..<unat pos + n])" by blast
    show ?thesis
    proof (cases "n = length buf")
      case True
      then show ?thesis using n False by (simp add: read_pieces.simps [of piece pos buf] read_pieces.simps [of piece _ "[]"])
    next
      case nf: False
      have u: "unat (pos + of_nat n) = unat pos + n"
        using n nf less.prems assms(3) by (simp add: unat_plus_if' unat_of_nat)
      have l: "length (drop n buf) < length buf" "unat (pos + of_nat n) + length (drop n buf) \<le> asize"
        using n nf u less.prems by simp_all
      have "read_pieces piece (pos + of_nat n) (drop n buf) = Ok (map f [unat pos + n..<unat pos + length buf])"
        using less.hyps [OF l] u n by simp
      moreover have "[unat pos..<unat pos + length buf] = [unat pos..<unat pos + n] @ [unat pos + n..<unat pos + length buf]"
        using n upt_add_eq_append [of "unat pos" "unat pos + n" "length buf - n"] by simp
      ultimately show ?thesis using n False by (simp add: read_pieces.simps [of piece pos buf])
    qed
  qed (simp add: read_pieces.simps)
qed

section \<open>Images\<close>

text \<open>
  The bytes \<open>img slot off\<close> are the ideal contents of every member's data area. They are the
  image of the array when the members that are present hold them.
\<close>

definition image_of :: "('d \<Rightarrow> u8 list) \<Rightarrow> 'd md_array \<Rightarrow> nat \<Rightarrow> (nat \<Rightarrow> nat \<Rightarrow> u8) \<Rightarrow> bool" where
  "image_of contents a span img \<longleftrightarrow> (\<forall>slot < length (a_slots a). \<forall>m. a_slots a ! slot = Some m \<longrightarrow>
     (\<forall>off < span. contents (m_dev m) ! (unat (m_data_offset m) + off) = img slot off))"

lemma image_ofD:
  assumes "image_of contents a span img" and "slot < length (a_slots a)" and "a_slots a ! slot = Some m" and "t < span"
  shows "contents (m_dev m) ! (unat (m_data_offset m) + t) = img slot t"
  using assms by (simp add: image_of_def)

context block_reader
begin

lemma read_member_image:
  assumes img: "\<And>m t. a_slots a ! slot = Some m \<Longrightarrow> t < span \<Longrightarrow>
      contents (m_dev m) ! (unat (m_data_offset m) + t) = img slot t"
    and dev: "\<And>m. a_slots a ! slot = Some m \<Longrightarrow> invar (m_dev m) \<and> unat (m_data_offset m) + span \<le> length (contents (m_dev m))"
    and off: "unat off + length buf \<le> span"
  shows "read_member rd a slot off buf =
    Ok (if a_slots a ! slot = None then None else Some (map (img slot) [unat off..<unat off + length buf]))"
proof (cases "a_slots a ! slot")
  case (Some m)
  note d = dev [OF Some]
  have u: "unat (m_data_offset m + off) = unat (m_data_offset m) + unat off"
    using d off contents_fit [of "m_dev m"] by (simp add: unat_plus_if')
  have "read_at rd (m_dev m) (m_data_offset m + off) (length buf) =
      Ok (slice_of (unat (m_data_offset m) + unat off) (length buf) (contents (m_dev m)))"
    using read_within [of "m_dev m" "m_data_offset m + off" "length buf"] d off u by simp
  also have "slice_of (unat (m_data_offset m) + unat off) (length buf) (contents (m_dev m)) =
      map (img slot) [unat off..<unat off + length buf]"
    using d off img [OF Some] by (intro nth_equalityI) (auto simp: add.assoc)
  finally show ?thesis using Some by (simp add: read_member_def)
qed (simp add: read_member_def)

end

section \<open>Chunks of RAID4, RAID5 and RAID6\<close>

definition parity_count :: "int \<Rightarrow> nat" where
  "parity_count level = (if level = LEVEL_RAID6 then 2 else 1)"

definition parity_layout :: "int \<Rightarrow> u32 \<Rightarrow> u32" where
  "parity_layout level layout = (if level = LEVEL_RAID4 then LAYOUT_PARITY_LAST else layout)"

definition data_slot :: "int \<Rightarrow> u32 \<Rightarrow> nat \<Rightarrow> nat \<Rightarrow> nat \<Rightarrow> nat" where
  "data_slot level layout n stripe i =
     (case parity_map level (parity_layout level layout) n stripe i of Some (dd, _, _) \<Rightarrow> dd | None \<Rightarrow> 0)"

lemma read_chunk_raid5:
  assumes s: "st_raid10 s = None" "st_level s \<noteq> LEVEL_RAID6" "unat (st_members s) = n" and n: "2 \<le> n"
    and stripe: "stripe = unat k div (n - 1)"
    and r: "row_reads member (of_nat stripe * st_chunk s + within) (length buf) n R present"
    and c: "row5_consistent n (length buf) R" and few: "card {s. s < n \<and> \<not> present s} \<le> 1"
  shows "read_chunk s member k within buf = Ok (R (data_slot (st_level s) (st_layout s) n stripe (unat k mod (n - 1))))"
proof -
  let ?l = "parity_layout (st_level s) (st_layout s)" and ?i = "unat k mod (n - 1)"
  obtain dm p where row: "raid5_row ?l n stripe dm p" using raid5_rows [OF n] by blast
  then have pm: "parity_map (st_level s) ?l n stripe i = Some (dm i, p, None)" for i
    using s(2) by (simp add: raid5_row_def)
  have i: "?i < n - 1" using n by simp
  then have d: "dm ?i < n" using row by (auto simp: raid5_row_def row_ok_def)
  have ds: "data_slot (st_level s) (st_layout s) n stripe ?i = dm ?i" by (simp add: data_slot_def pm)
  have pres: "\<forall>slot < n. slot \<noteq> dm ?i \<longrightarrow> present slot" if "\<not> present (dm ?i)"
  proof (intro allI impI, rule ccontr)
    fix t assume t: "t < n" "t \<noteq> dm ?i" "\<not> present t"
    then have "card {t, dm ?i} \<le> card {s. s < n \<and> \<not> present s}" using that d by (intro card_mono) auto
    then show False using few t(2) by simp
  qed
  have l: "(if st_level s = 4 then (5 :: u32) else st_layout s) = ?l" by (simp add: parity_layout_def)
  show ?thesis
    using s n pm [of ?i] row_read [OF r d refl] xor_row_rebuilds [OF r c d pres] ds stripe l
    by (auto simp: read_chunk_def Let_def)
qed

lemma read_chunk_raid6:
  assumes s: "st_raid10 s = None" "st_level s = LEVEL_RAID6" "unat (st_members s) = n" and n: "3 \<le> n" "n \<le> 255"
    and stripe: "stripe = unat k div (n - 2)"
    and r: "row_reads member (of_nat stripe * st_chunk s + within) (length buf) n R present"
    and row: "raid6_row (st_layout s) n stripe dm p q"
    and c: "row6_consistent (st_layout s) n stripe (length buf) R dm p q"
    and few: "card {s. s < n \<and> \<not> present s} \<le> 2"
  shows "read_chunk s member k within buf = Ok (R (data_slot (st_level s) (st_layout s) n stripe (unat k mod (n - 2))))"
proof -
  let ?i = "unat k mod (n - 2)"
  have pm: "parity_map (st_level s) (st_layout s) n stripe i = Some (dm i, p, Some q)" for i
    using s(2) row by (simp add: parity_map_def raid6_row_def)
  have i: "?i < n - 2" using n by simp
  then have d: "dm ?i < n" using row by (auto simp: raid6_row_def row_ok_def)
  have ds: "data_slot (st_level s) (st_layout s) n stripe ?i = dm ?i" using pm s(2) by (simp add: data_slot_def parity_layout_def)
  have "rebuild_raid6 s member stripe ?i (of_nat stripe * st_chunk s + within) buf = Ok (R (dm ?i))" if "\<not> present (dm ?i)"
    using rebuild_raid6_ok [OF r row n(1) c few n(2) i that _ refl] s(3) n by auto
  then show ?thesis
    using s n pm [of ?i] row_read [OF r d refl] ds stripe by (auto simp: read_chunk_def Let_def)
qed

section \<open>RAID4, RAID5 and RAID6 arrays\<close>

text \<open>The array's byte at a position, and the rows of the image that parity protects.\<close>

definition parity_byte :: "'d md_array \<Rightarrow> (nat \<Rightarrow> nat \<Rightarrow> u8) \<Rightarrow> nat \<Rightarrow> u8" where
  "parity_byte a img pos =
     (let n = length (a_slots a); chunk = unat (a_chunk a); data = n - parity_count (a_level a);
          k = pos div chunk; stripe = k div data
      in img (data_slot (a_level a) (a_layout a) n stripe (k mod data)) (stripe * chunk + pos mod chunk))"

definition parity_row_ok :: "'d md_array \<Rightarrow> (nat \<Rightarrow> nat \<Rightarrow> u8) \<Rightarrow> nat \<Rightarrow> bool" where
  "parity_row_ok a img off \<longleftrightarrow>
     (let n = length (a_slots a); stripe = off div unat (a_chunk a); data = data_slot (a_level a) (a_layout a) n stripe in
      if a_level a = LEVEL_RAID6 then
        case parity_map LEVEL_RAID6 (a_layout a) n stripe 0 of
          Some (_, p, Some q) \<Rightarrow>
            img p off = xsum (\<lambda>i. img (data i) off) [0..<n - 2] \<and>
            img q off = xsum (\<lambda>i. gf_mul (gf_pow2 (exponent (a_layout a) n stripe i)) (img (data i) off)) [0..<n - 2]
        | _ \<Rightarrow> False
      else xsum (\<lambda>s. img s off) [0..<n] = 0)"

lemma parity_shape:
  assumes "md_wf rd a" and "a_level a \<in> {LEVEL_RAID4, LEVEL_RAID5, LEVEL_RAID6}"
  shows "a_raid10 a = None" and "0 < unat (a_chunk a)" and "parity_count (a_level a) < length (a_slots a)"
    and "a_level a = LEVEL_RAID6 \<Longrightarrow> raid6_layout_known (a_layout a)"
    and "card {s. s < length (a_slots a) \<and> a_slots a ! s = None} \<le> parity_count (a_level a)"
    and "unat (a_size a) = unat (component_size (a_superblock a)) div unat (a_chunk a) * unat (a_chunk a) *
      (length (a_slots a) - parity_count (a_level a))"
proof -
  let ?lead = "a_superblock a" and ?n = "length (a_slots a)" and ?p = "if a_level a = LEVEL_RAID6 then 2 else (1 :: u32)"
  have sh: "shape_parity ?lead (a_slots a) = Ok (a_size a, a_zones a, a_raid10 a)"
    and l: "a_level a = sb_level ?lead" "a_layout a = sb_layout ?lead" "a_chunk a = chunk_bytes ?lead"
    and n: "?n = unat (raid_disks ?lead)" "?n \<le> 1920"
    using assms by (auto simp: md_wf_def Let_def array_shape_of_def)
  have c: "a_chunk a \<noteq> 0" and np: "?p < raid_disks ?lead"
    and k: "a_level a = LEVEL_RAID6 \<Longrightarrow> raid6_layout_known (a_layout a)"
    and pc: "\<not> of_nat (present_count (a_slots a)) < raid_disks ?lead - ?p"
    and sz: "checked_mul (component_size ?lead div a_chunk a * a_chunk a) (ucast (raid_disks ?lead - ?p)) = Some (a_size a)"
    and "a_raid10 a = None"
    using sh l by (auto simp: shape_parity_def Let_def needs_chunk_def need_members_def split: if_splits)
  show "a_raid10 a = None" by fact
  show "0 < unat (a_chunk a)" using c by (simp add: unat_gt_0)
  show "a_level a = LEVEL_RAID6 \<Longrightarrow> raid6_layout_known (a_layout a)" by (rule k)
  have up: "unat ?p = parity_count (a_level a)" by (simp add: parity_count_def)
  show pn: "parity_count (a_level a) < ?n" using np n up by (simp add: word_less_nat_alt)
  have ud: "unat (raid_disks ?lead - ?p) = ?n - parity_count (a_level a)"
    using unat_sub [OF less_imp_le [OF np]] n(1) up by metis
  have pl: "present_count (a_slots a) \<le> ?n" by (simp add: present_count_def)
  then have "?n - parity_count (a_level a) \<le> present_count (a_slots a)"
    using pc ud n(2) by (simp add: word_less_nat_alt unat_of_nat)
  moreover have "card {s. s < ?n \<and> a_slots a ! s = None} = ?n - present_count (a_slots a)"
    using sum_length_filter_compl [of "\<lambda>s. s = None" "a_slots a"] length_filter_conv_card [of "\<lambda>s. s = None" "a_slots a"]
    by (simp add: present_count_def)
  ultimately show "card {s. s < ?n \<and> a_slots a ! s = None} \<le> parity_count (a_level a)" using pn by simp
  have "unat (component_size ?lead div a_chunk a * a_chunk a) = unat (component_size ?lead) div unat (a_chunk a) * unat (a_chunk a)"
    using le_less_trans [OF div_times_less_eq_dividend unat_lt [of "component_size ?lead"]]
    by (simp add: unat_word_ariths(2) unat_div_distrib)
  then show "unat (a_size a) = unat (component_size ?lead) div unat (a_chunk a) * unat (a_chunk a) * (?n - parity_count (a_level a))"
    using sz ud n(2) by (simp add: checked_mul_eq_Some unat_ucast)
qed


text \<open>One piece of a read stays within one chunk, and the row it is read from within the members.\<close>

lemma piece_bounds:
  fixes pos :: nat
  assumes chunk: "0 < chunk" and data: "0 < data" and "pos < span div chunk * chunk * data" and "pos mod chunk + len \<le> chunk"
  shows "pos div chunk div data * chunk + pos mod chunk + len \<le> span div chunk * chunk"
    and "\<And>off. pos div chunk div data * chunk + pos mod chunk \<le> off \<Longrightarrow>
      off < pos div chunk div data * chunk + pos mod chunk + len \<Longrightarrow> off div chunk = pos div chunk div data"
proof -
  have "pos div chunk < span div chunk * data"
    using assms by (simp add: less_mult_imp_div_less mult.assoc mult.commute mult.left_commute)
  then have "pos div chunk div data < span div chunk" by (simp add: less_mult_imp_div_less)
  then have "(pos div chunk div data + 1) * chunk \<le> span div chunk * chunk" by (intro mult_right_mono) simp_all
  then show "pos div chunk div data * chunk + pos mod chunk + len \<le> span div chunk * chunk"
    using assms(4) by (simp add: algebra_simps)
  fix off assume "pos div chunk div data * chunk + pos mod chunk \<le> off" "off < pos div chunk div data * chunk + pos mod chunk + len"
  then have "pos div chunk div data * chunk \<le> off" "off < Suc (pos div chunk div data) * chunk"
    using assms(4) by simp_all
  then show "off div chunk = pos div chunk div data" by (simp add: div_nat_eqI mult.commute)
qed

lemma map_img_shift:
  "map (img s) [b..<b + len] = map (\<lambda>t. img s (b + t)) [0..<len]"
  by (intro nth_equalityI) simp_all

lemma same_chunk:
  assumes "t < len" and "pos mod chunk + len \<le> (chunk :: nat)"
  shows "(pos + t) div chunk = pos div chunk" and "(pos + t) mod chunk = pos mod chunk + t"
proof -
  have "pos mod chunk + t < chunk" using assms by simp
  then show "(pos + t) div chunk = pos div chunk" "(pos + t) mod chunk = pos mod chunk + t"
    using div_add1_eq [of pos t chunk] mod_add_left_eq [of pos chunk t] by (auto simp: div_add1_eq [of pos t chunk])
qed

lemma parity_bytes_piece:
  fixes a :: "'d md_array"
  defines "n \<equiv> length (a_slots a)" and "chunk \<equiv> unat (a_chunk a)" and "data \<equiv> length (a_slots a) - parity_count (a_level a)"
  assumes "pos mod chunk + len \<le> chunk"
  shows "map (parity_byte a img) [pos..<pos + len] =
    map (img (data_slot (a_level a) (a_layout a) n (pos div chunk div data) (pos div chunk mod data)))
      [pos div chunk div data * chunk + pos mod chunk..<pos div chunk div data * chunk + pos mod chunk + len]"
  using same_chunk [OF _ assms(4)]
  by (intro nth_equalityI) (simp_all add: parity_byte_def Let_def n_def chunk_def data_def add.assoc)


lemma unat_within:
  fixes pos chunk :: u64
  assumes "chunk \<noteq> 0"
  shows "unat (chunk - pos mod chunk) = unat chunk - unat pos mod unat chunk"
proof -
  have "pos mod chunk \<le> chunk" using assms by (simp add: word_le_nat_alt unat_mod_distrib unat_gt_0 less_imp_le)
  then show ?thesis by (simp add: unat_sub unat_mod_distrib)
qed

lemma unat_row_offset:
  fixes chunk w :: u64
  assumes "r * unat chunk + unat w < 2 ^ 64"
  shows "unat (of_nat r * chunk + w) = r * unat chunk + unat w"
proof -
  have "of_nat r * chunk + w = of_nat (r * unat chunk + unat w)" by simp
  then show ?thesis using assms by (simp only: unat_of_nat) simp
qed

text \<open>The rows of a consistent image are the ones the reconstruction needs.\<close>

lemma row5_of_image:
  assumes "\<And>t. t < len \<Longrightarrow> parity_row_ok a img (b + t)" and "a_level a \<noteq> LEVEL_RAID6"
  shows "row5_consistent (length (a_slots a)) len (\<lambda>s. map (img s) [b..<b + len])"
  using assms by (auto simp: row5_consistent_def parity_row_ok_def Let_def)

lemma row6_of_image:
  assumes "\<And>t. t < len \<Longrightarrow> parity_row_ok a img (b + t)" and l: "a_level a = LEVEL_RAID6"
    and "\<And>t. t < len \<Longrightarrow> (b + t) div unat (a_chunk a) = stripe"
    and row: "raid6_row (a_layout a) (length (a_slots a)) stripe dm p q"
  shows "row6_consistent (a_layout a) (length (a_slots a)) stripe len (\<lambda>s. map (img s) [b..<b + len]) dm p q"
proof -
  have "parity_map LEVEL_RAID6 (a_layout a) (length (a_slots a)) stripe i = Some (dm i, p, Some q)" for i
    using row by (simp add: parity_map_def raid6_row_def)
  then show ?thesis
    using assms(1-3) by (auto simp: row6_consistent_def parity_row_ok_def Let_def data_slot_def parity_layout_def)
qed

text \<open>
  A chunk of an array's shape, read through any member reader that gives the image where a
  member is present.
\<close>

text \<open>One chunk of a row whose members read as the image says, or are missing.\<close>

lemma parity_row_chunk:
  assumes lv: "a_level a \<in> {LEVEL_RAID4, LEVEL_RAID5, LEVEL_RAID6}" and r10: "a_raid10 a = None"
    and np: "parity_count (a_level a) < length (a_slots a)" "length (a_slots a) < 2 ^ 64"
    and l6: "a_level a = LEVEL_RAID6 \<Longrightarrow> raid6_layout_known (a_layout a) \<and> length (a_slots a) \<le> 255"
    and few: "card {s. s < length (a_slots a) \<and> \<not> P s} \<le> parity_count (a_level a)"
    and stripe: "stripe = unat pos div unat (a_chunk a) div (length (a_slots a) - parity_count (a_level a))"
    and rr: "row_reads member (of_nat stripe * a_chunk a + pos mod a_chunk a) len (length (a_slots a)) (\<lambda>s. map (img s) [b..<b + len]) P"
    and rows: "\<And>t. t < len \<Longrightarrow> parity_row_ok a img (b + t)" and st: "\<And>t. t < len \<Longrightarrow> (b + t) div unat (a_chunk a) = stripe"
    and lt: "length buf = len"
  shows "read_chunk (striping_of a) member (pos div a_chunk a) (pos mod a_chunk a) buf =
    Ok (map (img (data_slot (a_level a) (a_layout a) (length (a_slots a)) stripe
      (unat pos div unat (a_chunk a) mod (length (a_slots a) - parity_count (a_level a))))) [b..<b + len])"
proof (cases "a_level a = LEVEL_RAID6")
  case True
  let ?n = "length (a_slots a)" and ?R = "\<lambda>s. map (img s) [b..<b + len]"
  have n: "3 \<le> ?n" "?n \<le> 255" "?n - parity_count (a_level a) = ?n - 2" "raid6_layout_known (a_layout a)"
    using np True l6 by (simp_all add: parity_count_def)
  obtain dm p q where row: "raid6_row (a_layout a) ?n stripe dm p q" using raid6_rows [OF n(4,1)] by blast
  have c: "row6_consistent (a_layout a) ?n stripe len ?R dm p q" using row6_of_image rows st True row by blast
  show ?thesis
    using read_chunk_raid6 [of "striping_of a" ?n stripe "pos div a_chunk a" member "pos mod a_chunk a" buf ?R P dm p q]
      r10 few True n lt rr row c
    by (simp add: striping_of_def stripe unat_div_distrib parity_count_def unat_of_nat)
next
  case False
  let ?n = "length (a_slots a)" and ?R = "\<lambda>s. map (img s) [b..<b + len]"
  have n: "2 \<le> ?n" "?n - parity_count (a_level a) = ?n - 1" using np False by (simp_all add: parity_count_def)
  have c: "row5_consistent ?n len ?R" using row5_of_image rows False by blast
  show ?thesis
    using read_chunk_raid5 [of "striping_of a" ?n stripe "pos div a_chunk a" member "pos mod a_chunk a" buf ?R P]
      lv r10 few False n np(2) lt rr c
    by (simp add: striping_of_def stripe unat_div_distrib parity_count_def unat_of_nat)
qed

lemma parity_chunk:
  assumes lv: "a_level a \<in> {LEVEL_RAID4, LEVEL_RAID5, LEVEL_RAID6}" and r10: "a_raid10 a = None"
    and chunk: "0 < unat (a_chunk a)" and np: "parity_count (a_level a) < length (a_slots a)" "length (a_slots a) < 2 ^ 64"
    and l6: "a_level a = LEVEL_RAID6 \<Longrightarrow> raid6_layout_known (a_layout a) \<and> length (a_slots a) \<le> 255"
    and few: "card {s. s < length (a_slots a) \<and> \<not> P s} \<le> parity_count (a_level a)"
    and member: "\<And>slot off buf. slot < length (a_slots a) \<Longrightarrow> unat off + length buf \<le> span \<Longrightarrow>
      member slot off buf = Ok (if P slot then Some (map (img slot) [unat off..<unat off + length buf]) else None)"
    and rows: "\<And>off. off < span div unat (a_chunk a) * unat (a_chunk a) \<Longrightarrow> parity_row_ok a img off"
    and span: "span < 2 ^ 64" and buf: "buf \<noteq> []"
    and pos: "unat pos < span div unat (a_chunk a) * unat (a_chunk a) * (length (a_slots a) - parity_count (a_level a))"
  shows "\<exists>k. 0 < k \<and> k \<le> length buf \<and>
    read_chunk (striping_of a) member (pos div a_chunk a) (pos mod a_chunk a)
      (take (min (unat (a_chunk a - pos mod a_chunk a)) (length buf)) buf)
    = Ok (map (parity_byte a img) [unat pos..<unat pos + k])"
proof -
  let ?n = "length (a_slots a)" and ?chunk = "unat (a_chunk a)"
  let ?data = "?n - parity_count (a_level a)"
  let ?k = "unat pos div ?chunk" and ?w = "unat pos mod ?chunk"
  define stripe where "stripe = ?k div ?data"
  define len where "len = min (?chunk - ?w) (length buf)"
  define b where "b = stripe * ?chunk + ?w"
  have ck: "a_chunk a \<noteq> 0" using chunk by auto
  have w: "?w < ?chunk" using chunk by simp
  have len: "0 < len" "len \<le> length buf" "?w + len \<le> ?chunk" using w buf by (auto simp: len_def)
  have dp: "0 < ?data" using np by simp
  note pb = piece_bounds [OF chunk dp pos len(3), folded stripe_def b_def]
  have sp: "b + len \<le> span" using pb(1) div_times_less_eq_dividend order_trans by blast
  have ub: "unat (of_nat stripe * a_chunk a + pos mod a_chunk a) = b"
    using unat_row_offset [of stripe "a_chunk a" "pos mod a_chunk a"] sp span len(1)
    by (simp add: b_def unat_mod_distrib)
  let ?R = "\<lambda>s. map (img s) [b..<b + len]"
  have rr: "row_reads member (of_nat stripe * a_chunk a + pos mod a_chunk a) len ?n ?R P"
    using member [where off = "of_nat stripe * a_chunk a + pos mod a_chunk a"] ub sp by (simp add: row_reads_def)
  have rows': "parity_row_ok a img (b + t)" if "t < len" for t using rows pb(1) that by simp
  have st: "(b + t) div ?chunk = stripe" if "t < len" for t using pb(2) [of "b + t"] that by simp
  let ?buf = "take (min (unat (a_chunk a - pos mod a_chunk a)) (length buf)) buf"
  have lt: "length ?buf = len" by (simp add: len_def unat_within [OF ck])
  note parity_row_chunk [OF lv r10 np l6 few stripe_def rr rows' st lt]
  then show ?thesis
    using len parity_bytes_piece [OF len(3), of img, folded stripe_def b_def] by (intro exI [of _ len]) simp
qed

context block_reader
begin

lemma members_on_devices:
  assumes "md_wf rd a" and "\<forall>m. Some m \<in> set (a_slots a) \<longrightarrow> invar (m_dev m)" and "slot < length (a_slots a)" and "a_slots a ! slot = Some m"
  shows "invar (m_dev m)"
    and "unat (m_data_offset m) + unat (member_span (a_level a) (a_size a) (component_size (a_superblock a))) \<le> length (contents (m_dev m))"
    and "unat (m_data_offset m) + unat (m_data_size m) \<le> length (contents (m_dev m))"
proof -
  have m: "Some m \<in> set (a_slots a)" using assms(3,4) by (metis nth_mem)
  then show i: "invar (m_dev m)" using assms(2) by blast
  show "unat (m_data_offset m) + unat (member_span (a_level a) (a_size a) (component_size (a_superblock a))) \<le> length (contents (m_dev m))"
    and "unat (m_data_offset m) + unat (m_data_size m) \<le> length (contents (m_dev m))"
    using assms(1) m size_contents [OF i] by (auto simp: md_wf_def Let_def)
qed

lemma parity_piece:
  assumes as: "md_wf rd a" and lv: "a_level a \<in> {LEVEL_RAID4, LEVEL_RAID5, LEVEL_RAID6}"
    and inv: "\<forall>m. Some m \<in> set (a_slots a) \<longrightarrow> invar (m_dev m)" and img: "image_of contents a (unat (component_size (a_superblock a))) img"
    and rows: "\<And>off. off < unat (component_size (a_superblock a)) div unat (a_chunk a) * unat (a_chunk a) \<Longrightarrow> parity_row_ok a img off"
    and n255: "a_level a = LEVEL_RAID6 \<Longrightarrow> length (a_slots a) \<le> 255"
    and buf: "buf \<noteq> []" "unat pos + length buf \<le> unat (a_size a)"
  shows "\<exists>k. 0 < k \<and> k \<le> length buf \<and> chunk_piece rd a pos buf = Ok (map (parity_byte a img) [unat pos..<unat pos + k])"
proof -
  note sh = parity_shape [OF as lv]
  let ?span = "unat (component_size (a_superblock a))"
  have ms: "member_span (a_level a) (a_size a) (component_size (a_superblock a)) = component_size (a_superblock a)"
    using lv by (auto simp: member_span_def)
  have member: "read_member rd a slot off b =
      Ok (if a_slots a ! slot \<noteq> None then Some (map (img slot) [unat off..<unat off + length b]) else None)"
    if s: "slot < length (a_slots a)" "unat off + length b \<le> ?span" for slot off b
    using read_member_image [where img = img and a = a and slot = slot and span = ?span and off = off and buf = b]
      image_ofD [OF img s(1)] members_on_devices [OF as inv s(1)] s(2) ms by auto
  have n: "length (a_slots a) < 2 ^ 64" using as by (simp add: md_wf_def Let_def)
  have pos: "unat pos < ?span div unat (a_chunk a) * unat (a_chunk a) * (length (a_slots a) - parity_count (a_level a))"
    using buf unfolding sh(6) [symmetric] by (cases buf) simp_all
  show ?thesis
    unfolding chunk_piece_def Let_def
    by (rule parity_chunk [OF lv sh(1,2,3) n _ _ member rows _ buf(1) pos])
      (use sh n255 unat_lt [of "component_size (a_superblock a)"] in simp_all)
qed

lemma parity_read:
  assumes "md_wf rd a" and "\<forall>m. Some m \<in> set (a_slots a) \<longrightarrow> invar (m_dev m)"
    and lv: "a_level a \<in> {LEVEL_RAID4, LEVEL_RAID5, LEVEL_RAID6}" and "a_level a = LEVEL_RAID6 \<Longrightarrow> length (a_slots a) \<le> 255"
    and "image_of contents a (unat (component_size (a_superblock a))) img"
    and "\<And>off. off < unat (component_size (a_superblock a)) div unat (a_chunk a) * unat (a_chunk a) \<Longrightarrow> parity_row_ok a img off"
    and fit: "unat pos + length buf \<le> unat (a_size a)"
  shows "md_read_at rd a pos buf = Ok (map (parity_byte a img) [unat pos..<unat pos + length buf])"
proof -
  have "read_pieces (chunk_piece rd a) pos buf = Ok (map (parity_byte a img) [unat pos..<unat pos + length buf])"
    using parity_piece [OF assms(1,3,2,5,6,4)] fit unat_lt [of "a_size a"]
    by (intro read_pieces_ok [where asize = "unat (a_size a)"]) simp_all
  then show ?thesis using lv area_fits_buf [OF fit] by (auto simp: md_read_at_def Let_def)
qed

end


text \<open>
  C3: A RAID4, RAID5 or RAID6 array reads as if it were whole. Let every row of the ideal
  contents be protected by its parity (and, at RAID6, by Q as well), and let the members that
  are present hold their part of it. Then a read anywhere within the array returns exactly
  the array's bytes, in the order the layout gives them, whether or not members are missing,
  as long as assembly accepted the array: one member at most at RAID4 and RAID5, two at
  RAID6, for arrays of up to 255 members there.
\<close>

theorem md_parity_read:
  assumes "block_reader rd contents invar" and "md_wf rd a" and "\<forall>m. Some m \<in> set (a_slots a) \<longrightarrow> invar (m_dev m)"
    and "a_level a \<in> {LEVEL_RAID4, LEVEL_RAID5, LEVEL_RAID6}" and "a_level a = LEVEL_RAID6 \<Longrightarrow> length (a_slots a) \<le> 255"
    and "image_of contents a (unat (component_size (a_superblock a))) img"
    and "\<And>off. off < unat (component_size (a_superblock a)) div unat (a_chunk a) * unat (a_chunk a) \<Longrightarrow> parity_row_ok a img off"
    and "unat pos + length buf \<le> unat (a_size a)"
  shows "md_read_at rd a pos buf = Ok (map (parity_byte a img) [unat pos..<unat pos + length buf])"
  using block_reader.parity_read [OF assms] .


text \<open>Three RAID5 members of one chunk each, the second of them lost.\<close>

definition raid5_lead :: md_superblock where
  "raid5_lead = \<lparr>sb_version = V1_1, superblock_offset = 0, array_uuid = replicate 16 7, sb_name = [],
     sb_level = 5, sb_layout = 2, chunk_bytes = 512, raid_disks = 3, sb_role = Active 0, data_offset = 0,
     data_size = 512, component_size = 512, sb_events = 9, feature_map = 0\<rparr>"

definition raid5_pair :: "u8 list md_array" where
  "raid5_pair = \<lparr>a_slots = [Some \<lparr>m_dev = replicate 512 1, m_data_offset = 0, m_data_size = 512\<rparr>, None,
       Some \<lparr>m_dev = replicate 512 3, m_data_offset = 0, m_data_size = 512\<rparr>],
     a_level = 5, a_layout = 2, a_chunk = 512, a_size = 1024, a_zones = [], a_raid10 = None, a_superblock = raid5_lead\<rparr>"

lemma raid5_pair_wf: "md_wf memdev raid5_pair"
  by (simp add: md_wf_def raid5_pair_def raid5_lead_def array_shape_of_def shape_parity_def needs_chunk_def
      need_members_def present_count_def member_span_def checked_mul_def Let_def word_le_nat_alt)

theorem md_parity_read_witness:
  "md_read_at memdev raid5_pair 510 (replicate 4 0) = Ok [1, 1, 2, 2]"
proof -
  let ?img = "\<lambda>slot (off :: nat). [1, 2, 3 :: u8] ! slot"
  have "md_read_at memdev raid5_pair 510 (replicate 4 0) =
      Ok (map (parity_byte raid5_pair ?img) [unat (510 :: u64)..<unat (510 :: u64) + length (replicate 4 (0 :: u8))])"
  proof (rule md_parity_read [OF memdev.block_reader_axioms raid5_pair_wf])
    show "image_of (\<lambda>b. b) raid5_pair (unat (component_size (a_superblock raid5_pair))) ?img"
      by (auto simp: image_of_def raid5_pair_def raid5_lead_def less_Suc_eq numeral_3_eq_3)
    show "parity_row_ok raid5_pair ?img off" for off
      by (simp add: parity_row_ok_def raid5_pair_def upt_rec numeral_3_eq_3)
  qed (auto simp: raid5_pair_def memdev_invar_def)
  also have "map (parity_byte raid5_pair ?img) [unat (510 :: u64)..<unat (510 :: u64) + length (replicate 4 (0 :: u8))] = [1, 1, 2, 2]"
    by (simp add: upt_rec parity_byte_def raid5_pair_def parity_count_def data_slot_def parity_layout_def parity_map_def Let_def)
  finally show ?thesis .
qed


lemma md_wf_lead:
  assumes "md_wf rd a"
  shows "sb_level (a_superblock a) = a_level a" and "sb_layout (a_superblock a) = a_layout a"
    and "chunk_bytes (a_superblock a) = a_chunk a" and "unat (raid_disks (a_superblock a)) = length (a_slots a)"
    and "length (a_slots a) \<le> 1920" and "0 < length (a_slots a)"
    and "array_shape_of (a_superblock a) (a_slots a) = Ok (a_size a, a_zones a, a_raid10 a)"
  using assms unfolding md_wf_def Let_def by metis+

section \<open>RAID10 arrays\<close>

lemma raid10_place_slot: "d > 0 \<Longrightarrow> fst (raid10_place g d c i k) < d"
  by (simp add: raid10_place_def Let_def)

lemma raid10_slots_periodic: "fst (raid10_place g d c i k) = fst (raid10_place g d (c mod d) i k)"
proof -
  have "(c * r_near g + i + k * r_near g) mod d = (c mod d * r_near g + i + k * r_near g) mod d"
    using mod_add_left_eq [of "c * r_near g" d "i + k * r_near g"] mod_add_left_eq [of "c mod d * r_near g" d "i + k * r_near g"]
    by (simp add: mod_mult_left_eq add.assoc)
  then show ?thesis by (simp add: raid10_place_def Let_def)
qed

lemma raid10_row_bound:
  assumes "raid10_ok g d" and "c < r_stride g * d div r_near g" and "(s, row) \<in> set (raid10_copies g d c)"
  shows "s < d" and "row < r_stride g * r_far g"
proof -
  from assms(3) obtain i k where ik: "i < r_near g" "k < r_far g" "(s, row) = raid10_place g d c i k"
    by (auto simp: set_raid10_copies)
  have near: "0 < r_near g" "0 < d" using assms(1) by (auto simp: raid10_ok_def intro: gr0I)
  then show "s < d" using ik(3) raid10_place_slot by (metis fst_conv)
  have "(c + 1) * r_near g \<le> r_stride g * d div r_near g * r_near g" using assms(2) by (intro mult_right_mono) simp_all
  then have "c * r_near g + i < r_stride g * d" using ik(1) div_times_less_eq_dividend [of "r_stride g * d" "r_near g"] by (simp del: div_times_less_eq_dividend)
  then have r: "(c * r_near g + i) div d < r_stride g" by (simp add: less_mult_imp_div_less)
  have 1: "(c * r_near g + i) div d * r_far g + k < r_stride g * r_far g"
  proof -
    have "((c * r_near g + i) div d + 1) * r_far g \<le> r_stride g * r_far g" using r by (intro mult_right_mono) simp_all
    then show ?thesis using ik(2) by simp
  qed
  have 2: "(c * r_near g + i) div d + k * r_stride g < r_stride g * r_far g"
  proof -
    have "(k + 1) * r_stride g \<le> r_far g * r_stride g" using ik(2) by (intro mult_right_mono) simp_all
    then show ?thesis using r by (simp add: mult.commute)
  qed
  show "row < r_stride g * r_far g" using ik(3) 1 2 by (auto simp: raid10_place_def Let_def split: if_splits)
qed

lemma check_copies_ok:
  "check_copies g d slots cs = Ok () \<longleftrightarrow> (\<forall>c \<in> set cs. \<exists>(s, _) \<in> set (raid10_copies g d c). slots ! s \<noteq> None)"
  by (induction cs) (auto simp: Let_def list_all_iff)

lemma raid10_survives:
  assumes "check_copies g d slots [0..<d] = Ok ()" and "0 < d"
  shows "\<exists>(s, _) \<in> set (raid10_copies g d c). slots ! s \<noteq> None"
proof -
  have "\<exists>(s, _) \<in> set (raid10_copies g d (c mod d)). slots ! s \<noteq> None"
    using assms by (auto simp: check_copies_ok)
  then obtain s r where s: "(s, r) \<in> set (raid10_copies g d (c mod d))" "slots ! s \<noteq> None" by auto
  then obtain i k where ik: "i < r_near g" "k < r_far g" "(s, r) = raid10_place g d (c mod d) i k"
    by (auto simp: set_raid10_copies)
  then have "fst (raid10_place g d c i k) = s" using raid10_slots_periodic [of g d c i k] by (metis fst_conv)
  then obtain r' where "raid10_place g d c i k = (s, r')" by (metis prod.collapse)
  then have "(s, r') \<in> set (raid10_copies g d c)" using ik(1,2) unfolding set_raid10_copies by metis
  then show ?thesis using s(2) by blast
qed

text \<open>The first copy that can be read is returned, whatever the ones before it did.\<close>

lemma try_copies_ok:
  assumes "\<forall>(s, row) \<in> set cs. case member s (of_nat row * chunk + within) buf of Inr (Some b) \<Rightarrow> b = X | _ \<Rightarrow> True"
    and "\<exists>(s, row) \<in> set cs. member s (of_nat row * chunk + within) buf = Ok (Some X)"
  shows "try_copies member chunk within buf failed cs = Ok X"
  using assms by (induction member chunk within buf failed cs rule: try_copies.induct) (auto split: sum.splits option.splits)

lemma raid10_geometry_simps:
  assumes "drop_bit 8 layout AND 0xff \<noteq> (0 :: u32)"
  shows "r_near (raid10_geometry layout dc) = unat (layout AND 0xff)"
    and "r_far (raid10_geometry layout dc) = unat (drop_bit 8 layout AND 0xff)"
  by (simp_all add: raid10_geometry_def Let_def)

lemma raid10_shape:
  assumes "md_wf rd a" and "a_level a = LEVEL_RAID10" and "unat (component_size (a_superblock a)) < 2 ^ 62"
  obtains geo where "a_raid10 a = Some geo" and "raid10_ok geo (length (a_slots a))" and "0 < unat (a_chunk a)"
    and "check_copies geo (length (a_slots a)) (a_slots a) [0..<length (a_slots a)] = Ok ()"
    and "unat (a_size a) = r_stride geo * length (a_slots a) div r_near geo * unat (a_chunk a)"
    and "r_stride geo * r_far geo * unat (a_chunk a) \<le> unat (component_size (a_superblock a))"
proof -
  let ?n = "length (a_slots a)" and ?d = "ucast (raid_disks (a_superblock a)) :: u64"
  let ?near = "a_layout a AND 0xff" and ?far = "drop_bit 8 (a_layout a) AND 0xff"
  let ?dc = "component_size (a_superblock a) div a_chunk a"
  let ?geo = "raid10_geometry (a_layout a) ?dc"
  note wf = md_wf_lead [OF assms(1)]
  have sh: "shape_raid10 (a_superblock a) (a_slots a) = Ok (a_size a, a_zones a, a_raid10 a)"
    using wf(1,7) assms(2) by (simp add: array_shape_of_def)
  have un: "unat ?d = ?n" using wf(4,5) by (simp add: unat_ucast)
  have "unat (w AND 0xff) \<le> 255" for w :: u32
    using word_and_le1 [of w "0xff"] by (simp add: word_le_nat_alt)
  then have le: "unat ?near \<le> 255" "unat ?far \<le> 255" by blast+
  then have nf: "unat (ucast ?near :: u64) = unat ?near" "unat (ucast ?far :: u64) = unat ?far" by (simp_all add: unat_ucast)
  have c: "a_chunk a \<noteq> 0" "a_chunk a mod 512 = 0"
    and z: "ucast ?near \<noteq> (0 :: u64)" "ucast ?far \<noteq> (0 :: u64)" "\<not> ucast ?near * ucast ?far > ?d"
    and cc: "check_copies ?geo ?n (a_slots a) [0..<?n] = Ok ()"
    and sz: "checked_mul (?dc div ucast ?far * ?d div ucast ?near) (a_chunk a) = Some (a_size a)"
    and geo: "a_raid10 a = Some ?geo"
    using sh wf(2,3) un by (auto simp: shape_raid10_def Let_def needs_chunk_def split: if_splits)
  have near: "0 < unat ?near" "0 < unat ?far" using z nf by (metis gr0I unat_eq_zero)+
  have "unat ?near * unat ?far \<le> 255 * 255" using le by (intro mult_mono) simp_all
  then have "unat (ucast ?near * ucast ?far :: u64) = unat ?near * unat ?far" using nf by (simp add: unat_word_ariths(2))
  then have "unat ?near * unat ?far \<le> ?n" using z(3) un by (simp add: word_less_nat_alt)
  then have ok: "raid10_ok ?geo ?n" using near by (simp add: raid10_ok_def raid10_geometry_def Let_def)
  have ch: "512 \<le> unat (a_chunk a)"
  proof -
    have "unat (a_chunk a) mod 512 = 0" using arg_cong [OF c(2), of unat] by (simp add: unat_mod_distrib)
    then show ?thesis using c(1) by (auto simp: mod_eq_0_iff_dvd unat_gt_0 intro!: dvd_imp_le)
  qed
  have udc: "unat (?dc div ucast ?far) = r_stride ?geo"
    by (simp add: raid10_geometry_def Let_def unat_div_distrib nf)
  have "unat ?dc \<le> unat (component_size (a_superblock a)) div 512"
    using ch by (simp add: unat_div_distrib div_le_mono2)
  then have dc: "unat ?dc < 2 ^ 53" using assms(3) by simp
  have st: "r_stride ?geo \<le> unat ?dc" unfolding udc [symmetric] by (simp add: unat_div_distrib div_le_dividend)
  have "r_stride ?geo * ?n \<le> 2 ^ 53 * 1920" using dc st wf(5) by (intro mult_mono) simp_all
  then have um: "unat (?dc div ucast ?far * ?d) = r_stride ?geo * ?n" using un udc by (simp add: unat_word_ariths(2))
  have "unat (a_size a) = r_stride ?geo * ?n div r_near ?geo * unat (a_chunk a)"
    using sz by (simp add: checked_mul_eq_Some unat_div_distrib um nf raid10_geometry_def Let_def)
  moreover have "r_stride ?geo * r_far ?geo \<le> unat (component_size (a_superblock a)) div unat (a_chunk a)"
    by (simp add: raid10_geometry_def Let_def unat_div_distrib)
  then have "r_stride ?geo * r_far ?geo * unat (a_chunk a) \<le> unat (component_size (a_superblock a))"
    by (metis div_times_less_eq_dividend mult_le_mono1 order_trans)
  ultimately show thesis using that [OF geo ok _ cc] ch by simp
qed


text \<open>The array's byte at a position is the one its primary copy has; a mirrored image has it on every copy.\<close>

definition raid10_byte :: "'d md_array \<Rightarrow> (nat \<Rightarrow> nat \<Rightarrow> u8) \<Rightarrow> nat \<Rightarrow> u8" where
  "raid10_byte a img pos =
     (case a_raid10 a of
        None \<Rightarrow> 0
      | Some geo \<Rightarrow>
          let chunk = unat (a_chunk a); (slot, row) = raid10_primary geo (length (a_slots a)) (pos div chunk)
          in img slot (row * chunk + pos mod chunk))"

definition raid10_mirrored :: "'d md_array \<Rightarrow> (nat \<Rightarrow> nat \<Rightarrow> u8) \<Rightarrow> bool" where
  "raid10_mirrored a img \<longleftrightarrow>
     (case a_raid10 a of
        None \<Rightarrow> False
      | Some geo \<Rightarrow> let chunk = unat (a_chunk a) in
          \<forall>pos < unat (a_size a). \<forall>(s, row) \<in> set (raid10_copies geo (length (a_slots a)) (pos div chunk)).
            img s (row * chunk + pos mod chunk) = raid10_byte a img pos)"

context block_reader
begin

lemma raid10_piece:
  assumes wf: "md_wf rd a" and lv: "a_level a = LEVEL_RAID10" and small: "unat (component_size (a_superblock a)) < 2 ^ 62"
    and inv: "\<forall>m. Some m \<in> set (a_slots a) \<longrightarrow> invar (m_dev m)" and img: "image_of contents a (unat (component_size (a_superblock a))) img"
    and mir: "raid10_mirrored a img"
    and buf: "buf \<noteq> []" "unat pos + length buf \<le> unat (a_size a)"
  shows "\<exists>k. 0 < k \<and> k \<le> length buf \<and> chunk_piece rd a pos buf = Ok (map (raid10_byte a img) [unat pos..<unat pos + k])"
proof -
  let ?n = "length (a_slots a)" and ?chunk = "unat (a_chunk a)" and ?span = "unat (component_size (a_superblock a))"
  obtain geo where geo: "a_raid10 a = Some geo" "raid10_ok geo ?n" "0 < ?chunk"
    and cc: "check_copies geo ?n (a_slots a) [0..<?n] = Ok ()"
    and sz: "unat (a_size a) = r_stride geo * ?n div r_near geo * ?chunk"
    and rows: "r_stride geo * r_far geo * ?chunk \<le> ?span"
    using raid10_shape [OF wf lv small] by blast
  let ?c = "unat pos div ?chunk" and ?w = "unat pos mod ?chunk"
  let ?cs = "raid10_copies geo ?n ?c"
  define len where "len = min (?chunk - ?w) (length buf)"
  have ck: "a_chunk a \<noteq> 0" using geo(3) by auto
  have w: "?w < ?chunk" using geo(3) by simp
  have len: "0 < len" "len \<le> length buf" "?w + len \<le> ?chunk" using w buf by (auto simp: len_def)
  have "unat pos < unat (a_size a)" using buf by (cases buf) simp_all
  then have c: "?c < r_stride geo * ?n div r_near geo" unfolding sz by (simp add: less_mult_imp_div_less)
  let ?X = "map (raid10_byte a img) [unat pos..<unat pos + len]"
  let ?buf = "take (min (unat (a_chunk a - pos mod a_chunk a)) (length buf)) buf"
  have lt: "length ?buf = len" by (simp add: len_def unat_within [OF ck])
  have rd: "read_member rd a s (of_nat row * a_chunk a + pos mod a_chunk a) ?buf =
      Ok (if a_slots a ! s = None then None else Some ?X)" if "(s, row) \<in> set ?cs" for s row
  proof -
    note b = raid10_row_bound [OF geo(2) c that]
    have "(row + 1) * ?chunk \<le> r_stride geo * r_far geo * ?chunk" using b(2) by (intro mult_right_mono) simp_all
    then have fit: "row * ?chunk + ?w + len \<le> ?span" using len(3) rows by simp
    then have ub: "unat (of_nat row * a_chunk a + pos mod a_chunk a) = row * ?chunk + ?w"
      using unat_row_offset [of row "a_chunk a" "pos mod a_chunk a"] small by (simp add: unat_mod_distrib)
    have "img s (row * ?chunk + ?w + t) = raid10_byte a img (unat pos + t)" if "t < len" for t
      using mir geo(1) \<open>(s, row) \<in> set ?cs\<close> same_chunk [OF that len(3)] that buf(2) len(2)
      by (auto simp: raid10_mirrored_def Let_def add.assoc dest!: spec [of _ "unat pos + t"])
    then have x: "map (img s) [row * ?chunk + ?w..<row * ?chunk + ?w + len] = ?X" by (intro nth_equalityI) simp_all
    have ms: "member_span (a_level a) (a_size a) (component_size (a_superblock a)) = component_size (a_superblock a)"
      using lv by (simp add: member_span_def)
    show ?thesis
      using read_member_image [where img = img and a = a and slot = s and span = ?span and off = "of_nat row * a_chunk a + pos mod a_chunk a" and buf = ?buf]
        image_ofD [OF img b(1)] members_on_devices [OF wf inv b(1)] ub fit lt ms x by auto
  qed
  obtain s row where s: "(s, row) \<in> set ?cs" "a_slots a ! s \<noteq> None"
    using raid10_survives [OF cc] md_wf_lead(6) [OF wf] by blast
  have "try_copies (read_member rd a) (a_chunk a) (pos mod a_chunk a) ?buf None ?cs = Ok ?X"
  proof (rule try_copies_ok)
    show "\<exists>(s, row) \<in> set ?cs. read_member rd a s (of_nat row * a_chunk a + pos mod a_chunk a) ?buf = Ok (Some ?X)"
      using rd [OF s(1)] s by (intro bexI [of _ "(s, row)"]) simp_all
  qed (use rd in \<open>auto split: if_splits\<close>)
  moreover have "raid10_primary geo ?n ?c # drop 1 ?cs = ?cs" using hd_raid10_copies [OF geo(2), of ?c] by (metis One_nat_def drop_Suc drop0)
  ultimately have "chunk_piece rd a pos buf = Ok ?X"
    using geo(1) md_wf_lead(5) [OF wf]
    by (simp add: chunk_piece_def Let_def read_chunk_def striping_of_def unat_div_distrib unat_of_nat)
  then show ?thesis using len by blast
qed

lemma raid10_read:
  assumes "md_wf rd a" and "\<forall>m. Some m \<in> set (a_slots a) \<longrightarrow> invar (m_dev m)"
    and lv: "a_level a = LEVEL_RAID10" and "unat (component_size (a_superblock a)) < 2 ^ 62"
    and "image_of contents a (unat (component_size (a_superblock a))) img" and "raid10_mirrored a img"
    and fit: "unat pos + length buf \<le> unat (a_size a)"
  shows "md_read_at rd a pos buf = Ok (map (raid10_byte a img) [unat pos..<unat pos + length buf])"
proof -
  have "read_pieces (chunk_piece rd a) pos buf = Ok (map (raid10_byte a img) [unat pos..<unat pos + length buf])"
    using raid10_piece [OF assms(1,3,4,2,5,6)] fit unat_lt [of "a_size a"]
    by (intro read_pieces_ok [where asize = "unat (a_size a)"]) simp_all
  then show ?thesis using lv area_fits_buf [OF fit] by (simp add: md_read_at_def Let_def)
qed

end

text \<open>
  C10: A RAID10 array reads as its primary copies, and missing members do not change what it
  returns. Assembly looks at the copies of the first chunks only, one per member; that is
  enough for every chunk of the array to have a copy left, so a read anywhere within the
  array returns the array's bytes. The member size is taken to be below 4 EiB, where the
  array's size is computed without wrapping.
\<close>

theorem md_raid10_read:
  assumes "block_reader rd contents invar" and "md_wf rd a" and "\<forall>m. Some m \<in> set (a_slots a) \<longrightarrow> invar (m_dev m)"
    and "a_level a = LEVEL_RAID10" and "unat (component_size (a_superblock a)) < 2 ^ 62"
    and "image_of contents a (unat (component_size (a_superblock a))) img" and "raid10_mirrored a img"
    and "unat pos + length buf \<le> unat (a_size a)"
  shows "md_read_at rd a pos buf = Ok (map (raid10_byte a img) [unat pos..<unat pos + length buf])"
  using block_reader.raid10_read [OF assms] .

text \<open>Two RAID10 members with two near copies, the first of them lost.\<close>

definition raid10_half :: "u8 list md_array" where
  "raid10_half = \<lparr>a_slots = [None, Some \<lparr>m_dev = replicate 512 3, m_data_offset = 0, m_data_size = 512\<rparr>],
     a_level = 10, a_layout = 0x102, a_chunk = 512, a_size = 512, a_zones = [],
     a_raid10 = Some \<lparr>r_near = 2, r_far = 1, r_offset = False, r_stride = 1\<rparr>,
     a_superblock = raid5_lead\<lparr>sb_level := 10, sb_layout := 0x102, raid_disks := 2\<rparr>\<rparr>"

lemma raid10_half_wf: "md_wf memdev raid10_half"
proof -
  have 1: "raid10_copies \<lparr>r_near = 2, r_far = 1, r_offset = False, r_stride = 1\<rparr> 2 c = [(0, c), (1, c)]" for c
    by (simp add: raid10_copies_def upt_rec Let_def)
  have 2: "raid10_geometry 0x102 1 = \<lparr>r_near = 2, r_far = 1, r_offset = False, r_stride = 1\<rparr>"
    by (simp add: raid10_geometry_def Let_def drop_bit_eq_div)
  have 3: "drop_bit 8 (0x102 :: u32) AND 255 = 1" by (simp add: drop_bit_eq_div)
  have 4: "[0..<2] = [0, 1 :: nat]" by (simp add: upt_rec)
  have "check_copies \<lparr>r_near = 2, r_far = 1, r_offset = False, r_stride = 1\<rparr> 2 (a_slots raid10_half) [0..<2] = Ok ()"
    unfolding 4 by (simp add: 1 raid10_half_def Let_def del: One_nat_def)
  then have "shape_raid10 (a_superblock raid10_half) (a_slots raid10_half) =
      Ok (512, [], Some \<lparr>r_near = 2, r_far = 1, r_offset = False, r_stride = 1\<rparr>)"
    unfolding shape_raid10_def using 2 3 by (simp add: raid10_half_def raid5_lead_def needs_chunk_def Let_def checked_mul_def)
  then show ?thesis
    by (auto simp: md_wf_def Let_def array_shape_of_def raid10_half_def raid5_lead_def member_span_def)
qed

theorem md_raid10_read_witness:
  "md_read_at memdev raid10_half 100 (replicate 2 0) = Ok [3, 3]"
proof -
  let ?img = "\<lambda>(slot :: nat) (off :: nat). 3 :: u8"
  have "md_read_at memdev raid10_half 100 (replicate 2 0) =
      Ok (map (raid10_byte raid10_half ?img) [unat (100 :: u64)..<unat (100 :: u64) + length (replicate 2 (0 :: u8))])"
  proof (rule md_raid10_read [OF memdev.block_reader_axioms raid10_half_wf])
    show "image_of (\<lambda>b. b) raid10_half (unat (component_size (a_superblock raid10_half))) ?img"
      by (auto simp: image_of_def raid10_half_def raid5_lead_def less_Suc_eq)
    show "raid10_mirrored raid10_half ?img"
      by (simp add: raid10_mirrored_def raid10_byte_def raid10_half_def Let_def split: prod.splits)
  qed (auto simp: raid10_half_def raid5_lead_def memdev_invar_def)
  then show ?thesis by (simp add: upt_rec raid10_byte_def raid10_half_def Let_def split: prod.splits)
qed

section \<open>RAID1 arrays\<close>

lemma try_mirrors_ok:
  assumes "\<forall>m \<in> set ms. read_at rd (m_dev m) (m_data_offset m + off) n \<in> insert (Ok X) (range Err)"
    and "\<exists>m \<in> set ms. read_at rd (m_dev m) (m_data_offset m + off) n = Ok X"
  shows "try_mirrors rd off n failed ms = Ok X"
  using assms by (induction ms arbitrary: failed) (auto split: sum.splits)

lemma raid1_read:
  assumes "a_level a = LEVEL_RAID1" and "unat pos + length buf \<le> unat (a_size a)"
    and "\<forall>m. Some m \<in> set (a_slots a) \<longrightarrow>
      read_at rd (m_dev m) (m_data_offset m + pos) (length buf) \<in> insert (Ok X) (range Err)"
    and "Some m \<in> set (a_slots a)" and "read_at rd (m_dev m) (m_data_offset m + pos) (length buf) = Ok X"
  shows "md_read_at rd a pos buf = Ok X"
proof -
  have "try_mirrors rd pos (length buf) None (List.map_filter id (a_slots a)) = Ok X"
    by (rule try_mirrors_ok) (use assms in \<open>auto simp: set_map_filter_id\<close>)
  then show ?thesis using assms(1) area_fits_buf [OF assms(2)] by (simp add: md_read_at_def Let_def read_raid1_def)
qed

text \<open>
  C32: A RAID1 array survives members that cannot be read. When every present member returns
  either the same bytes or an error for a range within the array, and one of them returns
  the bytes, the array returns them, whatever errors the members before it gave.
\<close>

theorem md_raid1_read:
  assumes "a_level a = LEVEL_RAID1" and "unat pos + length buf \<le> unat (a_size a)"
    and "\<forall>m. Some m \<in> set (a_slots a) \<longrightarrow>
      read_at rd (m_dev m) (m_data_offset m + pos) (length buf) \<in> insert (Ok X) (range Err)"
    and "Some m \<in> set (a_slots a)" and "read_at rd (m_dev m) (m_data_offset m + pos) (length buf) = Ok X"
  shows "md_read_at rd a pos buf = Ok X"
  using assms by (rule raid1_read)

definition raid1_worn :: "u8 list md_array" where
  "raid1_worn = \<lparr>a_slots = [Some \<lparr>m_dev = [], m_data_offset = 0, m_data_size = 4\<rparr>,
       Some \<lparr>m_dev = [0, 5, 6, 7, 8], m_data_offset = 1, m_data_size = 4\<rparr>],
     a_level = 1, a_layout = 0, a_chunk = 0, a_size = 4, a_zones = [], a_raid10 = None, a_superblock = raid5_lead\<rparr>"

theorem md_raid1_read_witness: "md_read_at memdev raid1_worn 1 [0, 0] = Ok [6, 7]"
  by (rule md_raid1_read [where m = "\<lparr>m_dev = [0, 5, 6, 7, 8], m_data_offset = 1, m_data_size = 4\<rparr>"])
    (auto simp: raid1_worn_def memdev_read_def slice_of_def)

text \<open>
  A read that is not within the array is refused with the offset, the length and the
  array's size, at every level and without touching a member.
\<close>

theorem md_read_out_of_bounds:
  assumes "unat (a_size a) < unat pos + length buf" and "length buf < 2 ^ 64"
  shows "md_read_at rd a pos buf = Err (OutOfBounds pos (of_nat (length buf)) (md_size_bytes a))"
  using assms by (simp add: md_read_at_def area_fits_iff unat_of_nat Let_def md_size_bytes_def)

theorem md_read_out_of_bounds_witness:
  "md_read_at memdev raid1_worn 3 [0, 0] = Err (OutOfBounds 3 2 4)"
  using md_read_out_of_bounds [of raid1_worn 3 "[0, 0]" memdev] by (simp add: raid1_worn_def md_size_bytes_def)


section \<open>Which members are used\<close>

lemma place_members_keeps:
  assumes "place_members newest n slots found = Ok slots'" and "j < length slots" and "slots ! j = Some m"
  shows "slots' ! j = Some m"
  using assms
proof (induction found arbitrary: slots)
  case (Cons x found)
  obtain i d sb where x: "x = (i, d, sb)" by (cases x) auto
  then obtain slots'' where "place_members newest n slots'' found = Ok slots'"
    and s: "slots'' = slots \<or> (\<exists>k. slots'' = slots[k := Some (member_of d sb)] \<and> slots ! k = None)"
    using Cons.prems(1) place_members_Cons by metis
  from s Cons.prems(2,3) have "j < length slots''" "slots'' ! j = Some m" by (auto, metis nth_list_update_neq option.distinct(1))
  then show ?case using Cons.IH \<open>place_members newest n slots'' found = Ok slots'\<close> by blast
qed simp

lemma place_members_role:
  assumes "place_members newest n slots found = Ok slots'" and "j < length slots" and "slots' ! j = Some m" and "slots ! j = None"
    and "unat n = length slots"
  shows "\<exists>i d sb. (i, d, sb) \<in> set found \<and> m = member_of d sb \<and> sb_role sb = Active (of_nat j) \<and>
    newest \<le> sb_events sb \<and> (feature_map sb AND FEATURE_RECOVERY_OFFSET) = 0"
  using assms
proof (induction found arbitrary: slots)
  case (Cons x found)
  obtain i d sb where x: "x = (i, d, sb)" by (cases x) auto
  let ?P = "\<lambda>slots. place_members newest n slots found = Ok slots'"
  from Cons.prems(1) x consider "?P slots"
    | slot where "sb_role sb = Active slot" "slot < n" "newest \<le> sb_events sb" "(feature_map sb AND FEATURE_RECOVERY_OFFSET) = 0"
        "?P (slots[unat slot := Some (member_of d sb)])"
    by (auto simp: member_of_def not_less not_le split: md_role.splits if_splits)
  then show ?case
  proof cases
    case 1
    show ?thesis using Cons.IH [OF 1 Cons.prems(2-5)] x by auto
  next
    case (2 slot)
    show ?thesis
    proof (cases "j = unat slot")
      case True
      then have "(slots[unat slot := Some (member_of d sb)]) ! j = Some (member_of d sb)" using Cons.prems(2) by simp
      then have "m = member_of d sb" using place_members_keeps [OF 2(5), of j] Cons.prems(2,3) by simp
      moreover have "slot = of_nat j" using True by simp
      ultimately show ?thesis using 2 x by auto
    next
      case False
      then show ?thesis using Cons.IH [OF 2(5)] Cons.prems x by auto
    qed
  qed
qed simp


lemma lead_of_newest:
  assumes "found \<noteq> []"
  shows "\<exists>i d. (i, d, lead_of found) \<in> set found" and "(i, d, sb) \<in> set found \<Longrightarrow> sb_events sb \<le> sb_events (lead_of found)"
proof -
  let ?es = "map (\<lambda>(_, _, sb). sb_events sb) found" and ?new = "Max (set (map (\<lambda>(_, _, sb). sb_events sb) found))"
  have "?new \<in> set ?es" using assms by (intro Max_in) auto
  then obtain y where y: "List.find (\<lambda>(_, _, sb). sb_events sb = ?new) found = Some y"
    by (cases "List.find (\<lambda>(_, _, sb). sb_events sb = ?new) found") (fastforce simp: find_None_iff)+
  then have m: "y \<in> set found" "sb_events (snd (snd y)) = ?new" by (auto simp: find_Some_iff in_set_conv_nth)
  have l: "lead_of found = snd (snd y)" using y by (simp add: lead_of_def Let_def)
  then show "\<exists>i d. (i, d, lead_of found) \<in> set found" using m(1) by (metis prod.collapse)
  assume "(i, d, sb) \<in> set found"
  then have "sb_events sb \<in> set ?es" by force
  then show "sb_events sb \<le> sb_events (lead_of found)" unfolding l m(2) by (intro Max_ge) simp_all
qed

lemma assemble_members:
  assumes "assemble rd devices = Ok a" and "slot < length (a_slots a)" and "a_slots a ! slot = Some m"
  shows "\<exists>member sb. m_dev m \<in> set devices \<and> read_superblock_of rd (m_dev m) member = Ok (Some sb) \<and>
    sb_role sb = Active (of_nat slot) \<and> array_uuid sb = array_uuid (a_superblock a) \<and>
    sb_events sb = sb_events (a_superblock a) \<and> (feature_map sb AND FEATURE_RECOVERY_OFFSET) = 0"
proof -
  let ?lead = "a_superblock a"
  from assms(1) obtain found where f: "member_superblocks rd devices = Ok found" "devices \<noteq> []"
    and u': "\<forall>i d sb. List.find (\<lambda>(_, _, sb). array_uuid sb \<noteq> array_uuid (snd (snd (hd found)))) found \<noteq> Some (i, d, sb)"
    and p: "place_members (sb_events ?lead) (raid_disks ?lead) (replicate (unat (raid_disks ?lead)) None) found = Ok (a_slots a)"
    and l: "?lead = lead_of found"
    by (auto simp: assemble_def Let_def split: if_splits option.splits)
  from u' have u: "List.find (\<lambda>(_, _, sb). array_uuid sb \<noteq> array_uuid (snd (snd (hd found)))) found = None"
    by (metis option.exhaust prod_cases3)
  have ne: "found \<noteq> []" using traverse_length [OF f(1) [unfolded member_superblocks_def]] f(2) by auto
  have len: "slot < unat (raid_disks ?lead)" using place_members_slots(1) [OF p] assms(2) by simp
  obtain i d sb where s: "(i, d, sb) \<in> set found" "m = member_of d sb" "sb_role sb = Active (of_nat slot)"
    "sb_events ?lead \<le> sb_events sb" "(feature_map sb AND FEATURE_RECOVERY_OFFSET) = 0"
    using place_members_role [OF p _ assms(3)] len by auto
  obtain i' d' where ld: "(i', d', ?lead) \<in> set found" using lead_of_newest(1) [OF ne] l by metis
  have "array_uuid sb = array_uuid ?lead" using u s(1) ld by (fastforce simp: find_None_iff)
  moreover have "sb_events sb = sb_events ?lead" using lead_of_newest(2) [OF ne s(1)] s(4) l by simp
  ultimately show ?thesis using s member_superblocks_found [OF f(1) s(1)] by (auto simp: member_of_def)
qed

lemma v0_assembles: "\<exists>a. assemble memdev [v0_member] = Ok a \<and> a_size a = 65536"
proof -
  obtain ev u where r: "read_superblock_of memdev v0_member 0 = Ok (Some (v0_sb\<lparr>sb_events := ev, array_uuid := u\<rparr>))"
    using v0_member_superblock by blast
  let ?sb = "v0_sb\<lparr>sb_events := ev, array_uuid := u\<rparr>"
  have f: "member_superblocks memdev [v0_member] = Ok [(0, v0_member, ?sb)]" using r by (simp add: member_superblocks_def)
  have l: "lead_of [(0, v0_member, ?sb)] = ?sb" by (simp add: lead_of_def)
  have sh: "array_shape_of ?sb [Some \<lparr>m_dev = v0_member, m_data_offset = 0, m_data_size = 65536\<rparr>] = Ok (65536, [], None)"
    by (simp add: array_shape_of_def v0_sb_def need_members_def present_count_def)
  have p: "place_members ev 1 [None] [(0, v0_member, ?sb)] = Ok [Some \<lparr>m_dev = v0_member, m_data_offset = 0, m_data_size = 65536\<rparr>]"
    by (simp add: v0_sb_def)
  have x: "sb_events ?sb = ev" "raid_disks ?sb = 1" "feature_map ?sb = 0" "sb_level ?sb = 1" "component_size ?sb = 65536"
    by (simp_all add: v0_sb_def)
  show ?thesis
    using f l sh p x by (simp add: assemble_def Let_def member_span_def area_fits_def checked_add_def v0_member_slices(4) List.map_filter_simps)
qed

text \<open>
  C11: Assembly uses only members it may use, and what it builds is well formed. The member in
  a slot is one of the devices given, carries a superblock of the same array that gives it
  that very slot, has the newest event count of all, and is not being rebuilt. The level,
  layout, chunk size and slot count are the newest superblock's, the size and zones those
  its level gives, and every member's data area lies on its device.
\<close>

theorem md_assemble_sound:
  assumes "block_reader rd contents invar" and "\<forall>d \<in> set devices. invar d" and "assemble rd devices = Ok a"
  shows "md_wf rd a \<and> (\<forall>slot < length (a_slots a). \<forall>m. a_slots a ! slot = Some m \<longrightarrow>
    (\<exists>member sb. m_dev m \<in> set devices \<and> read_superblock_of rd (m_dev m) member = Ok (Some sb) \<and>
      sb_role sb = Active (of_nat slot) \<and> array_uuid sb = array_uuid (a_superblock a) \<and>
      sb_events sb = sb_events (a_superblock a) \<and> (feature_map sb AND FEATURE_RECOVERY_OFFSET) = 0))"
  using assemble_wf(1) [OF assms] assemble_members [OF assms(3)] by blast


theorem md_assemble_sound_witness:
  "\<exists>a. assemble memdev [v0_member] = Ok a \<and> md_wf memdev a \<and> a_size a = 65536"
proof -
  obtain a where a: "assemble memdev [v0_member] = Ok a" "a_size a = 65536" using v0_assembles by blast
  have "md_wf memdev a"
    using md_assemble_sound [OF memdev.block_reader_axioms _ a(1)] by (simp add: memdev_invar_def v0_member_slices(4))
  with a show ?thesis by blast
qed

end
