(* ===== verification/Md_Zoned.thy ===== *)
theory Md_Zoned
  imports Md_Read
begin

text \<open>
  Reads of RAID0 and linear \<open>md\<close> arrays. The zones of an assembled array follow one another
  without a gap from byte 0 to the array's size, so every position is in exactly one, and a
  read there stays within the members' data areas.
\<close>

section \<open>Zones in a row\<close>

fun zones_chain :: "nat \<Rightarrow> zone list \<Rightarrow> bool" where
  "zones_chain st [] \<longleftrightarrow> True"
| "zones_chain st (z # zs) \<longleftrightarrow> unat (z_start z) = st \<and> zones_chain (st + unat (z_len z)) zs"

definition zone_has :: "nat \<Rightarrow> zone \<Rightarrow> bool" where
  "zone_has pos z \<longleftrightarrow> unat (z_start z) \<le> pos \<and> pos < unat (z_start z) + unat (z_len z)"

definition zones_bytes :: "zone list \<Rightarrow> nat" where
  "zones_bytes zs = sum_list (map (\<lambda>z. unat (z_len z)) zs)"

lemma zones_bytes_simps [simp]: "zones_bytes [] = 0" "zones_bytes (z # zs) = unat (z_len z) + zones_bytes zs"
  by (simp_all add: zones_bytes_def)

lemma zones_chain_start: "zones_chain st zs \<Longrightarrow> z \<in> set zs \<Longrightarrow> st \<le> unat (z_start z) \<and> unat (z_start z) + unat (z_len z) \<le> st + zones_bytes zs"
proof (induction zs arbitrary: st)
  case (Cons y zs)
  then show ?case using Cons.IH [of "st + unat (z_len y)"] by fastforce
qed simp

lemma zones_chain_find:
  assumes "zones_chain st zs" and "st \<le> pos" and "pos < st + zones_bytes zs"
  shows "\<exists>z \<in> set zs. zone_has pos z \<and> (\<forall>q. zone_has q z \<longrightarrow> List.find (zone_has q) zs = Some z)"
  using assms
proof (induction zs arbitrary: st)
  case (Cons y zs)
  show ?case
  proof (cases "pos < st + unat (z_len y)")
    case True
    then show ?thesis using Cons.prems by (intro bexI [of _ y]) (auto simp: zone_has_def)
  next
    case False
    have ch: "zones_chain (st + unat (z_len y)) zs" using Cons.prems(1) by simp
    then obtain z where z: "z \<in> set zs" "zone_has pos z" "\<And>q. zone_has q z \<Longrightarrow> List.find (zone_has q) zs = Some z"
      using Cons.IH [of "st + unat (z_len y)"] Cons.prems False by auto
    have "\<not> zone_has q y" if "zone_has q z" for q
      using zones_chain_start [OF ch z(1)] that Cons.prems(1) by (auto simp: zone_has_def)
    then show ?thesis using z by (intro bexI [of _ z]) auto
  qed
qed simp

lemma find_cong: "(\<And>x. x \<in> set xs \<Longrightarrow> P x = Q x) \<Longrightarrow> List.find P xs = List.find Q xs"
  by (induction xs) auto

text \<open>The search the source makes, on words, is the search by numbers.\<close>

lemma find_zone_words:
  fixes pos :: u64
  assumes "zones_chain 0 zs" and "zones_bytes zs < 2 ^ 64"
  shows "List.find (\<lambda>z. pos \<ge> z_start z \<and> pos < z_start z + z_len z) zs = List.find (zone_has (unat pos)) zs"
proof (rule find_cong)
  fix z assume "z \<in> set zs"
  then have "unat (z_start z) + unat (z_len z) < 2 ^ 64" using zones_chain_start [OF assms(1)] assms(2) by fastforce
  then show "(pos \<ge> z_start z \<and> pos < z_start z + z_len z) = zone_has (unat pos) z"
    by (simp add: zone_has_def word_le_nat_alt word_less_nat_alt unat_plus_if')
qed

section \<open>The zones of an array\<close>

text \<open>
  What a zone of \<open>w\<close> bytes per member needs: its members are there and reach to its end, and at
  RAID0 it consists of whole chunks.
\<close>

definition zone_ok :: "'d md_array \<Rightarrow> zone \<Rightarrow> bool" where
  "zone_ok a z \<longleftrightarrow> z_slots z \<noteq> [] \<and>
     (\<exists>w. unat (z_len z) = w * length (z_slots z) \<and>
        (a_level a = LEVEL_LINEAR \<longrightarrow> length (z_slots z) = 1) \<and>
        (a_level a \<noteq> LEVEL_LINEAR \<longrightarrow> unat (a_chunk a) dvd w \<and> unat (a_chunk a) dvd unat (z_start z)) \<and>
        (\<forall>s \<in> set (z_slots z). s < length (a_slots a) \<and>
           (\<exists>m. a_slots a ! s = Some m \<and> unat (z_dev_start z) + w \<le> unat (m_data_size m))))"

lemma linear_zones_ok:
  assumes "linear_zones chunk slot start ms = Ok (zs, asize)"
  shows "zones_chain (unat start) zs" and "unat asize = unat start + zones_bytes zs"
    and "z \<in> set zs \<Longrightarrow> \<exists>i < length ms. z_slots z = [slot + i] \<and> z_dev_start z = 0 \<and> unat (z_len z) \<le> unat (m_data_size (ms ! i))"
proof -
  have "zones_chain (unat start) zs \<and> unat asize = unat start + zones_bytes zs \<and>
    (z \<in> set zs \<longrightarrow> (\<exists>i < length ms. z_slots z = [slot + i] \<and> z_dev_start z = 0 \<and> unat (z_len z) \<le> unat (m_data_size (ms ! i))))"
    using assms
  proof (induction ms arbitrary: slot start zs)
    case (Cons m ms)
    define len where "len = (if chunk = 0 then m_data_size m else m_data_size m div chunk * chunk)"
    from Cons.prems obtain nxt zs' where c: "checked_add start len = Some nxt" "linear_zones chunk (slot + 1) nxt ms = Ok (zs', asize)"
      and zs: "zs = \<lparr>z_start = start, z_len = len, z_dev_start = 0, z_slots = [slot]\<rparr> # zs'"
      by (auto simp: Let_def len_def)
    have u: "unat nxt = unat start + unat len" using c(1) by (simp add: checked_add_eq_Some)
    have "unat len \<le> unat (m_data_size m)"
      using div_times_less_eq_dividend [of "unat (m_data_size m)" "unat chunk"] le_less_trans [OF div_times_less_eq_dividend unat_lt [of "m_data_size m"]]
      by (auto simp: len_def unat_word_ariths(2) unat_div_distrib)
    then show ?case using Cons.IH [OF c(2)] u zs by (fastforce intro: exI [of _ "Suc i" for i])
  qed auto
  then show "zones_chain (unat start) zs" and "unat asize = unat start + zones_bytes zs"
    and "z \<in> set zs \<Longrightarrow> \<exists>i < length ms. z_slots z = [slot + i] \<and> z_dev_start z = 0 \<and> unat (z_len z) \<le> unat (m_data_size (ms ! i))"
    by auto
qed

lemma zones_ok_chain:
  assumes "zones_ok sizes st prev zs" and "\<forall>s \<in> set sizes. (chunk :: nat) dvd unat s" and "chunk dvd st" and "chunk dvd prev"
  shows "zones_chain st zs" and "z \<in> set zs \<Longrightarrow> z_slots z \<noteq> [] \<and> chunk dvd unat (z_start z) \<and>
    (\<exists>w. chunk dvd w \<and> unat (z_len z) = w * length (z_slots z) \<and>
      (\<forall>s \<in> set (z_slots z). s < length sizes \<and> unat (z_dev_start z) + w \<le> unat (sizes ! s)))"
proof -
  have "zones_chain st zs \<and> (z \<in> set zs \<longrightarrow> z_slots z \<noteq> [] \<and> chunk dvd unat (z_start z) \<and>
    (\<exists>w. chunk dvd w \<and> unat (z_len z) = w * length (z_slots z) \<and>
      (\<forall>s \<in> set (z_slots z). s < length sizes \<and> unat (z_dev_start z) + w \<le> unat (sizes ! s))))"
    using assms
  proof (induction zs arbitrary: st prev)
    case (Cons y zs)
    from Cons.prems(1) obtain w where w: "0 < w" "unat (z_start y) = st" "unat (z_dev_start y) = prev"
      "unat (z_len y) = w * length (z_slots y)"
      "z_slots y = filter (\<lambda>s. prev + w \<le> unat (sizes ! s)) [0..<length sizes]" "z_slots y \<noteq> []"
      "prev + w \<in> unat ` set sizes"
      "zones_ok sizes (st + unat (z_len y)) (prev + w) zs" unfolding zones_ok.simps by blast
    have cw: "chunk dvd w" using w(7) Cons.prems(2,4) by (metis dvd_add_right_iff imageE)
    show ?case
      using Cons.IH [OF w(8) Cons.prems(2)] w cw Cons.prems(3,4) by auto
  qed auto
  then show "zones_chain st zs" and "z \<in> set zs \<Longrightarrow> z_slots z \<noteq> [] \<and> chunk dvd unat (z_start z) \<and>
    (\<exists>w. chunk dvd w \<and> unat (z_len z) = w * length (z_slots z) \<and>
      (\<forall>s \<in> set (z_slots z). s < length sizes \<and> unat (z_dev_start z) + w \<le> unat (sizes ! s)))" by auto
qed


lemma all_present:
  assumes "\<not> of_nat (present_count slots) < (n :: u32)" and "unat n = length slots" and "length slots \<le> 1920"
  shows "slots = map Some (List.map_filter id slots)"
proof -
  have "present_count slots \<le> length slots" by (simp add: present_count_def)
  then have "present_count slots = length slots" using assms by (simp add: word_less_nat_alt unat_of_nat)
  note full = this
  have "\<forall>s \<in> set slots. s \<noteq> None"
  proof (intro ballI notI)
    fix s assume "s \<in> set slots" "s = None"
    then have "length (filter (\<lambda>s. s \<noteq> None) slots) < length slots" by (intro length_filter_less [of s]) simp_all
    then show False using full unfolding present_count_def by linarith
  qed
  then show ?thesis by (induction slots) (auto simp: List.map_filter_simps)
qed

lemma unat_round_down: "unat (x div c * c) = unat x div unat c * unat (c :: u64)"
  using le_less_trans [OF div_times_less_eq_dividend unat_lt [of x]] by (simp add: unat_word_ariths(2) unat_div_distrib)

lemma unat_sum_list: "sum_list (map unat xs) < 2 ^ 64 \<Longrightarrow> unat (sum_list xs :: u64) = sum_list (map unat xs)"
  by (induction xs) (simp_all add: unat_plus_if')

lemma members_in_slots:
  assumes "md_wf rd a" and "a_level a \<in> {LEVEL_RAID0, LEVEL_LINEAR}" and "s < length (List.map_filter id (a_slots a))"
  shows "s < length (a_slots a) \<and> a_slots a ! s = Some (List.map_filter id (a_slots a) ! s)"
proof -
  note wl = md_wf_lead [OF assms(1)]
  have "\<not> of_nat (present_count (a_slots a)) < raid_disks (a_superblock a)"
    using wl(1,7) assms(2) by (auto simp: array_shape_of_def shape_linear_def shape_raid0_def need_members_def Let_def split: if_splits)
  note all = all_present [OF this wl(4,5)]
  show ?thesis using assms(3) all by (metis length_map nth_map)
qed

lemma linear_shape:
  assumes wf: "md_wf rd a" and lv: "a_level a = LEVEL_LINEAR"
  shows "zones_chain 0 (a_zones a)" and "unat (a_size a) = zones_bytes (a_zones a)" and "z \<in> set (a_zones a) \<Longrightarrow> zone_ok a z"
proof -
  note wl = md_wf_lead [OF wf]
  let ?ms = "List.map_filter id (a_slots a)"
  have z: "linear_zones (a_chunk a) 0 0 ?ms = Ok (a_zones a, a_size a)"
    using wl(1,3,7) lv by (auto simp: array_shape_of_def shape_linear_def)
  show "zones_chain 0 (a_zones a)" "unat (a_size a) = zones_bytes (a_zones a)" using linear_zones_ok(1,2) [OF z] by simp_all
  assume "z \<in> set (a_zones a)"
  from linear_zones_ok(3) [OF z this] obtain i where i: "i < length ?ms" "z_slots z = [i]" "z_dev_start z = 0"
    "unat (z_len z) \<le> unat (m_data_size (?ms ! i))" by auto
  then show "zone_ok a z" using members_in_slots [OF wf _ i(1)] lv by (simp add: zone_ok_def)
qed

lemma raid0_shape:
  assumes wf: "md_wf rd a" and lv: "a_level a = LEVEL_RAID0"
    and small: "sum_list (map (\<lambda>m. unat (m_data_size m)) (List.map_filter id (a_slots a))) < 2 ^ 64"
  shows "0 < unat (a_chunk a)" and "zones_chain 0 (a_zones a)" and "unat (a_size a) = zones_bytes (a_zones a)"
    and "z \<in> set (a_zones a) \<Longrightarrow> zone_ok a z"
proof -
  note wl = md_wf_lead [OF wf]
  let ?ms = "List.map_filter id (a_slots a)"
  let ?sizes = "map (\<lambda>m. m_data_size m div a_chunk a * a_chunk a) ?ms"
  have sh: "a_chunk a \<noteq> 0" "a_zones a = raid0_zones ?sizes" "a_size a = sum_list (map z_len (a_zones a))"
    using wl(1,3,7) lv by (auto simp: array_shape_of_def shape_raid0_def needs_chunk_def Let_def split: if_splits)
  show "0 < unat (a_chunk a)" using sh(1) by (simp add: unat_gt_0)
  have le: "sum_list (map unat ?sizes) \<le> sum_list (map (\<lambda>m. unat (m_data_size m)) ?ms)"
    by (simp add: o_def unat_round_down) (intro sum_list_mono div_times_less_eq_dividend)
  then have zo: "zones_ok ?sizes 0 0 (a_zones a)" using raid0_zones_ok [of ?sizes] small sh(2) by simp
  have dv: "\<forall>s \<in> set ?sizes. unat (a_chunk a) dvd unat s" by (auto simp: unat_round_down)
  show "zones_chain 0 (a_zones a)" by (rule zones_ok_chain(1) [OF zo dv]) simp_all
  have "zones_bytes (a_zones a) = sum_list (map unat ?sizes)"
    using zones_ok_total [OF zo] by (simp add: zones_bytes_def left_over_def)
  then show "unat (a_size a) = zones_bytes (a_zones a)"
    using le small unat_sum_list [of "map z_len (a_zones a)"] by (simp add: sh(3) zones_bytes_def o_def)
  assume "z \<in> set (a_zones a)"
  from zones_ok_chain(2) [OF zo dv _ _ this] obtain w where w: "z_slots z \<noteq> []" "unat (a_chunk a) dvd unat (z_start z)"
    "unat (a_chunk a) dvd w" "unat (z_len z) = w * length (z_slots z)"
    "\<forall>s \<in> set (z_slots z). s < length ?ms \<and> unat (z_dev_start z) + w \<le> unat (?sizes ! s)" by auto
  have "s < length (a_slots a) \<and> (\<exists>m. a_slots a ! s = Some m \<and> unat (z_dev_start z) + w \<le> unat (m_data_size m))"
    if "s \<in> set (z_slots z)" for s
  proof -
    have s: "s < length ?ms" "unat (z_dev_start z) + w \<le> unat (m_data_size (?ms ! s)) div unat (a_chunk a) * unat (a_chunk a)"
      using w(5) that by (auto simp: unat_round_down)
    then show ?thesis using members_in_slots [OF wf _ s(1)] lv div_times_less_eq_dividend order_trans by blast
  qed
  then show "zone_ok a z" using w(1-4) lv by (auto simp: zone_ok_def)
qed

section \<open>Reading\<close>

text \<open>The array's byte at a position, by its zone.\<close>

definition zone_slot :: "'d md_array \<Rightarrow> zone \<Rightarrow> nat \<Rightarrow> nat" where
  "zone_slot a z pos =
     (if a_level a = LEVEL_LINEAR then z_slots z ! 0
      else let chunk = unat (a_chunk a);
               pick = (if a_layout a = RAID0_LAYOUT_ORIGINAL then pos div chunk else (pos - unat (z_start z)) div chunk)
           in z_slots z ! (pick mod length (z_slots z)))"

definition zone_off :: "'d md_array \<Rightarrow> zone \<Rightarrow> nat \<Rightarrow> nat" where
  "zone_off a z pos =
     (let within = pos - unat (z_start z); chunk = unat (a_chunk a) in
      if a_level a = LEVEL_LINEAR then unat (z_dev_start z) + within
      else unat (z_dev_start z) + within div chunk div length (z_slots z) * chunk + within mod chunk)"

definition zoned_byte :: "'d md_array \<Rightarrow> (nat \<Rightarrow> nat \<Rightarrow> u8) \<Rightarrow> nat \<Rightarrow> u8" where
  "zoned_byte a img pos =
     (case List.find (zone_has pos) (a_zones a) of
        Some z \<Rightarrow> img (zone_slot a z pos) (zone_off a z pos)
      | None \<Rightarrow> 0)"

definition area_image :: "('d \<Rightarrow> u8 list) \<Rightarrow> 'd md_array \<Rightarrow> (nat \<Rightarrow> nat \<Rightarrow> u8) \<Rightarrow> bool" where
  "area_image contents a img \<longleftrightarrow> (\<forall>slot < length (a_slots a). \<forall>m. a_slots a ! slot = Some m \<longrightarrow>
     (\<forall>off < unat (m_data_size m). contents (m_dev m) ! (unat (m_data_offset m) + off) = img slot off))"

text \<open>The bytes one piece may take: to the end of the zone, or of the chunk.\<close>

definition zone_room :: "'d md_array \<Rightarrow> zone \<Rightarrow> nat \<Rightarrow> nat" where
  "zone_room a z pos =
     (let within = pos - unat (z_start z) in
      if a_level a = LEVEL_LINEAR then unat (z_len z) - within
      else unat (a_chunk a) - within mod unat (a_chunk a))"

lemma raid0_row_fits:
  fixes within :: nat
  assumes "chunk dvd w" and "0 < k" and "within < w * k" and "within mod chunk + len \<le> chunk"
  shows "within div chunk div k * chunk + within mod chunk + len \<le> w" and "within + len \<le> w * k"
proof -
  from assms(1) obtain q where q: "w = q * chunk" by (metis dvdE mult.commute)
  have c: "0 < chunk" using assms(3) q by (intro gr0I) simp
  have "within < q * k * chunk" using assms(3) q by (simp add: mult.commute mult.left_commute)
  then have d: "within div chunk < q * k" by (simp add: less_mult_imp_div_less)
  then have "within div chunk div k < q" by (simp add: less_mult_imp_div_less)
  then have "(within div chunk div k + 1) * chunk \<le> q * chunk" by (intro mult_right_mono) simp_all
  then show "within div chunk div k * chunk + within mod chunk + len \<le> w" using assms(4) q by simp
  have "(within div chunk + 1) * chunk \<le> q * k * chunk" using d by (intro mult_right_mono) simp_all
  then have "within div chunk * chunk + chunk \<le> q * k * chunk" by simp
  then have "within + len \<le> q * k * chunk" using assms(4) div_mult_mod_eq [of within chunk] by linarith
  then show "within + len \<le> w * k" by (simp add: q mult.commute mult.left_commute)
qed


lemma zone_piece_steady:
  assumes z: "zone_ok a z" "zone_has pos z" and c: "a_level a \<noteq> LEVEL_LINEAR \<Longrightarrow> 0 < unat (a_chunk a)"
    and len: "len \<le> zone_room a z pos"
  shows "zone_slot a z pos < length (a_slots a)"
    and "\<exists>m. a_slots a ! zone_slot a z pos = Some m \<and> zone_off a z pos + len \<le> unat (m_data_size m)"
    and "t < len \<Longrightarrow> zone_has (pos + t) z \<and> zone_slot a z (pos + t) = zone_slot a z pos \<and> zone_off a z (pos + t) = zone_off a z pos + t"
proof -
  let ?st = "unat (z_start z)" and ?k = "length (z_slots z)" and ?chunk = "unat (a_chunk a)" and ?in = "pos - unat (z_start z)"
  have has: "?st \<le> pos" "?in < unat (z_len z)" using z(2) by (auto simp: zone_has_def)
  from z(1) obtain w where k: "0 < ?k" and w: "unat (z_len z) = w * ?k"
    and lin: "a_level a = LEVEL_LINEAR \<Longrightarrow> ?k = 1"
    and r0: "a_level a \<noteq> LEVEL_LINEAR \<Longrightarrow> ?chunk dvd w \<and> ?chunk dvd ?st"
    and sl: "\<And>s. s \<in> set (z_slots z) \<Longrightarrow> s < length (a_slots a) \<and>
        (\<exists>m. a_slots a ! s = Some m \<and> unat (z_dev_start z) + w \<le> unat (m_data_size m))"
    by (auto simp: zone_ok_def)
  have slot: "zone_slot a z pos \<in> set (z_slots z)" using k by (simp add: zone_slot_def Let_def)
  then show "zone_slot a z pos < length (a_slots a)" using sl by blast
  have lm: "?in mod ?chunk + len \<le> ?chunk" if "a_level a \<noteq> LEVEL_LINEAR"
    using len that mod_less_divisor [OF c [OF that], of ?in] by (simp add: zone_room_def Let_def)
  have fits: "zone_off a z pos + len \<le> unat (z_dev_start z) + w \<and> ?in + len \<le> w * ?k"
  proof (cases "a_level a = LEVEL_LINEAR")
    case True
    then show ?thesis using lin w len has(2) by (auto simp: zone_off_def zone_room_def Let_def)
  next
    case False
    then show ?thesis
      using lm [OF False] raid0_row_fits [of ?chunk w ?k ?in len] r0 [OF False] k has(2) w False by (simp add: zone_off_def Let_def)
  qed
  then show "\<exists>m. a_slots a ! zone_slot a z pos = Some m \<and> zone_off a z pos + len \<le> unat (m_data_size m)"
    using sl [OF slot] by fastforce
  assume t: "t < len"
  have "zone_has (pos + t) z" using has fits t w by (auto simp: zone_has_def)
  moreover have "zone_slot a z (pos + t) = zone_slot a z pos \<and> zone_off a z (pos + t) = zone_off a z pos + t"
  proof (cases "a_level a = LEVEL_LINEAR")
    case False
    note lm = lm [OF False]
    obtain q where q: "?st = ?chunk * q" using r0 [OF False] by (auto elim: dvdE)
    have "pos = ?in + ?chunk * q" using q has(1) by simp
    then have pm: "pos mod ?chunk = ?in mod ?chunk" by (metis mod_mult_self2)
    have sub: "pos + t - ?st = ?in + t" using has(1) by simp
    show ?thesis
      using False same_chunk [OF t lm] same_chunk [OF t, of pos ?chunk] lm pm sub
      by (simp add: zone_slot_def zone_off_def Let_def)
  qed (use has in \<open>simp add: zone_slot_def zone_off_def Let_def\<close>)
  ultimately show "zone_has (pos + t) z \<and> zone_slot a z (pos + t) = zone_slot a z pos \<and> zone_off a z (pos + t) = zone_off a z pos + t"
    by blast
qed


text \<open>The arithmetic of \<open>read_zoned\<close> on words is the one by numbers.\<close>

lemma read_zoned_at:
  assumes chain: "zones_chain 0 (a_zones a)" and b64: "zones_bytes (a_zones a) < 2 ^ 64"
    and find: "List.find (zone_has (unat pos)) (a_zones a) = Some z" and has: "zone_has (unat pos) z"
    and zok: "zone_ok a z" and ck: "a_level a \<noteq> LEVEL_LINEAR \<Longrightarrow> 0 < unat (a_chunk a)"
    and n: "n = min (zone_room a z (unat pos)) (length buf)" and off: "zone_off a z (unat pos) < 2 ^ 64"
    and rm: "\<And>off. unat off = zone_off a z (unat pos) \<Longrightarrow> read_member rd a (zone_slot a z (unat pos)) off (take n buf) = Ok (Some b)"
  shows "read_zoned rd a pos buf = Ok b"
proof -
  let ?w = "pos - z_start z"
  have f: "List.find (\<lambda>z. pos \<ge> z_start z \<and> pos < z_start z + z_len z) (a_zones a) = Some z"
    using find_zone_words [OF chain b64] find by simp
  have uw: "unat ?w = unat pos - unat (z_start z)" "unat ?w < unat (z_len z)"
    using has by (auto simp: zone_has_def unat_sub word_le_nat_alt)
  show ?thesis
  proof (cases "a_level a = LEVEL_LINEAR")
    case True
    have "unat (z_len z - ?w) = zone_room a z (unat pos)"
      using True uw by (simp add: zone_room_def Let_def unat_sub word_le_nat_alt)
    moreover have "unat (z_dev_start z + ?w) = zone_off a z (unat pos)"
      using True off uw by (simp add: zone_off_def Let_def unat_plus_if')
    moreover have "z_slots z ! 0 = zone_slot a z (unat pos)" using True by (simp add: zone_slot_def)
    ultimately show ?thesis using f True rm n by (simp add: read_zoned_def Let_def)
  next
    case False
    let ?c = "a_chunk a" and ?k = "length (z_slots z)"
    have c: "?c \<noteq> 0" using ck [OF False] by auto
    obtain w where w: "unat (z_len z) = w * ?k" and ne: "z_slots z \<noteq> []" using zok by (auto simp: zone_ok_def)
    have "?k \<le> w * ?k" using w uw(2) by (cases w) simp_all
    also have "w * ?k < 2 ^ 64" using unat_lt [of "z_len z"] by (simp add: w [symmetric])
    finally have "?k < 2 ^ 64" .
    then have uk: "unat (of_nat ?k :: u64) = ?k" by (simp add: unat_of_nat)
    have "unat (?c - ?w mod ?c) = zone_room a z (unat pos)"
      using False unat_within [OF c, of ?w] uw by (simp add: zone_room_def Let_def)
    moreover have "unat (z_dev_start z + ?w div ?c div of_nat ?k * ?c + ?w mod ?c) = zone_off a z (unat pos)"
    proof -
      have "zone_off a z (unat pos) = unat (z_dev_start z) + unat (?w div ?c div of_nat ?k) * unat ?c + unat (?w mod ?c)"
        using False uw uk by (simp add: zone_off_def Let_def unat_div_distrib unat_mod_distrib)
      then have "z_dev_start z + ?w div ?c div of_nat ?k * ?c + ?w mod ?c = of_nat (zone_off a z (unat pos))" by simp
      then show ?thesis using off by (simp only: unat_of_nat) simp
    qed
    moreover have "z_slots z ! unat ((if a_layout a = RAID0_LAYOUT_ORIGINAL then pos div ?c else ?w div ?c) mod of_nat ?k) = zone_slot a z (unat pos)"
      using False uw uk by (simp add: zone_slot_def Let_def unat_div_distrib unat_mod_distrib)
    ultimately show ?thesis using f False rm n by (simp add: read_zoned_def Let_def)
  qed
qed

context block_reader
begin

lemma zoned_piece:
  assumes wf: "md_wf rd a" and lv: "a_level a \<in> {LEVEL_RAID0, LEVEL_LINEAR}"
    and small: "a_level a = LEVEL_RAID0 \<Longrightarrow> sum_list (map (\<lambda>m. unat (m_data_size m)) (List.map_filter id (a_slots a))) < 2 ^ 64"
    and inv: "\<forall>m. Some m \<in> set (a_slots a) \<longrightarrow> invar (m_dev m)" and img: "area_image contents a img"
    and buf: "buf \<noteq> []" "unat pos + length buf \<le> unat (a_size a)"
  shows "\<exists>k. 0 < k \<and> k \<le> length buf \<and> read_zoned rd a pos buf = Ok (map (zoned_byte a img) [unat pos..<unat pos + k])"
proof -
  let ?k = "\<lambda>z. length (z_slots z)" and ?chunk = "unat (a_chunk a)"
  have chain: "zones_chain 0 (a_zones a)" and sz: "unat (a_size a) = zones_bytes (a_zones a)"
    and zok: "\<And>z. z \<in> set (a_zones a) \<Longrightarrow> zone_ok a z" and ck: "a_level a \<noteq> LEVEL_LINEAR \<Longrightarrow> 0 < ?chunk"
    using raid0_shape [OF wf _ small] linear_shape [OF wf] lv by auto
  have b64: "zones_bytes (a_zones a) < 2 ^ 64" using sz unat_lt [of "a_size a"] by simp
  have pos: "unat pos < zones_bytes (a_zones a)" using buf sz by (cases buf) simp_all
  then obtain z where z: "z \<in> set (a_zones a)" "zone_has (unat pos) z"
    and find: "\<And>q. zone_has q z \<Longrightarrow> List.find (zone_has q) (a_zones a) = Some z"
    using zones_chain_find [OF chain, of "unat pos"] by auto
  define n where "n = min (zone_room a z (unat pos)) (length buf)"
  note st = zone_piece_steady [OF zok [OF z(1)] z(2) ck]
  have n: "n \<le> zone_room a z (unat pos)" "n \<le> length buf" by (simp_all add: n_def)
  have room: "0 < zone_room a z (unat pos)" using z(2) ck by (auto simp: zone_room_def zone_has_def Let_def)
  then have n0: "0 < n" using buf(1) by (simp add: n_def)
  obtain m where m: "a_slots a ! zone_slot a z (unat pos) = Some m" "zone_off a z (unat pos) + n \<le> unat (m_data_size m)"
    using st(2) [OF _ n(1)] by blast
  have sl: "zone_slot a z (unat pos) < length (a_slots a)" using st(1) [OF _ n(1)] .
  have bytes: "map (img (zone_slot a z (unat pos))) [zone_off a z (unat pos)..<zone_off a z (unat pos) + n]
      = map (zoned_byte a img) [unat pos..<unat pos + n]"
    using st(3) [OF _ n(1)] find by (intro nth_equalityI) (simp_all add: zoned_byte_def)
  have rm: "read_member rd a (zone_slot a z (unat pos)) off (take n buf) =
      Ok (Some (map (zoned_byte a img) [unat pos..<unat pos + n]))" if "unat off = zone_off a z (unat pos)" for off
    using read_member_image [where img = img and a = a and slot = "zone_slot a z (unat pos)" and span = "unat (m_data_size m)" and off = off and buf = "take n buf"]
      members_on_devices [OF wf inv sl m(1)] img sl m n that bytes by (simp add: area_image_def)
  have off64: "zone_off a z (unat pos) < 2 ^ 64"
    using le_less_trans [OF add_leD1 [OF m(2)] unat_lt] by simp
  have "read_zoned rd a pos buf = Ok (map (zoned_byte a img) [unat pos..<unat pos + n])"
    by (rule read_zoned_at [OF chain b64 find [OF z(2)] z(2) zok [OF z(1)] ck n_def off64 rm])
  then show ?thesis using n0 n(2) by blast
qed

lemma zoned_read:
  assumes "md_wf rd a" and "\<forall>m. Some m \<in> set (a_slots a) \<longrightarrow> invar (m_dev m)"
    and lv: "a_level a \<in> {LEVEL_RAID0, LEVEL_LINEAR}"
    and "a_level a = LEVEL_RAID0 \<Longrightarrow> sum_list (map (\<lambda>m. unat (m_data_size m)) (List.map_filter id (a_slots a))) < 2 ^ 64"
    and "area_image contents a img" and fit: "unat pos + length buf \<le> unat (a_size a)"
  shows "md_read_at rd a pos buf = Ok (map (zoned_byte a img) [unat pos..<unat pos + length buf])"
proof -
  have "read_pieces (read_zoned rd a) pos buf = Ok (map (zoned_byte a img) [unat pos..<unat pos + length buf])"
    using zoned_piece [OF assms(1,3,4,2,5)] fit unat_lt [of "a_size a"]
    by (intro read_pieces_ok [where asize = "unat (a_size a)"]) simp_all
  then show ?thesis using lv area_fits_buf [OF fit] by (auto simp: md_read_at_def Let_def)
qed

end


text \<open>
  C12: A RAID0 or linear array returns its members' data in zone order. A read anywhere within
  an assembled array finds a zone for every position, stays within the data areas of the
  members, and returns the bytes of the zones one after another; it cannot fail on members
  that keep the block layer's contract. At RAID0 the data sizes are taken to sum to less than
  2^64, as they do on every device that fits the block layer.
\<close>

theorem md_zoned_read:
  assumes "block_reader rd contents invar" and "md_wf rd a" and "\<forall>m. Some m \<in> set (a_slots a) \<longrightarrow> invar (m_dev m)"
    and "a_level a \<in> {LEVEL_RAID0, LEVEL_LINEAR}"
    and "a_level a = LEVEL_RAID0 \<Longrightarrow> sum_list (map (\<lambda>m. unat (m_data_size m)) (List.map_filter id (a_slots a))) < 2 ^ 64"
    and "area_image contents a img" and "unat pos + length buf \<le> unat (a_size a)"
  shows "md_read_at rd a pos buf = Ok (map (zoned_byte a img) [unat pos..<unat pos + length buf])"
  using block_reader.zoned_read [OF assms] .

text \<open>Two RAID0 members, the second twice as long: a zone over both and one over the second.\<close>

definition raid0_pair :: "u8 list md_array" where
  "raid0_pair = \<lparr>a_slots = [Some \<lparr>m_dev = replicate 512 1, m_data_offset = 0, m_data_size = 512\<rparr>,
       Some \<lparr>m_dev = replicate 1024 2, m_data_offset = 0, m_data_size = 1024\<rparr>],
     a_level = 0, a_layout = 2, a_chunk = 512, a_size = 1536,
     a_zones = [\<lparr>z_start = 0, z_len = 1024, z_dev_start = 0, z_slots = [0, 1]\<rparr>,
       \<lparr>z_start = 1024, z_len = 512, z_dev_start = 512, z_slots = [1]\<rparr>],
     a_raid10 = None, a_superblock = raid5_lead\<lparr>sb_level := 0, sb_layout := 2, raid_disks := 2\<rparr>\<rparr>"

lemma raid0_pair_wf: "md_wf memdev raid0_pair"
proof -
  have r: "[0..<2] = [0, 1 :: nat]" by (simp add: upt_rec)
  have "raid0_zones [512, 1024] = a_zones raid0_pair"
    by (simp add: raid0_zones_def zone_step_def r raid0_pair_def Let_def insort_key.simps)
  then have "shape_raid0 (a_superblock raid0_pair) (a_slots raid0_pair) = Ok (1536, a_zones raid0_pair, None)"
    by (simp add: shape_raid0_def need_members_def needs_chunk_def present_count_def raid0_pair_def raid5_lead_def
        Let_def List.map_filter_simps)
  then show ?thesis
    by (auto simp: md_wf_def Let_def array_shape_of_def raid0_pair_def raid5_lead_def member_span_def)
qed

theorem md_zoned_read_witness:
  "md_read_at memdev raid0_pair 511 (replicate 2 0) = Ok [1, 2]"
proof -
  let ?img = "\<lambda>slot (off :: nat). [1, 2 :: u8] ! slot"
  have "md_read_at memdev raid0_pair 511 (replicate 2 0) =
      Ok (map (zoned_byte raid0_pair ?img) [unat (511 :: u64)..<unat (511 :: u64) + length (replicate 2 (0 :: u8))])"
  proof (rule md_zoned_read [OF memdev.block_reader_axioms raid0_pair_wf])
    show "area_image (\<lambda>b. b) raid0_pair ?img"
      by (auto simp: area_image_def raid0_pair_def less_Suc_eq)
  qed (auto simp: raid0_pair_def memdev_invar_def List.map_filter_simps)
  then show ?thesis
    by (simp add: upt_rec zoned_byte_def zone_has_def zone_slot_def zone_off_def raid0_pair_def Let_def)
qed

end
