(* ===== verification/Lvm_Read.thy ===== *)
theory Lvm_Read
  imports Lvm_Volume Md_Zoned
begin

text \<open>
  Reads of logical volumes. A piece reader that reads the bytes \<open>f\<close> is what every map of a run
  is shown to be; runs one after the other join such readers into one of the volume.
\<close>


section \<open>Readers of bytes\<close>

text \<open>
  A piece reader reads the bytes \<open>f\<close> of \<open>len\<close> when, asked for some of them, it returns at
  least one and no more than asked for. What reads all of them piece by piece is such a reader.
\<close>

definition reads :: "(nat \<Rightarrow> u8) \<Rightarrow> nat \<Rightarrow> piece_reader \<Rightarrow> bool" where
  "reads f len piece \<longleftrightarrow> len < 2 ^ 64 \<and>
     (\<forall>pos buf. buf \<noteq> [] \<longrightarrow> unat pos + length buf \<le> len \<longrightarrow>
        (\<exists>n. 0 < n \<and> n \<le> length buf \<and> piece pos buf = Ok (map f [unat pos..<unat pos + n])))"

lemma readsD:
  assumes "reads f len piece" and "buf \<noteq> []" and "unat pos + length buf \<le> len"
  obtains n where "0 < n" and "n \<le> length buf" and "piece pos buf = Ok (map f [unat pos..<unat pos + n])"
  using assms unfolding reads_def by blast

lemma reads_pieces:
  assumes "reads f len piece" and "unat pos + length buf \<le> len"
  shows "read_pieces piece pos buf = Ok (map f [unat pos..<unat pos + length buf])"
  using assms by (intro read_pieces_ok [where asize = len]) (auto simp: reads_def)

lemma reads_all:
  assumes "\<And>pos buf. unat pos + length buf \<le> len \<Longrightarrow> piece pos buf = Ok (map f [unat pos..<unat pos + length buf])"
    and "len < 2 ^ 64"
  shows "reads f len piece"
  unfolding reads_def using assms by (metis length_greater_0_conv order_refl)

text \<open>Runs that follow one another, each reading its part of the bytes.\<close>

fun runs_chain :: "(nat \<Rightarrow> u8) \<Rightarrow> nat \<Rightarrow> reader list \<Rightarrow> bool" where
  "runs_chain f st [] \<longleftrightarrow> True"
| "runs_chain f st ((start, len, piece) # rs) \<longleftrightarrow>
     unat start = st \<and> reads (\<lambda>i. f (st + i)) (unat len) piece \<and> runs_chain f (st + unat len) rs"

definition runs_bytes :: "reader list \<Rightarrow> nat" where
  "runs_bytes rs = sum_list (map (\<lambda>(_, len, _). unat len) rs)"

lemma runs_bytes_simps [simp]:
  "runs_bytes [] = 0" "runs_bytes ((start, len, piece) # rs) = unat len + runs_bytes rs"
  by (simp_all add: runs_bytes_def)

lemma run_piece_here:
  "pos \<ge> start \<and> pos < start + len \<Longrightarrow>
   run_piece ((start, len, piece) # rs) pos buf = piece (pos - start) (take (unat (start + len - pos)) buf)"
  by (simp add: run_piece_def)

lemma run_piece_next:
  assumes "\<not> (pos \<ge> start \<and> pos < start + len)" and "run_piece rs pos buf = Ok b"
  shows "run_piece ((start, len, piece) # rs) pos buf = Ok b"
proof (cases "List.find (\<lambda>(start, len, _). pos \<ge> start \<and> pos < start + len) rs")
  case None
  then show ?thesis using assms(2) by (simp add: run_piece_def)
next
  case (Some r)
  then show ?thesis using assms by (auto simp: run_piece_def)
qed

lemma run_piece_chain:
  assumes "runs_chain f st rs" and "st \<le> unat pos" and "unat pos < st + runs_bytes rs"
    and "st + runs_bytes rs < 2 ^ 64" and "buf \<noteq> []"
  shows "\<exists>n. 0 < n \<and> n \<le> length buf \<and> run_piece rs pos buf = Ok (map f [unat pos..<unat pos + n])"
  using assms(1-4)
proof (induction rs arbitrary: st)
  case (Cons r rs)
  obtain start len piece where r: "r = (start, len, piece)" by (cases r)
  have s: "unat start = st" "reads (\<lambda>i. f (st + i)) (unat len) piece" "runs_chain f (st + unat len) rs"
    using Cons.prems(1) r by simp_all
  have e: "unat (start + len) = st + unat len"
    using Cons.prems(4) s(1) r by (simp add: unat_plus_if')
  have here: "pos \<ge> start \<and> pos < start + len \<longleftrightarrow> unat pos < st + unat len"
    using Cons.prems(2) s(1) e by (simp add: word_le_nat_alt word_less_nat_alt)
  show ?case
  proof (cases "unat pos < st + unat len")
    case True
    let ?b = "take (unat (start + len - pos)) buf"
    have w: "unat (pos - start) = unat pos - st" "unat (start + len - pos) = st + unat len - unat pos"
      using True Cons.prems(2) s(1) e by (simp_all add: unat_sub word_le_nat_alt)
    have "?b \<noteq> []" "unat (pos - start) + length ?b \<le> unat len"
      using w True Cons.prems(2) assms(5) by auto
    with s(2) obtain n where n: "0 < n" "n \<le> length ?b"
      "piece (pos - start) ?b = Ok (map (\<lambda>i. f (st + i)) [unat (pos - start)..<unat (pos - start) + n])" by (rule readsD)
    moreover have "map (\<lambda>i. f (st + i)) [unat (pos - start)..<unat (pos - start) + n] = map f [unat pos..<unat pos + n]"
      using w(1) Cons.prems(2) by (intro nth_equalityI) auto
    ultimately show ?thesis using True here r by (intro exI [of _ n]) (simp add: run_piece_here)
  next
    case False
    have IH: "\<exists>n. 0 < n \<and> n \<le> length buf \<and> run_piece rs pos buf = Ok (map f [unat pos..<unat pos + n])"
      using Cons.prems False r s(3) by (intro Cons.IH [of "st + unat len"]) simp_all
    then show ?thesis using False here r run_piece_next [of start pos len rs buf _ piece] by auto
  qed
qed simp

lemma read_through_ok:
  assumes "runs_chain f 0 rs" and "runs_bytes rs < 2 ^ 64" and "unat pos + length buf \<le> runs_bytes rs"
  shows "read_through rs pos buf = Ok (map f [unat pos..<unat pos + length buf])"
proof -
  have "\<exists>n. 0 < n \<and> n \<le> length buf \<and> run_piece rs pos buf = Ok (map f [unat pos..<unat pos + n])"
    if "buf \<noteq> []" "unat pos + length buf \<le> runs_bytes rs" for pos :: u64 and buf
    using that assms by (intro run_piece_chain [of f 0]) (cases buf; simp)+
  then have "reads f (runs_bytes rs) (run_piece rs)" using assms(2) by (auto simp: reads_def)
  then show ?thesis using assms(3) unfolding read_through_def by (rule reads_pieces)
qed

section \<open>Stripes\<close>

text \<open>Where byte \<open>x\<close> of a segment is: the stripe that holds it and the byte of that stripe.\<close>

definition stripe_place :: "nat \<Rightarrow> nat \<Rightarrow> nat \<Rightarrow> nat \<times> nat" where
  "stripe_place n ssize x =
     (if n = 1 then (0, x) else (x div ssize mod n, x div ssize div n * ssize + x mod ssize))"

lemma stripe_place_run:
  assumes "1 < n" and "x mod ssize + i < ssize"
  shows "stripe_place n ssize (x + i) = (fst (stripe_place n ssize x), snd (stripe_place n ssize x) + i)"
proof -
  have "x + i = (x mod ssize + i) + x div ssize * ssize" by simp
  then have "(x + i) div ssize = ((x mod ssize + i) + x div ssize * ssize) div ssize"
    "(x + i) mod ssize = ((x mod ssize + i) + x div ssize * ssize) mod ssize" by (simp_all only:)
  then have "(x + i) div ssize = x div ssize" "(x + i) mod ssize = x mod ssize + i"
    using assms(2) by (simp_all only: div_mult_self1 mod_mult_self1 mod_less div_less add_0_right)
  then show ?thesis using assms(1) by (simp add: stripe_place_def)
qed

lemma stripe_place_bound:
  assumes "0 < n" and "x < n * w" and "1 < n \<longrightarrow> ssize dvd w \<and> 0 < ssize"
  shows "fst (stripe_place n ssize x) < n" and "snd (stripe_place n ssize x) < w"
proof -
  show "fst (stripe_place n ssize x) < n" using assms(1) by (simp add: stripe_place_def)
  show "snd (stripe_place n ssize x) < w"
  proof (cases "n = 1")
    case False
    then have ss: "0 < ssize" "ssize dvd w" using assms(1,3) by auto
    then obtain q where q: "w = ssize * q" by auto
    have "x div ssize < n * q" using assms(2) ss q by (simp add: less_mult_imp_div_less mult.assoc mult.commute mult.left_commute)
    then have "x div ssize div n < q" using assms(1) by (simp add: less_mult_imp_div_less mult.commute)
    then have "(x div ssize div n + 1) * ssize \<le> q * ssize" by (intro mult_le_mono1) simp
    moreover have "x mod ssize < ssize" using ss by simp
    ultimately show ?thesis using False q by (simp add: stripe_place_def algebra_simps)
  qed (use assms in \<open>simp add: stripe_place_def\<close>)
qed


text \<open>The byte of a list of stripes that a segment's byte \<open>x\<close> is.\<close>

definition striped_byte :: "('d \<Rightarrow> u8 list) \<Rightarrow> 'd list \<Rightarrow> (nat \<times> u64) list \<Rightarrow> nat \<Rightarrow> nat \<Rightarrow> u8" where
  "striped_byte contents devices stripes ssize x =
     (let (j, y) = stripe_place (length stripes) ssize x; (d, off) = stripes ! j
      in contents (devices ! d) ! (unat off + y))"

lemma device_read_bytes:
  assumes "block_reader rd contents invar" and "invar (devices ! d)" and "unat at + n \<le> length (contents (devices ! d))"
  shows "device_read rd devices d at n = Ok (map (\<lambda>i. contents (devices ! d) ! (unat at + i)) [0..<n])"
proof -
  have "slice_of (unat at) n (contents (devices ! d)) = map (\<lambda>i. contents (devices ! d) ! (unat at + i)) [0..<n]"
    using assms(3) by (intro nth_equalityI) auto
  then show ?thesis using block_reader.read_within [OF assms] by (simp add: device_read_def)
qed

lemma unat_of_nat_small: "a < 2 ^ 64 \<Longrightarrow> unat (of_nat a :: u64) = a"
  by (simp add: unat_of_nat)

text \<open>The device read a striped piece makes, by numbers.\<close>

lemma striped_piece_at:
  assumes n: "length stripes < 2 ^ 64"
    and d: "stripes ! fst (stripe_place (length stripes) (unat ssize) (unat pos)) = (d, off)"
  shows "striped_piece dr ssize stripes pos buf =
    dr d (of_nat (unat off + snd (stripe_place (length stripes) (unat ssize) (unat pos))))
      (if length stripes = 1 then length buf else min (unat (ssize - pos mod ssize)) (length buf))"
proof (cases "length stripes = 1")
  case True
  then show ?thesis using d by (simp add: striped_piece_def stripe_place_def)
next
  case False
  let ?n = "of_nat (length stripes) :: u64"
  have un: "unat ?n = length stripes" using n by (simp add: unat_of_nat)
  have "pos div ssize div ?n = of_nat (unat (pos div ssize div ?n))" "pos mod ssize = of_nat (unat (pos mod ssize))" by simp_all
  then have k: "pos div ssize div ?n = of_nat (unat pos div unat ssize div length stripes)"
    "pos mod ssize = of_nat (unat pos mod unat ssize)"
    by (simp_all only: unat_div_distrib unat_mod_distrib un)
  have j: "unat (pos div ssize mod ?n) = unat pos div unat ssize mod length stripes"
    by (simp add: unat_div_distrib unat_mod_distrib un)
  have "off + pos div ssize div ?n * ssize + pos mod ssize
      = of_nat (unat off + (unat pos div unat ssize div length stripes * unat ssize + unat pos mod unat ssize))"
    unfolding k by simp
  then show ?thesis using False d j by (simp add: striped_piece_def stripe_place_def Let_def add.assoc)
qed

text \<open>The bytes one round takes lie in one stripe, one after the other.\<close>

lemma striped_run:
  assumes n: "0 < n" and ss: "1 < n \<Longrightarrow> 0 < unat ssize" and buf: "0 < k"
    and m: "m = (if n = 1 then k else min (unat (ssize - pos mod ssize)) k)"
  shows "0 < m" and "m \<le> k"
    and "i < m \<Longrightarrow> stripe_place n (unat ssize) (unat pos + i) =
      (fst (stripe_place n (unat ssize) (unat pos)), snd (stripe_place n (unat ssize) (unat pos)) + i)"
proof -
  have left: "unat (ssize - pos mod ssize) = unat ssize - unat pos mod unat ssize \<and> unat pos mod unat ssize < unat ssize" if "1 < n"
    using ss [OF that] by (simp add: unat_sub word_le_nat_alt unat_mod_distrib less_imp_le)
  show "0 < m" and "m \<le> k" using n buf left by (auto simp: m)
  show "stripe_place n (unat ssize) (unat pos + i) =
      (fst (stripe_place n (unat ssize) (unat pos)), snd (stripe_place n (unat ssize) (unat pos)) + i)" if i: "i < m"
  proof (cases "n = 1")
    case False
    then have "1 < n" using n by simp
    moreover have "unat pos mod unat ssize + i < unat ssize" using i False left [OF \<open>1 < n\<close>] by (simp add: m less_diff_conv)
    ultimately show ?thesis using stripe_place_run [of n "unat pos" "unat ssize" i] by simp
  qed (simp add: stripe_place_def)
qed

lemma striped_reads:
  assumes rd: "block_reader rd contents invar"
    and st: "\<And>d off. (d, off) \<in> set stripes \<Longrightarrow> invar (devices ! d) \<and> unat off + w \<le> length (contents (devices ! d))"
    and n: "stripes \<noteq> []" "length stripes < 2 ^ 64" "length stripes * w < 2 ^ 64"
    and ss: "1 < length stripes \<Longrightarrow> unat ssize dvd w \<and> 0 < unat ssize"
  shows "reads (striped_byte contents devices stripes (unat ssize)) (length stripes * w)
    (striped_piece (device_read rd devices) ssize stripes)"
  unfolding reads_def
proof (intro conjI allI impI)
  fix pos :: u64 and buf :: "u8 list"
  assume buf: "buf \<noteq> []" and fit: "unat pos + length buf \<le> length stripes * w"
  let ?n = "length stripes" and ?x = "unat pos"
  define j y where "j = fst (stripe_place ?n (unat ssize) ?x)" and "y = snd (stripe_place ?n (unat ssize) ?x)"
  obtain d off where d: "stripes ! j = (d, off)" by (cases "stripes ! j")
  define m where "m = (if ?n = 1 then length buf else min (unat (ssize - pos mod ssize)) (length buf))"
  have x: "?x < ?n * w" using fit buf by (cases buf) auto
  have j: "j < ?n" "y < w"
    using stripe_place_bound [OF _ x, of "unat ssize"] n(1) ss unfolding j_def y_def by simp_all
  note D = st [of d off] nth_mem [OF j(1), unfolded d]
  have H: "0 < ?n" "1 < ?n \<Longrightarrow> 0 < unat ssize" "0 < length buf" using n(1) ss buf by auto
  note m = striped_run(1,2) [OF H m_def]
  have place: "i < m \<Longrightarrow> stripe_place ?n (unat ssize) (?x + i) = (j, y + i)" for i
    unfolding j_def y_def by (rule striped_run(3) [OF H m_def])
  have ym: "y + m \<le> w"
  proof -
    have "?x + (m - 1) < ?n * w" using fit m by simp
    from stripe_place_bound(2) [OF _ this, of "unat ssize"] n(1) ss place [of "m - 1"] m(1) show ?thesis by simp
  qed
  have "unat off + y < 2 ^ 64"
    using D ym j block_reader.contents_fit [OF rd, of "devices ! d"] by simp
  then have "unat (of_nat (unat off + y) :: u64) = unat off + y" by (rule unat_of_nat_small)
  then have "striped_piece (device_read rd devices) ssize stripes pos buf
      = Ok (map (\<lambda>i. contents (devices ! d) ! (unat off + y + i)) [0..<m])"
    unfolding striped_piece_at [OF n(2) d [unfolded j_def]] m_def [symmetric] y_def [symmetric]
    using D ym device_read_bytes [OF rd, of devices d "of_nat (unat off + y)" m] by simp
  also have "map (\<lambda>i. contents (devices ! d) ! (unat off + y + i)) [0..<m]
      = map (striped_byte contents devices stripes (unat ssize)) [?x..<?x + m]"
    using place d by (intro nth_equalityI) (auto simp: striped_byte_def add.assoc)
  finally show "\<exists>k. 0 < k \<and> k \<le> length buf \<and> striped_piece (device_read rd devices) ssize stripes pos buf
      = Ok (map (striped_byte contents devices stripes (unat ssize)) [?x..<?x + k])" using m by blast
qed (use n in simp)


section \<open>The bytes of a volume\<close>

text \<open>
  The device a physical volume is on: the last one given whose label has its UUID. Byte \<open>x\<close> of
  a striped segment is on the volume its place says, from the start of the stripe's first
  extent; a volume is its segments one after the other.
\<close>

definition pv_device :: "('d, 'x) block_read_scheme \<Rightarrow> (nat \<times> 'd) list \<Rightarrow> ustring \<Rightarrow> nat option" where
  "pv_device rd ds uuid =
     map_option fst (List.find (\<lambda>(i, d). case read_pv_label_of rd d i of
        Inr (Some label) \<Rightarrow> label_uuid label = uuid | _ \<Rightarrow> False) (rev ds))"

definition seg_byte ::
    "('d, 'x) block_read_scheme \<Rightarrow> ('d \<Rightarrow> u8 list) \<Rightarrow> 'd list \<Rightarrow> volume_group \<Rightarrow> segment \<Rightarrow> nat \<Rightarrow> u8" where
  "seg_byte rd contents devices vg seg x =
     (let (j, y) = stripe_place (length (seg_stripes seg)) (unat (stripe_size seg)) x;
          st = seg_stripes seg ! j
      in case List.find (\<lambda>p. pv_name p = stripe_pv st) (physical_volumes vg) of
           None \<Rightarrow> 0
         | Some pv \<Rightarrow>
             (case pv_device rd (enumerate 0 devices) (pv_uuid pv) of
                None \<Rightarrow> 0
              | Some d \<Rightarrow> contents (devices ! d) !
                  (unat (pe_start pv) + unat (stripe_start st) * unat (extent_size vg) + y)))"

fun lv_byte ::
    "('d, 'x) block_read_scheme \<Rightarrow> ('d \<Rightarrow> u8 list) \<Rightarrow> 'd list \<Rightarrow> volume_group \<Rightarrow> segment list \<Rightarrow> nat \<Rightarrow> u8" where
  "lv_byte rd contents devices vg [] x = 0"
| "lv_byte rd contents devices vg (seg # segs) x =
     (let len = unat (extent_count seg) * unat (extent_size vg) in
      if x < len then seg_byte rd contents devices vg seg x
      else lv_byte rd contents devices vg segs (x - len))"

definition extents :: "segment list \<Rightarrow> nat" where
  "extents segs = sum_list (map (\<lambda>seg. unat (extent_count seg)) segs)"

lemma find_append: "List.find P (xs @ ys) = (case List.find P xs of None \<Rightarrow> List.find P ys | Some x \<Rightarrow> Some x)"
  by (induction xs) auto

lemma uuid_table_device:
  "uuid_table rd ds t = Ok t' \<Longrightarrow> t' u = (case pv_device rd ds u of None \<Rightarrow> t u | Some i \<Rightarrow> Some i)"
proof (induction ds arbitrary: t)
  case (Cons x ds)
  obtain i d where x: "x = (i, d)" by (cases x)
  obtain label where l: "read_pv_label_of rd d i = Ok (Some label)" "uuid_table rd ds (t(label_uuid label \<mapsto> i)) = Ok t'"
    using Cons.prems x by auto
  show ?case using Cons.IH [OF l(2)] l(1) x by (auto simp: pv_device_def find_append split: option.splits)
qed (simp add: pv_device_def)

lemma pv_device_index:
  assumes "pv_device rd (enumerate 0 devices) u = Some d"
  shows "d < length devices"
proof -
  obtain x where x: "List.find (\<lambda>(i, d). case read_pv_label_of rd d i of
      Inr (Some label) \<Rightarrow> label_uuid label = u | _ \<Rightarrow> False) (rev (enumerate 0 devices)) = Some x" "d = fst x"
    using assms by (auto simp: pv_device_def)
  then obtain i where "i < length (rev (enumerate 0 devices))" "x = rev (enumerate 0 devices) ! i" unfolding find_Some_iff by blast
  then have "x \<in> set (rev (enumerate 0 devices))" using nth_mem by blast
  then have "x \<in> set (enumerate 0 devices)" by simp
  then show ?thesis using x(2) by (auto simp: in_set_enumerate_eq)
qed

lemma map_stripe_Ok:
  assumes "map_stripe rd m name per st = Ok (d, off)" and "unat per * unat (extent_size (mp_vg m)) < 2 ^ 64"
  obtains pv where "List.find (\<lambda>p. pv_name p = stripe_pv st) (physical_volumes (mp_vg m)) = Some pv"
    and "mp_uuid_to_dev m (pv_uuid pv) = Some d"
    and "unat off = unat (pe_start pv) + unat (stripe_start st) * unat (extent_size (mp_vg m))"
    and "unat off + unat per * unat (extent_size (mp_vg m)) \<le> unat (size_bytes rd (mp_devices m ! d))"
proof -
  let ?ext = "extent_size (mp_vg m)"
  obtain pv e o1 where pv: "List.find (\<lambda>p. pv_name p = stripe_pv st) (physical_volumes (mp_vg m)) = Some pv"
      "mp_uuid_to_dev m (pv_uuid pv) = Some d"
    and o: "checked_mul (stripe_start st) ?ext = Some o1" "checked_add o1 (pe_start pv) = Some off"
    and e: "checked_add off (per * ?ext) = Some e" "\<not> e > size_bytes rd (mp_devices m ! d)"
    using assms(1) by (auto simp: map_stripe_def Let_def bind_eq_Some_conv split: if_splits option.splits)
  have "unat (per * ?ext) = unat per * unat ?ext" using assms(2) by (simp add: unat_word_ariths(2))
  then show thesis using that [OF pv] o e
    by (simp add: checked_mul_eq_Some checked_add_eq_Some word_le_nat_alt not_less)
qed

lemma reads_cong:
  assumes r: "reads f len piece" and fg: "\<And>i. i < len \<Longrightarrow> f i = g i"
  shows "reads g len piece"
  unfolding reads_def
proof (intro conjI allI impI)
  fix pos :: u64 and buf :: "u8 list"
  assume b: "buf \<noteq> []" "unat pos + length buf \<le> len"
  obtain n where n: "0 < n" "n \<le> length buf" "piece pos buf = Ok (map f [unat pos..<unat pos + n])"
    by (rule readsD [OF r b])
  moreover have "map f [unat pos..<unat pos + n] = map g [unat pos..<unat pos + n]" using fg b(2) n(2) by simp
  ultimately show "\<exists>n. 0 < n \<and> n \<le> length buf \<and> piece pos buf = Ok (map g [unat pos..<unat pos + n])" by auto
qed (use r in \<open>simp add: reads_def\<close>)

lemma runs_chain_cong: "runs_chain f st rs \<Longrightarrow> (\<And>x. st \<le> x \<Longrightarrow> f x = g x) \<Longrightarrow> runs_chain g st rs"
proof (induction rs arbitrary: st)
  case (Cons r rs)
  obtain start len piece where "r = (start, len, piece)" by (cases r)
  then show ?case using Cons by (auto intro: reads_cong)
qed simp

lemma reads_nothing: "reads f 0 piece"
  by (simp add: reads_def)


section \<open>Volumes of striped segments\<close>

definition plain :: "segment \<Rightarrow> bool" where
  "plain seg \<longleftrightarrow> seg_kind seg = ustr ''striped'' \<and> length (seg_stripes seg) < 2 ^ 64"

text \<open>What the stripe at \<open>j\<close> of a resolved segment is.\<close>

definition stripe_at ::
    "('d, 'x) block_read_scheme \<Rightarrow> 'd mapper \<Rightarrow> segment \<Rightarrow> nat \<Rightarrow> nat \<Rightarrow> nat \<times> u64 \<Rightarrow> bool" where
  "stripe_at rd m seg w j = (\<lambda>(d, off). \<exists>pv.
     List.find (\<lambda>p. pv_name p = stripe_pv (seg_stripes seg ! j)) (physical_volumes (mp_vg m)) = Some pv \<and>
     mp_uuid_to_dev m (pv_uuid pv) = Some d \<and>
     unat off = unat (pe_start pv) + unat (stripe_start (seg_stripes seg ! j)) * unat (extent_size (mp_vg m)) \<and>
     unat off + w \<le> unat (size_bytes rd (mp_devices m ! d)))"

lemma map_striped_Ok:
  assumes ok: "map_striped rd m name seg = Ok lm" and n: "length (seg_stripes seg) < 2 ^ 64"
    and fit: "unat (extent_count seg) * unat (extent_size (mp_vg m)) < 2 ^ 64"
  obtains stripes w where "lm = Striped (stripe_size seg) stripes"
    and "length stripes = length (seg_stripes seg)" and "stripes \<noteq> []"
    and "length stripes * w = unat (extent_count seg) * unat (extent_size (mp_vg m))"
    and "1 < length stripes \<Longrightarrow> w \<noteq> 0 \<Longrightarrow> unat (stripe_size seg) dvd w \<and> 0 < unat (stripe_size seg)"
    and "\<And>j. j < length stripes \<Longrightarrow> stripe_at rd m seg w j (stripes ! j)"
proof -
  let ?n = "of_nat (length (seg_stripes seg)) :: u64" and ?ext = "extent_size (mp_vg m)"
  define per where "per = extent_count seg div ?n"
  define w where "w = unat per * unat ?ext"
  have un: "unat ?n = length (seg_stripes seg)" using n by (simp add: unat_of_nat)
  obtain stripes where c: "?n \<noteq> 0" "is_multiple_of (extent_count seg) ?n"
    and st: "traverse (map_stripe rd m name per) (seg_stripes seg) = Ok stripes"
    and ss: "?n > 1 \<longrightarrow> is_multiple_of (per * ?ext) (stripe_size seg)" and lm: "lm = Striped (stripe_size seg) stripes"
    using ok by (auto simp: map_striped_def Let_def per_def split: if_splits)
  have len: "length stripes = length (seg_stripes seg)" using traverse_length [OF st] .
  have pos: "0 < length (seg_stripes seg)" using c(1) un by (metis gr0I unat_0_iff)
  have "unat (extent_count seg) mod length (seg_stripes seg) = 0" using c(2) pos un by (simp add: is_multiple_of_iff)
  then have every: "length stripes * w = unat (extent_count seg) * unat ?ext"
    using un len by (auto simp: w_def per_def unat_div_distrib simp flip: mult.assoc)
  have "w \<le> length stripes * w" using pos len by (cases "length stripes") simp_all
  then have w: "w < 2 ^ 64" using every fit by simp
  then have uw: "unat (per * ?ext) = w" by (simp add: w_def unat_word_ariths(2))
  show thesis
  proof (rule that [OF lm len _ every])
    show "unat (stripe_size seg) dvd w \<and> 0 < unat (stripe_size seg)" if "1 < length stripes" "w \<noteq> 0"
    proof -
      have "is_multiple_of (per * ?ext) (stripe_size seg)" using ss un len that(1) by (simp add: word_less_nat_alt)
      then show ?thesis using uw that(2) is_multiple_of_iff [of "stripe_size seg" "per * ?ext"]
        by (cases "unat (stripe_size seg) = 0") (auto simp: is_multiple_of_def unat_eq_0 mod_eq_0_iff_dvd)
    qed
    show "stripe_at rd m seg w j (stripes ! j)" if "j < length stripes" for j
    proof -
      obtain d off where d: "stripes ! j = (d, off)" by (cases "stripes ! j")
      then have "map_stripe rd m name per (seg_stripes seg ! j) = Ok (d, off)" using traverse_nth [OF st, of j] that len by simp
      then show ?thesis using w unfolding d stripe_at_def w_def by (rule map_stripe_Ok) auto
    qed
  qed (use pos len in auto)
qed

lemma map_striped_reads:
  assumes rd: "block_reader rd contents invar" and inv: "\<And>d. d \<in> set devices \<Longrightarrow> invar d"
    and m: "mp_devices m = devices" "mp_uuid_to_dev m = pv_device rd (enumerate 0 devices)"
    and ok: "map_striped rd m name seg = Ok lm" and n: "length (seg_stripes seg) < 2 ^ 64"
    and fit: "unat (extent_count seg) * unat (extent_size (mp_vg m)) < 2 ^ 64"
  shows "reads (seg_byte rd contents devices (mp_vg m) seg) (unat (extent_count seg) * unat (extent_size (mp_vg m)))
    (map_reader (device_read rd devices) lm)"
proof -
  obtain stripes w where lm: "lm = Striped (stripe_size seg) stripes"
    and len: "length stripes = length (seg_stripes seg)" "stripes \<noteq> []"
    and every: "length stripes * w = unat (extent_count seg) * unat (extent_size (mp_vg m))"
    and ss: "1 < length stripes \<Longrightarrow> w \<noteq> 0 \<Longrightarrow> unat (stripe_size seg) dvd w \<and> 0 < unat (stripe_size seg)"
    and at: "\<And>j. j < length stripes \<Longrightarrow> stripe_at rd m seg w j (stripes ! j)"
    by (rule map_striped_Ok [OF ok n fit]) blast
  show ?thesis
  proof (cases "w = 0")
    case True
    then show ?thesis by (simp add: reads_nothing flip: every)
  next
    case False
    note ss = ss [OF _ False]
    have dev: "invar (devices ! d) \<and> unat (size_bytes rd (devices ! d)) = length (contents (devices ! d))"
      if j: "j < length stripes" "stripes ! j = (d, off)" for j d off
    proof -
      obtain uuid where "pv_device rd (enumerate 0 devices) uuid = Some d"
        using at [OF j(1)] j(2) m by (auto simp: stripe_at_def)
      then have "invar (devices ! d)" using inv pv_device_index by (metis nth_mem)
      then show ?thesis using block_reader.size_contents [OF rd] by blast
    qed
    have "reads (striped_byte contents devices stripes (unat (stripe_size seg))) (length stripes * w)
        (striped_piece (device_read rd devices) (stripe_size seg) stripes)"
    proof (rule striped_reads [OF rd])
      fix d off assume "(d, off) \<in> set stripes"
      then obtain j where j: "j < length stripes" "stripes ! j = (d, off)" by (auto simp: in_set_conv_nth)
      then show "invar (devices ! d) \<and> unat off + w \<le> length (contents (devices ! d))"
        using at [OF j(1)] dev [OF j] m by (auto simp: stripe_at_def)
    qed (use len n every fit ss in auto)
    moreover have "striped_byte contents devices stripes (unat (stripe_size seg)) x = seg_byte rd contents devices (mp_vg m) seg x"
      if x: "x < length stripes * w" for x
    proof -
      have "fst (stripe_place (length stripes) (unat (stripe_size seg)) x) < length stripes"
        by (rule stripe_place_bound(1) [OF _ x]) (use len ss in auto)
      from at [OF this] show ?thesis using len m
        by (auto simp: stripe_at_def striped_byte_def seg_byte_def Let_def case_prod_beta)
    qed
    ultimately show ?thesis using every lm reads_cong by simp
  qed
qed

lemma map_segments_chain:
  assumes rd: "block_reader rd contents invar" and inv: "\<And>d. d \<in> set devices \<Longrightarrow> invar d"
    and m: "mp_devices m = devices" "mp_uuid_to_dev m = pv_device rd (enumerate 0 devices)"
    and ext: "0 < unat (extent_size (mp_vg m))"
  shows "map_segments rd m sub name nxt segs = Ok (runs, lvsize) \<Longrightarrow> list_all plain segs \<Longrightarrow>
    (unat nxt + extents segs) * unat (extent_size (mp_vg m)) < 2 ^ 64 \<Longrightarrow>
    runs_chain (\<lambda>x. lv_byte rd contents devices (mp_vg m) segs (x - unat nxt * unat (extent_size (mp_vg m))))
      (unat nxt * unat (extent_size (mp_vg m))) (map (run_reader (device_read rd devices)) runs) \<and>
    runs_bytes (map (run_reader (device_read rd devices)) runs) = extents segs * unat (extent_size (mp_vg m)) \<and>
    unat lvsize = (unat nxt + extents segs) * unat (extent_size (mp_vg m))"
proof (induction segs arbitrary: nxt runs)
  case Nil
  then show ?case by (auto simp: extents_def unat_word_ariths(2))
next
  case (Cons seg segs)
  let ?ext = "extent_size (mp_vg m)"
  let ?len = "unat (extent_count seg) * unat ?ext"
  obtain len lm runs' where c: "checked_mul (extent_count seg) ?ext = Some len" "map_segment rd m sub name seg = Ok lm"
    and rest: "map_segments rd m sub name (nxt + extent_count seg) segs = Ok (runs', lvsize)"
    and runs: "runs = Run (nxt * ?ext) len lm # runs'"
    using Cons.prems(1) by (auto split: if_splits)
  have len: "unat len = ?len" using c(1) by (simp add: checked_mul_eq_Some)
  have f: "unat nxt * unat ?ext + (?len + extents segs * unat ?ext) < 2 ^ 64"
    using Cons.prems(3) by (simp add: extents_def algebra_simps)
  have "unat nxt + unat (extent_count seg) \<le> (unat nxt + unat (extent_count seg)) * unat ?ext" using ext by simp
  also have "\<dots> = unat nxt * unat ?ext + ?len" by (rule distrib_right)
  finally have "unat nxt + unat (extent_count seg) < 2 ^ 64" using f by linarith
  then have nx: "unat (nxt + extent_count seg) = unat nxt + unat (extent_count seg)" by (simp add: unat_plus_if')
  have st: "unat (nxt * ?ext) = unat nxt * unat ?ext" using f by (simp add: unat_word_ariths(2))
  have e: "(unat nxt + unat (extent_count seg)) * unat ?ext = unat nxt * unat ?ext + ?len" by (rule distrib_right)
  have "(unat nxt + unat (extent_count seg) + extents segs) * unat ?ext < 2 ^ 64" using f by (simp only: distrib_right add.assoc)
  moreover have "list_all plain segs" using Cons.prems(2) by simp
  ultimately have IH: "runs_chain (\<lambda>x. lv_byte rd contents devices (mp_vg m) segs (x - (unat nxt * unat ?ext + ?len)))
      (unat nxt * unat ?ext + ?len) (map (run_reader (device_read rd devices)) runs')"
    "runs_bytes (map (run_reader (device_read rd devices)) runs') = extents segs * unat ?ext"
    "unat lvsize = (unat nxt + unat (extent_count seg) + extents segs) * unat ?ext"
    using Cons.IH [OF rest, unfolded nx e] by blast+
  from IH(1) have "runs_chain (\<lambda>x. lv_byte rd contents devices (mp_vg m) (seg # segs) (x - unat nxt * unat ?ext))
      (unat nxt * unat ?ext + ?len) (map (run_reader (device_read rd devices)) runs')"
    by (rule runs_chain_cong) (auto simp: Let_def)
  moreover have "reads (seg_byte rd contents devices (mp_vg m) seg) ?len (map_reader (device_read rd devices) lm)"
    using map_striped_reads [OF rd inv m, of name seg lm] c(2) Cons.prems(2) f by (simp add: plain_def map_segment_def Let_def)
  then have "reads (\<lambda>i. lv_byte rd contents devices (mp_vg m) (seg # segs) (unat nxt * unat ?ext + i - unat nxt * unat ?ext))
      ?len (map_reader (device_read rd devices) lm)"
    by (rule reads_cong) (simp add: Let_def)
  ultimately show ?case using IH(2,3) runs st len by (simp add: extents_def distrib_right add.assoc del: lv_byte.simps)
qed


lemma from_metadata_extent: "from_metadata outer = Ok vg \<Longrightarrow> 0 < unat (extent_size vg)"
  by (auto simp: from_metadata_def in_bytes_def word_less_nat_alt split: list.splits prod.splits option.splits if_splits)

lemma best_group_read:
  "best_group rd ds best = Ok (Some vg) \<Longrightarrow> best = Some vg \<or> (\<exists>outer. from_metadata outer = Ok vg)"
proof (induction ds arbitrary: best)
  case (Cons x ds)
  obtain i d where "x = (i, d)" by (cases x)
  then show ?case using Cons by (fastforce simp: group_of_text_def split: option.splits if_splits)
qed simp

lemma read_volume_group_extent: "read_volume_group rd devices = Ok vg \<Longrightarrow> 0 < unat (extent_size vg)"
  using best_group_read from_metadata_extent by (fastforce simp: read_volume_group_def)

text \<open>The runs of a plain volume that opened, and reading a volume whose runs chain up.\<close>

lemma plain_volume_chain:
  assumes "block_reader rd contents invar" and "\<forall>d \<in> set devices. invar d"
    and "read_volume_group rd devices = Ok vg" and "lvm_open rd devices name = Ok lv"
    and "list_all plain (lv_segments (lvol_info lv))"
    and "extents (lv_segments (lvol_info lv)) * unat (extent_size vg) < 2 ^ 64"
  shows "lvol_devices lv = devices"
    and "runs_chain (lv_byte rd contents devices vg (lv_segments (lvol_info lv))) 0
           (map (run_reader (device_read rd devices)) (lvol_runs lv))"
    and "runs_bytes (map (run_reader (device_read rd devices)) (lvol_runs lv)) = unat (lvol_size lv)"
    and "unat (lvol_size lv) = extents (lv_segments (lvol_info lv)) * unat (extent_size vg)"
proof -
  let ?segs = "lv_segments (lvol_info lv)" and ?ext = "unat (extent_size vg)"
  obtain t info runs lvsize where t: "uuid_table rd (enumerate 0 devices) Map.empty = Ok t" and info: "find_lv vg name = Ok info"
    and runs: "map_lv rd \<lparr>mp_vg = vg, mp_uuid_to_dev = t, mp_devices = devices\<rparr> 3 name = Ok (runs, lvsize)"
    and lv: "lv = \<lparr>lvol_devices = devices, lvol_runs = runs, lvol_size = lvsize, lvol_info = info\<rparr>"
    using assms(3,4) by (auto simp: lvm_open_def Let_def)
  define m where "m = \<lparr>mp_vg = vg, mp_uuid_to_dev = t, mp_devices = devices\<rparr>"
  have m: "mp_devices m = devices" "mp_uuid_to_dev m = pv_device rd (enumerate 0 devices)" "mp_vg m = vg"
    using uuid_table_device [OF t] by (auto simp: m_def split: option.splits)
  have segs: "map_segments rd m (map_lv rd m 2) name 0 ?segs = Ok (runs, lvsize)"
    using runs info lv by (simp add: m_def numeral_3_eq_3 numeral_2_eq_2)
  have inv: "invar d" if "d \<in> set devices" for d using that assms(2) by blast
  have "0 < unat (extent_size (mp_vg m))" using read_volume_group_extent [OF assms(3)] m(3) by simp
  note chain = map_segments_chain [OF assms(1) inv m(1,2) this segs assms(5), unfolded m(3)]
  show "lvol_devices lv = devices"
    and "runs_chain (lv_byte rd contents devices vg ?segs) 0 (map (run_reader (device_read rd devices)) (lvol_runs lv))"
    and "runs_bytes (map (run_reader (device_read rd devices)) (lvol_runs lv)) = unat (lvol_size lv)"
    and "unat (lvol_size lv) = extents ?segs * ?ext"
    using chain assms(6) lv by simp_all
qed

lemma chain_volume_read:
  assumes "runs_chain f 0 (map (run_reader (device_read rd (lvol_devices lv))) (lvol_runs lv))"
    and "runs_bytes (map (run_reader (device_read rd (lvol_devices lv))) (lvol_runs lv)) = unat (lvol_size lv)"
    and "unat pos + length buf \<le> unat (lvol_size lv)"
  shows "lvm_read_at rd lv pos buf = Ok (map f [unat pos..<unat pos + length buf])"
proof -
  have "read_through (map (run_reader (device_read rd (lvol_devices lv))) (lvol_runs lv)) pos buf =
      Ok (map f [unat pos..<unat pos + length buf])"
    using assms unat_lt [of "lvol_size lv"] by (intro read_through_ok) simp_all
  then show ?thesis using area_fits_buf [OF assms(3)] by (simp add: lvm_read_at_def read_runs_def Let_def)
qed

text \<open>
  C4: A logical volume of linear and striped segments reads as its metadata describes it.
  When opening it succeeds and its extents fit in 64 bits, its size is that of its segments together and every read
  within it returns, byte for byte, what the physical volumes named by the metadata hold at
  the places its stripes say, whichever order the devices were given in.
\<close>

theorem lvm_striped_read:
  assumes "block_reader rd contents invar" and "\<forall>d \<in> set devices. invar d"
    and "read_volume_group rd devices = Ok vg" and "lvm_open rd devices name = Ok lv"
    and "list_all plain (lv_segments (lvol_info lv))"
    and "extents (lv_segments (lvol_info lv)) * unat (extent_size vg) < 2 ^ 64"
  shows "unat (lvm_size_bytes lv) = extents (lv_segments (lvol_info lv)) * unat (extent_size vg) \<and>
    (unat pos + length buf \<le> unat (lvm_size_bytes lv) \<longrightarrow>
     lvm_read_at rd lv pos buf =
       Ok (map (lv_byte rd contents devices vg (lv_segments (lvol_info lv))) [unat pos..<unat pos + length buf]))"
proof -
  note c = plain_volume_chain [OF assms]
  have "lvm_read_at rd lv pos buf = Ok (map (lv_byte rd contents devices vg (lv_segments (lvol_info lv))) [unat pos..<unat pos + length buf])"
    if "unat pos + length buf \<le> unat (lvol_size lv)"
    by (rule chain_volume_read) (use c(1-3) that in simp_all)
  then show ?thesis using c(4) by (simp add: lvm_size_bytes_def)
qed

section \<open>A sample physical volume\<close>

text \<open>
  A disk with a label, a metadata area whose text describes one volume of one extent, and that
  extent: half sevens, half nines.
\<close>

definition disk_metadata :: lvm_section where
  "disk_metadata = [(ustr ''vg0'', VSection
     [(ustr ''id'', VStr (ustr ''g'')), (ustr ''seqno'', VInt 1), (ustr ''extent_size'', VInt 1),
      (ustr ''physical_volumes'', VSection [(ustr ''pv0'', VSection
         [(ustr ''id'', VStr (replicate 32 97)), (ustr ''pe_start'', VInt 4), (ustr ''pe_count'', VInt 1)])]),
      (ustr ''logical_volumes'', VSection [(ustr ''lv0'', VSection [(ustr ''segment1'', VSection
         [(ustr ''start_extent'', VInt 0), (ustr ''extent_count'', VInt 1), (ustr ''type'', VStr (ustr ''striped'')),
          (ustr ''stripe_count'', VInt 1), (ustr ''stripes'', VList [VStr (ustr ''pv0''), VInt 0])])])])])]"

definition disk_text :: "u8 list" where
  "disk_text = print_section disk_metadata"

definition disk_label :: "u8 list" where
  "disk_label =
     (let body = le32_bytes 32 @ LABEL_TYPE @ replicate 32 97 @ le64_bytes 2560
            @ le64_bytes 2048 @ le64_bytes 0 @ replicate 16 0 @ le64_bytes 512 @ le64_bytes 1536 @ replicate 16 0 @ replicate 376 0
      in LABEL_ID @ le64_bytes 0 @ le32_bytes (lvm_crc body) @ body)"

definition disk_area :: "u8 list" where
  "disk_area =
     (let body = MDA_MAGIC @ replicate 20 0 @ le64_bytes 512 @ le64_bytes (of_nat (length disk_text))
            @ le32_bytes (lvm_crc disk_text) @ le32_bytes 0 @ replicate 448 0
      in le32_bytes (lvm_crc body) @ body)"

definition disk :: "u8 list" where
  "disk = disk_label @ disk_area @ disk_text @ replicate (1024 - length disk_text) 0 @ replicate 256 7 @ replicate 256 9"

lemma length_disk_text: "length disk_text = 228"
  by (simp add: disk_text_def print_section_def disk_metadata_def ustr_def print_int_def bstr_def show_nat_def show_base.simps as_bytes_def utf8_char_def escape_def digit_char_def)

lemma disk_text_ascii: "list_all (\<lambda>b. b < 0x80 \<and> b \<noteq> 0) disk_text"
  by (simp add: disk_text_def print_section_def disk_metadata_def ustr_def print_int_def bstr_def show_nat_def show_base.simps as_bytes_def utf8_char_def escape_def digit_char_def list_all_iff)


lemma length_disk_parts [simp]: "length disk_label = 512" "length disk_area = 512"
  by (simp_all add: disk_label_def disk_area_def Let_def LABEL_ID_def LABEL_TYPE_def MDA_MAGIC_def bstr_def)

lemma length_disk [simp]: "length disk = 2560"
  by (simp add: disk_def length_disk_text)

lemma disk_slices: "slice_of 0 512 disk = disk_label" "slice_of 512 512 disk = disk_area" "slice_of 1024 228 disk = disk_text"
  by (simp_all add: disk_def slice_of_def length_disk_text)

text \<open>A device, of any kind, that shows the disk's bytes.\<close>

definition shows_disk :: "('d, 'x) block_read_scheme \<Rightarrow> 'd \<Rightarrow> bool" where
  "shows_disk rd d \<longleftrightarrow> size_bytes rd d = 2560 \<and> read_at rd d 0 512 = Ok disk_label \<and>
     read_at rd d 512 512 = Ok disk_area \<and> read_at rd d 1024 228 = Ok disk_text"

lemma contents_show_disk:
  assumes "block_reader rd contents invar" and "invar d" and "contents d = disk"
  shows "shows_disk rd d"
proof -
  have "unat (size_bytes rd d) = 2560" using block_reader.size_contents [OF assms(1,2)] assms(3) by simp
  then have "size_bytes rd d = 2560" by (simp add: word_unat_eq_iff)
  then show ?thesis using block_reader.read_within [OF assms(1,2)] assms(3) by (simp add: shows_disk_def disk_slices)
qed

definition disk_pv :: pv_label where
  "disk_pv = \<lparr>label_sector = 0, label_uuid = replicate 32 97, device_size = 2560, data_areas = [(2048, 0)],
     metadata_areas = [(512, 1536)]\<rparr>"

lemma from_le_zeros: "from_le (replicate n 0) = 0"
  by (induction n) auto

lemma disk_label_at:
  "take 8 disk_label = LABEL_ID" "le64 disk_label 8 = 0" "lvm_crc (drop 20 disk_label) = le32 disk_label 16"
  "slice_of 24 8 disk_label = LABEL_TYPE" "le32 disk_label 20 = 32" "slice_of 32 32 disk_label = replicate 32 97"
  "le64 disk_label 64 = 2560" "le64 disk_label 72 = 2048" "le64 disk_label 80 = 0" "le64 disk_label 88 = 0" 
  "le64 disk_label 104 = 512" "le64 disk_label 112 = 1536" "le64 disk_label 120 = 0"
  by (simp_all add: disk_label_def Let_def LABEL_ID_def LABEL_TYPE_def bstr_def le32_def le64_def slice_of_def from_le_zeros)

lemma disk_labelled: "shows_disk rd d \<Longrightarrow> read_pv_label_of rd d i = Ok (Some disk_pv)"
proof -
  have a: "area_list disk_label 72 = Ok ([(2048, 0)], 104)" "area_list disk_label 104 = Ok ([(512, 1536)], 136)"
    by (simp_all add: area_list.simps [of _ 72] area_list.simps [of _ 88] area_list.simps [of _ 104] area_list.simps [of _ 120] disk_label_at)
  have "from_utf8_lossy (replicate 32 97) = map ucast (replicate 32 97 :: u8 list)" by (rule from_utf8_lossy_ascii) (simp add: list_all_iff)
  then have "parse_label disk_label 0 i = Ok disk_pv"
    by (simp add: parse_label_def disk_label_at a disk_pv_def)
  moreover have "[0..<4] = [0, 1, 2, 3 :: nat]" by (simp add: upt_rec)
  ultimately show "shows_disk rd d \<Longrightarrow> ?thesis" by (simp add: shows_disk_def read_pv_label_of_def disk_label_at)
qed


lemma disk_area_at:
  "lvm_crc (drop 4 disk_area) = le32 disk_area 0" "slice_of 4 16 disk_area = MDA_MAGIC" "le64 disk_area 40 = 512"
  "le64 disk_area 48 = 228" "le32 disk_area 60 = 0" "le32 disk_area 56 = lvm_crc disk_text"
  by (simp_all add: disk_area_def Let_def MDA_MAGIC_def bstr_def le32_def le64_def slice_of_def length_disk_text)

lemma disk_area_text: "shows_disk rd d \<Longrightarrow> read_area rd d 512 1536 i = Ok (Some (map ucast disk_text))"
proof -
  have tw: "takeWhile (\<lambda>b. b \<noteq> 0) disk_text = disk_text" using disk_text_ascii by (simp add: takeWhile_eq_all_conv list_all_iff)
  have "from_utf8_lossy disk_text = map ucast disk_text"
    using disk_text_ascii by (intro from_utf8_lossy_ascii) (simp add: list_all_iff)
  then show "shows_disk rd d \<Longrightarrow> ?thesis"
    by (simp add: shows_disk_def read_area_def disk_area_at checked_add_def Let_def tw)
qed

lemma as_bytes_ascii: "list_all (\<lambda>b. b < 0x80) bs \<Longrightarrow> as_bytes (map ucast bs) = bs"
proof (induction bs)
  case (Cons b bs)
  then have "unat b < 128" by (simp add: word_less_nat_alt)
  then have "unat (ucast b :: u32) = unat b" "unat (ucast b :: u32) < 128" by (simp_all add: unat_ucast)
  then show ?case using Cons by (simp add: as_bytes_def utf8_char_def Let_def)
qed (simp add: as_bytes_def)

definition disk_group :: volume_group where
  "disk_group = \<lparr>vg_name = ustr ''vg0'', vg_id = ustr ''g'', vg_seqno = 1, extent_size = 512,
     physical_volumes = [\<lparr>pv_name = ustr ''pv0'', pv_uuid = replicate 32 97, pe_start = 2048, pe_count = 1\<rparr>],
     logical_volumes = [\<lparr>lv_name = ustr ''lv0'', lv_id = [],
       lv_segments = [\<lparr>start_extent = 0, extent_count = 1, seg_kind = ustr ''striped'', stripe_size = 0,
         seg_stripes = [\<lparr>stripe_pv = ustr ''pv0'', stripe_start = 0\<rparr>], seg_images = [], seg_metadata = [],
         thin_pool = None, device_id = None, external_origin = None\<rparr>]\<rparr>]\<rparr>"

lemma disk_metadata_group: "from_metadata disk_metadata = Ok disk_group"
  by (simp add: disk_metadata_def disk_group_def from_metadata_def sec_sections_def List.map_filter_simps sec_uint_def
      sec_int_def sec_get_def sec_str_def sec_section_def in_bytes_def checked_mul_def ustr_def physical_volume_of_def
      logical_volume_of_def segment_of_def segment_stripes_def segment_images_def get_list_def stripe_pair_def starts_with_def
      result_ok_def)

lemma disk_text_group: "group_of_text (map ucast disk_text) = Ok disk_group"
proof -
  have "section_ok 1 disk_metadata"
    by (simp add: disk_metadata_def section_ok_def key_ok_def ustr_def is_ident_byte_def is_digit_def is_scalar_def bstr_def list_all_iff)
  then have "parse_bytes disk_text = Ok disk_metadata" unfolding disk_text_def by (rule parse_print_section)
  moreover have "as_bytes (map ucast disk_text) = disk_text"
    using disk_text_ascii by (intro as_bytes_ascii) (simp add: list_all_iff)
  ultimately show ?thesis by (simp add: group_of_text_def parse_metadata_def disk_metadata_group)
qed

lemma disk_volume_group:
  assumes "shows_disk rd d"
  shows "read_volume_group rd [d] = Ok disk_group"
proof -
  have "read_metadata_text_of rd d disk_pv 0 = Ok (Some (map ucast disk_text))"
    using assms by (simp add: read_metadata_text_of_def disk_pv_def disk_area_text disk_text_group)
  then show ?thesis using assms by (simp add: read_volume_group_def disk_labelled disk_text_group)
qed

definition disk_lv :: "'d \<Rightarrow> 'd logical_volume" where
  "disk_lv d = \<lparr>lvol_devices = [d], lvol_runs = [Run 0 512 (Striped 0 [(0, 2048)])], lvol_size = 512,
     lvol_info = hd (logical_volumes disk_group)\<rparr>"

lemma disk_opens: "shows_disk rd d \<Longrightarrow> lvm_open rd [d] (ustr ''lv0'') = Ok (disk_lv d)"
  by (simp add: lvm_open_def disk_volume_group disk_labelled Let_def find_lv_def disk_group_def disk_lv_def numeral_3_eq_3
      map_segment_def map_striped_def map_stripe_def checked_add_def checked_mul_def is_multiple_of_def disk_pv_def)
    (simp add: shows_disk_def)

lemma disk_lv_plain:
  "list_all plain (lv_segments (lvol_info (disk_lv d)))"
  "extents (lv_segments (lvol_info (disk_lv d))) * unat (extent_size disk_group) = 512"
  by (simp_all add: disk_lv_def disk_group_def plain_def extents_def)

text \<open>Byte \<open>x\<close> of the volume is byte \<open>2048 + x\<close> of the device.\<close>

lemma disk_lv_byte:
  assumes "shows_disk rd d" and "x < 512"
  shows "lv_byte rd contents [d] disk_group (lv_segments (lvol_info (disk_lv d))) x = contents d ! (2048 + x)"
proof -
  have "pv_device rd (enumerate 0 [d]) (replicate 32 97) = Some 0"
    using disk_labelled [OF assms(1)] by (simp add: pv_device_def disk_pv_def)
  then show ?thesis using assms(2) by (simp add: disk_lv_def disk_group_def seg_byte_def stripe_place_def)
qed

lemma disk_nth: "disk ! 2303 = 7" "disk ! 2304 = 9"
  by (simp_all add: disk_def nth_append length_disk_text)

theorem lvm_striped_read_witness: "lvm_read_at memdev (disk_lv disk) 255 [0, 0] = Ok [7, 9]"
proof -
  have inv: "\<forall>d \<in> set [disk]. memdev_invar d" by (simp add: memdev_invar_def)
  then have sd: "shows_disk memdev disk" using contents_show_disk [OF memdev.block_reader_axioms] by simp
  from lvm_striped_read [OF memdev.block_reader_axioms inv disk_volume_group [OF sd] disk_opens [OF sd], of 255 "[0, 0]"]
  have "lvm_read_at memdev (disk_lv disk) 255 [0, 0] =
      Ok (map (lv_byte memdev (\<lambda>b. b) [disk] disk_group (lv_segments (lvol_info (disk_lv disk)))) [255..<257])"
    by (simp add: disk_lv_plain lvm_size_bytes_def)
  then show ?thesis by (simp add: upt_rec disk_lv_byte [OF sd] disk_nth)
qed

section \<open>Segments of raid images\<close>

text \<open>What a raid segment that was accepted is: enough images for its level, and enough of them present.\<close>

lemma raid_of_super_Ok:
  assumes "raid_of_super name sb images gone = Ok (Raid level r10 layout chunk doff imgs)"
  shows "imgs = images" and "level = 1 \<or> level = 5 \<or> level = 6 \<or> level = 10" and "level \<noteq> 10 \<longrightarrow> r10 = None"
    and "layout = dm_layout sb" and "chunk = dm_chunk sb" and "doff = dm_data_offset sb"
    and "level \<noteq> 1 \<Longrightarrow> 0 < unat chunk" and "level = 5 \<or> level = 6 \<Longrightarrow> parity_count level < length images"
    and "survives level r10 images"
  using assms
  by (auto simp: raid_of_super_def Let_def level_parity_def parity_count_def unat_gt_0 split: if_splits)

lemma missing_card: "card {s. s < length images \<and> images ! s = None} = length (filter (\<lambda>i. i = None) images)"
  using length_filter_conv_card [of "\<lambda>i. i = None" images] by simp

lemma image_member_runs:
  assumes "slot < length images"
  shows "image_member doff (map (map_option (map (run_reader (device_read rd devices)))) images) slot off b =
    (case images ! slot of Some runs \<Rightarrow> map_ok Some (read_runs rd devices runs (doff + off) b) | None \<Rightarrow> Ok None)"
  using assms by (simp add: image_member_def read_runs_def split: option.splits)

text \<open>A volume of one run reads what the run's map reads.\<close>

lemma read_one_run:
  assumes "reads f (unat len) (map_reader (device_read rd devices) lm)" and "unat pos + length buf \<le> unat len"
  shows "read_runs rd devices [Run 0 len lm] pos buf = Ok (map f [unat pos..<unat pos + length buf])"
  using assms unat_lt [of len] unfolding read_runs_def by (intro read_through_ok) simp_all

text \<open>
  C13: A raid4, raid5 or raid6 segment reads as the md array of its shape. Take any array with
  the level, layout and chunk size its superblock gives and as many members as it has images,
  and let each image that is present hold its member's part of a content whose rows parity
  protects. Then, once the segment was accepted, a read within it returns the array's bytes,
  with the images of physical volumes that were not given rebuilt: one, or two at raid6, which
  needs a layout md knows and at most 255 images.
\<close>

theorem lvm_parity_read:
  assumes "raid_of_super name sb images gone = Ok (Raid level r10 layout chunk doff images)"
    and "level = 5 \<or> level = 6"
    and "a_level a = level" and "a_layout a = layout" and "a_chunk a = chunk" and "a_raid10 a = None"
    and "length (a_slots a) = length images" and "length images < 2 ^ 64"
    and "level = 6 \<Longrightarrow> raid6_layout_known layout \<and> length images \<le> 255"
    and "\<And>slot runs off b. slot < length images \<Longrightarrow> images ! slot = Some runs \<Longrightarrow> unat off + length b \<le> span \<Longrightarrow>
      read_runs rd devices runs (doff + off) b = Ok (map (img slot) [unat off..<unat off + length b])"
    and "\<And>off. off < span div unat chunk * unat chunk \<Longrightarrow> parity_row_ok a img off" and "span < 2 ^ 64"
    and "unat len \<le> span div unat chunk * unat chunk * (length images - parity_count level)"
    and "unat pos + length buf \<le> unat len"
  shows "read_runs rd devices [Run 0 len (Raid level r10 layout chunk doff images)] pos buf =
    Ok (map (parity_byte a img) [unat pos..<unat pos + length buf])"
proof (rule read_one_run [OF _ assms(14)])
  note ok = raid_of_super_Ok [OF assms(1)]
  let ?images = "map (map_option (map (run_reader (device_read rd devices)))) images"
  have few: "card {s. s < length (a_slots a) \<and> \<not> images ! s \<noteq> None} \<le> parity_count (a_level a)"
    using ok(9) assms(2,3,7) missing_card [of images] by (auto simp: survives_def parity_count_def Let_def)
  have member: "image_member doff ?images slot off b =
      Ok (if images ! slot \<noteq> None then Some (map (img slot) [unat off..<unat off + length b]) else None)"
    if "slot < length (a_slots a)" "unat off + length b \<le> span" for slot off b
    using that assms(7) assms(10) [of slot _ off b] by (auto simp: image_member_runs split: option.splits)
  have st: "\<lparr>st_level = level, st_layout = layout, st_chunk = chunk, st_members = of_nat (length images), st_raid10 = r10\<rparr> = striping_of a"
    using assms(2-7) ok(3) by (auto simp: striping_of_def)
  show "reads (parity_byte a img) (unat len) (map_reader (device_read rd devices) (Raid level r10 layout chunk doff images))"
    unfolding reads_def
  proof (intro conjI allI impI)
    fix p :: u64 and b :: "u8 list"
    assume b: "b \<noteq> []" and fit: "unat p + length b \<le> unat len"
    have "\<exists>k. 0 < k \<and> k \<le> length b \<and>
      read_chunk (striping_of a) (image_member doff ?images) (p div a_chunk a) (p mod a_chunk a)
        (take (min (unat (a_chunk a - p mod a_chunk a)) (length b)) b) = Ok (map (parity_byte a img) [unat p..<unat p + k])"
    proof (rule parity_chunk [OF _ assms(6) _ _ _ _ few member])
      show "unat p < span div unat (a_chunk a) * unat (a_chunk a) * (length (a_slots a) - parity_count (a_level a))"
        using fit b assms(3,5,7,13) by (cases b) simp_all
    qed (use assms ok b in auto)
    then show "\<exists>n. 0 < n \<and> n \<le> length b \<and> map_reader (device_read rd devices) (Raid level r10 layout chunk doff images) p b
        = Ok (map (parity_byte a img) [unat p..<unat p + n])"
      using assms(2,5) st by (auto simp: raid_piece_def Let_def)
  qed (use unat_lt [of len] in simp)
qed


text \<open>The segment of \<open>raid5_pair\<close>, its second image on a volume that was not given.\<close>

definition pair_images :: "run list option list" where
  "pair_images = [Some [Run 0 512 (Striped 0 [(0, 0)])], None, Some [Run 0 512 (Striped 0 [(1, 0)])]]"

lemma whole_device_reads:
  assumes "d < length devices" and "length (devices ! d) < 2 ^ 64" and "unat off + length b \<le> length (devices ! d)"
  shows "read_runs memdev devices [Run 0 (of_nat (length (devices ! d))) (Striped 0 [(d, 0)])] off b =
    Ok (map (\<lambda>i. devices ! d ! i) [unat off..<unat off + length b])"
proof (rule read_one_run)
  have u: "unat (of_nat (length (devices ! d)) :: u64) = length (devices ! d)" using assms(2) by (rule unat_of_nat_small)
  have "reads (striped_byte (\<lambda>b. b) devices [(d, 0)] (unat (0 :: u64))) (length [(d, 0 :: u64)] * length (devices ! d))
      (striped_piece (device_read memdev devices) 0 [(d, 0)])"
    using assms by (intro striped_reads [OF memdev.block_reader_axioms]) (auto simp: memdev_invar_def)
  then show "reads (\<lambda>i. devices ! d ! i) (unat (of_nat (length (devices ! d)) :: u64)) (map_reader (device_read memdev devices) (Striped 0 [(d, 0)]))"
    using u by (simp add: striped_byte_def [abs_def] stripe_place_def)
  show "unat off + length b \<le> unat (of_nat (length (devices ! d)) :: u64)" using u assms(3) by simp
qed

theorem lvm_parity_read_witness:
  "read_runs memdev [replicate 512 1, replicate 512 3] [Run 0 1024 (Raid 5 None 2 512 0 pair_images)] 510 (replicate 4 0) = Ok [1, 1, 2, 2]"
proof -
  let ?img = "\<lambda>slot (off :: nat). [1, 2, 3 :: u8] ! slot" and ?devices = "[replicate 512 1, replicate 512 3] :: u8 list list"
  have "read_runs memdev ?devices [Run 0 1024 (Raid 5 None 2 512 0 pair_images)] 510 (replicate 4 0) =
      Ok (map (parity_byte raid5_pair ?img) [unat (510 :: u64)..<unat (510 :: u64) + length (replicate 4 (0 :: u8))])"
  proof (rule lvm_parity_read [where span = 512 and a = raid5_pair and images = pair_images])
    show "raid_of_super [] \<lparr>dm_level = 5, dm_layout = 2, dm_chunk = 512, dm_data_offset = 0\<rparr> pair_images None =
        Ok (Raid 5 None 2 512 0 pair_images)"
      by (simp add: raid_of_super_def level_parity_def survives_def pair_images_def)
    show "read_runs memdev ?devices runs (0 + off) b = Ok (map (?img slot) [unat off..<unat off + length b])"
      if "slot < length pair_images" "pair_images ! slot = Some runs" "unat off + length b \<le> 512" for slot runs off b
    proof -
      have "slot = 0 \<or> slot = 2" using that by (auto simp: pair_images_def less_Suc_eq numeral_3_eq_3)
      then show ?thesis
        using that(2,3) whole_device_reads [of 0 ?devices off b] whole_device_reads [of 1 ?devices off b]
        by (auto simp: pair_images_def intro!: map_cong)
    qed
    show "parity_row_ok raid5_pair ?img off" for off
      by (simp add: parity_row_ok_def raid5_pair_def upt_rec numeral_3_eq_3)
  qed (simp_all add: raid5_pair_def pair_images_def parity_count_def)
  also have "map (parity_byte raid5_pair ?img) [unat (510 :: u64)..<unat (510 :: u64) + length (replicate 4 (0 :: u8))] = [1, 1, 2, 2]"
    by (simp add: upt_rec parity_byte_def raid5_pair_def parity_count_def data_slot_def parity_layout_def parity_map_def Let_def)
  finally show ?thesis .
qed

lemma raid6_kind:
  assumes "starts_with kind ''raid6''"
  shows "kind \<noteq> ustr ''striped''" and "kind \<noteq> ustr ''thin''" and "kind \<noteq> ustr ''thin-pool''" and "kind \<noteq> ustr ''mirror''"
  using assms by (auto simp: starts_with_def ustr_def)

lemma raid6_row_panics:
  assumes "\<not> raid6_layout_known layout" and "buf \<noteq> []" and "pos < len"
  shows "read_runs rd devices [Run 0 len (Raid 6 None layout chunk doff images)] pos buf =
    Err (Panicked ''internal error: entered unreachable code'')"
proof -
  have "layout \<notin> {0, 1, 2, 3, 4, 5, 8, 9, 10, 16, 17, 18, 19, 20}" using assms(1) by (auto simp: raid6_layout_known_def)
  then have "raid6_map layout n stripe i = None" for n stripe i by (simp add: raid6_map_def Let_def)
  then have "parity_map 6 layout n stripe i = None" for n stripe i by (simp add: parity_map_def)
  then show ?thesis using assms(2,3)
    by (simp add: read_runs_def read_through_def read_pieces.simps run_piece_def raid_piece_def Let_def read_chunk_def)
qed

text \<open>
  C30: A raid6 volume whose dm-raid superblock names a layout md does not know is opened, and
  every read of it panics: unlike an md array's, its layout is not checked before the row is
  computed. Let a volume of the group be one raid6 segment, with as many metadata sub-volumes as
  images, more than two of them and no more than two missing; let its superblock say level 6, a
  chunk that is not empty and a layout that is not known. Then \<open>Mapper::map\<close>, which is all that is
  left of opening the volume, resolves it to its full length, and reading any byte of it reaches the
  \<open>unreachable!\<close> of \<open>raid6_map\<close>.
\<close>

theorem lvm_raid6_layout_unchecked:
  assumes "find_lv (mp_vg m) name = Ok info" and "lv_segments info = [seg]" and "start_extent seg = 0"
    and "checked_mul (extent_count seg) (extent_size (mp_vg m)) = Some len"
    and "starts_with (seg_kind seg) ''raid6''" and "length (seg_metadata seg) = length (seg_images seg)"
    and "images_of (map_lv rd m levels) seg = Ok (images, gone)"
    and "first_super rd (mp_devices m) (map_lv rd m levels) (seg_metadata seg) None = Ok sb"
    and "dm_level sb = 6" and "\<not> raid6_layout_known (dm_layout sb)" and "dm_chunk sb \<noteq> 0"
    and "2 < length images" and "survives 6 None images" and "buf \<noteq> []" and "pos < len"
  shows "\<exists>runs. map_lv rd m (Suc levels) name = Ok (runs, len) \<and>
    read_runs rd (mp_devices m) runs pos buf = Err (Panicked ''internal error: entered unreachable code'')"
proof -
  let ?map = "Raid 6 None (dm_layout sb) (dm_chunk sb) (dm_data_offset sb) images"
  have "raid_of_super name sb images gone = Ok ?map"
    using assms(9,11-13) by (simp add: raid_of_super_def level_parity_def)
  then have "map_segment rd m (map_lv rd m levels) name seg = Ok ?map"
    using assms(5-8) raid6_kind [OF assms(5)] by (simp add: map_segment_def map_raid_def)
  moreover have "extent_count seg * extent_size (mp_vg m) = len"
    using assms(4) by (simp add: checked_mul_def split: if_splits)
  ultimately have "map_lv rd m (Suc levels) name = Ok ([Run 0 len ?map], len)"
    using assms(1-4) by simp
  then show ?thesis using raid6_row_panics [OF assms(10,14,15)] by blast
qed

text \<open>
  A group on one device: a sub-volume of one extent that begins with a dm-raid superblock of level
  6 and layout 6, and a volume that has it for each of its three images.
\<close>

definition odd_super :: "u8 list" where
  "odd_super = le32_bytes DM_RAID_MAGIC @ replicate 44 0 @ le32_bytes 6 @ le32_bytes 6 @ le32_bytes 1 @ replicate 452 0"

definition odd_segment :: segment where
  "odd_segment = \<lparr>start_extent = 0, extent_count = 1, seg_kind = ustr ''raid6_zr'', stripe_size = 0, seg_stripes = [],
     seg_images = replicate 3 (ustr ''s''), seg_metadata = replicate 3 (ustr ''s''),
     thin_pool = None, device_id = None, external_origin = None\<rparr>"

definition odd_mapper :: "u8 list mapper" where
  "odd_mapper = \<lparr>mp_vg = \<lparr>vg_name = ustr ''vg0'', vg_id = ustr ''g'', vg_seqno = 1, extent_size = 512,
       physical_volumes = [\<lparr>pv_name = ustr ''pv0'', pv_uuid = ustr ''u'', pe_start = 0, pe_count = 1\<rparr>],
       logical_volumes =
         [\<lparr>lv_name = ustr ''lv0'', lv_id = [], lv_segments = [odd_segment]\<rparr>,
          \<lparr>lv_name = ustr ''s'', lv_id = [], lv_segments = [odd_segment\<lparr>seg_kind := ustr ''striped'', seg_images := [],
             seg_metadata := [], seg_stripes := [\<lparr>stripe_pv = ustr ''pv0'', stripe_start = 0\<rparr>]\<rparr>]\<rparr>]\<rparr>,
     mp_uuid_to_dev = [ustr ''u'' \<mapsto> 0], mp_devices = [odd_super]\<rparr>"

lemma odd_super_at:
  "length odd_super = 512" "le32 (take 120 odd_super) 0 = DM_RAID_MAGIC" "le32 (take 120 odd_super) 4 = 0"
  "le32 (take 120 odd_super) 48 = 6" "le32 (take 120 odd_super) 52 = 6" "le32 (take 120 odd_super) 56 = 1"
  by (simp_all add: odd_super_def le32_def slice_of_def from_le_zeros)

lemma map_nth_take: "n \<le> length xs \<Longrightarrow> map ((!) xs) [0..<n] = take n xs"
  by (intro nth_equalityI) simp_all

lemma odd_sub: "map_lv memdev odd_mapper (Suc (Suc 0)) (ustr ''s'') = Ok ([Run 0 512 (Striped 0 [(0, 0)])], 512)"
proof -
  have f: "find_lv (mp_vg odd_mapper) (ustr ''s'') = Ok \<lparr>lv_name = ustr ''s'', lv_id = [],
      lv_segments = [odd_segment\<lparr>seg_kind := ustr ''striped'', seg_images := [],
        seg_metadata := [], seg_stripes := [\<lparr>stripe_pv = ustr ''pv0'', stripe_start = 0\<rparr>]\<rparr>]\<rparr>"
    by (simp add: odd_mapper_def find_lv_def ustr_def)
  show ?thesis
    by (simp add: f odd_segment_def map_segment_def map_striped_def)
      (simp add: odd_mapper_def map_stripe_def checked_add_def checked_mul_def is_multiple_of_def odd_super_at)
qed

lemma odd_super_read:
  "parse_dm_raid_super (take 120 odd_super) what = Ok \<lparr>dm_level = 6, dm_layout = 6, dm_chunk = 512, dm_data_offset = 0\<rparr>"
  by (simp add: parse_dm_raid_super_def odd_super_at checked_mul_def i32_def)

theorem lvm_raid6_layout_unchecked_witness:
  "\<exists>runs. map_lv memdev odd_mapper 3 (ustr ''lv0'') = Ok (runs, 512) \<and>
    read_runs memdev (mp_devices odd_mapper) runs 0 [0] = Err (Panicked ''internal error: entered unreachable code'')"
proof -
  let ?runs = "[Run 0 512 (Striped 0 [(0, 0)])]" and ?info = "\<lparr>lv_name = ustr ''lv0'', lv_id = [], lv_segments = [odd_segment]\<rparr>"
  have "read_runs memdev [odd_super] ?runs 0 (replicate 120 0) = Ok (take 120 odd_super)"
    using whole_device_reads [of 0 "[odd_super]" 0 "replicate 120 0"] by (simp add: odd_super_at map_nth_take)
  then have sb: "first_super memdev (mp_devices odd_mapper) (map_lv memdev odd_mapper (Suc (Suc 0))) (seg_metadata odd_segment) None
      = Ok \<lparr>dm_level = 6, dm_layout = 6, dm_chunk = 512, dm_data_offset = 0\<rparr>"
    using odd_sub by (simp add: odd_segment_def odd_mapper_def odd_super_read numeral_3_eq_3 del: map_lv.simps)
  have im: "images_of (map_lv memdev odd_mapper (Suc (Suc 0))) odd_segment = Ok (replicate 3 (Some ?runs), None)"
    using odd_sub by (simp add: images_of_def odd_segment_def numeral_3_eq_3 del: map_lv.simps)
  have "find_lv (mp_vg odd_mapper) (ustr ''lv0'') = Ok ?info" by (simp add: odd_mapper_def find_lv_def ustr_def)
  from lvm_raid6_layout_unchecked [OF this _ _ _ _ _ im sb, of 512 "[0]" 0] show ?thesis
    by (simp add: odd_segment_def odd_mapper_def checked_mul_def starts_with_def ustr_def raid6_layout_known_def survives_def
        numeral_3_eq_3 del: map_lv.simps)
qed

section \<open>Mirrors\<close>

lemma try_images_ok:
  assumes "\<forall>s \<in> set slots. member s within buf \<in> {Ok None, Ok (Some bs)} \<union> range Err"
    and "\<exists>s \<in> set slots. member s within buf = Ok (Some bs)"
  shows "try_images member within buf failed slots = Ok bs"
  using assms by (induction slots arbitrary: failed) (auto split: sum.splits option.splits)

text \<open>
  A raid1 or mirror segment survives images that are gone or cannot be read. When every
  image that is present returns either the same bytes or an error for a range, and one of them
  returns the bytes, so does the segment, whatever the images before it did.
\<close>

theorem lvm_mirror_read:
  assumes "\<forall>slot runs. slot < length images \<longrightarrow> images ! slot = Some runs \<longrightarrow>
      read_runs rd devices runs (doff + pos) buf \<in> insert (Ok bs) (range Err)"
    and "slot < length images" and "images ! slot = Some runs" and "read_runs rd devices runs (doff + pos) buf = Ok bs"
    and "length bs = length buf" and "buf \<noteq> []" and "unat pos + length buf \<le> unat len"
  shows "read_runs rd devices [Run 0 len (Raid 1 r10 layout chunk doff images)] pos buf = Ok bs"
proof -
  let ?member = "image_member doff (map (map_option (map (run_reader (device_read rd devices)))) images)"
  have "try_images ?member pos buf failed [0..<length images] = Ok bs" for failed
  proof (rule try_images_ok)
    show "\<forall>s \<in> set [0..<length images]. ?member s pos buf \<in> {Ok None, Ok (Some bs)} \<union> range Err"
      using assms(1) by (force simp: image_member_runs split: option.splits)
    show "\<exists>s \<in> set [0..<length images]. ?member s pos buf = Ok (Some bs)"
      using assms(2-4) by (intro bexI [of _ slot]) (simp_all add: image_member_runs)
  qed
  moreover have "pos < len" using assms(6,7) by (cases buf) (auto simp: word_less_nat_alt)
  moreover have "take (unat (len - pos)) buf = buf"
    using assms(7) \<open>pos < len\<close> by (simp add: unat_sub word_le_nat_alt)
  moreover have "bs \<noteq> []" using assms(5,6) by auto
  ultimately show ?thesis using assms(5,6)
    by (simp add: read_runs_def read_through_def read_pieces.simps [of _ pos] read_pieces.simps [of _ _ "[]"] run_piece_def raid_piece_def)
qed

theorem lvm_mirror_read_witness:
  "read_runs memdev [replicate 512 3]
     [Run 0 512 (Raid 1 None 0 0 0 [None, Some [Run 0 512 (Striped 0 [(0, 512)])], Some [Run 0 512 (Striped 0 [(0, 0)])]])] 100 [0, 0] = Ok [3, 3]"
proof (rule lvm_mirror_read [where slot = 2 and runs = "[Run 0 512 (Striped 0 [(0, 0)])]"])
  have *: "read_runs memdev [replicate 512 3] [Run 0 512 (Striped 0 [(0, 0)])] 100 [0, 0] = Ok [3, 3]"
    using whole_device_reads [of 0 "[replicate 512 3]" 100 "[0, 0]"] by (simp add: upt_rec)
  then show "read_runs memdev [replicate 512 3] [Run 0 512 (Striped 0 [(0, 0)])] (0 + 100) [0, 0] = Ok [3, 3]" by simp
  have "read_runs memdev [replicate 512 3] [Run 0 512 (Striped 0 [(0, 512)])] 100 [0, 0] = Err (ShortRead 612 2 0)"
    by (simp add: read_runs_def read_through_def read_pieces.simps run_piece_def striped_piece_def device_read_def memdev_read_def)
  with * show "\<forall>slot runs. slot < length [None, Some [Run 0 512 (Striped 0 [(0, 512)])], Some [Run 0 512 (Striped 0 [(0, 0)])]] \<longrightarrow>
      [None, Some [Run 0 512 (Striped 0 [(0, 512)])], Some [Run 0 512 (Striped 0 [(0, 0)])]] ! slot = Some runs \<longrightarrow>
      read_runs memdev [replicate 512 3] runs (0 + 100) [0, 0] \<in> insert (Ok [3, 3]) (range Err)"
    by (auto simp: less_Suc_eq numeral_3_eq_3)
qed simp_all

section \<open>Thin volumes\<close>

text \<open>Byte \<open>x\<close> of a thin volume: that of the data block its block is mapped to, or zero.\<close>

definition thin_byte :: "nat \<Rightarrow> thin_tree \<Rightarrow> (nat \<Rightarrow> u8) \<Rightarrow> nat \<Rightarrow> u8" where
  "thin_byte block t g x =
     (case map_of (entries t) (of_nat (x div block)) of
        None \<Rightarrow> 0
      | Some v \<Rightarrow> g (unat v div 2 ^ 24 * block + x mod block))"


lemma thin_reads:
  assumes b: "0 < unat block" and t: "stored (read_through meta) root t" "tree_ok t" "height t \<le> 16"
    and data: "\<And>off b. unat off + length b \<le> dlen \<Longrightarrow> read_through data off b = Ok (map g [unat off..<unat off + length b])"
    and blocks: "\<And>k v. (k, v) \<in> set (entries t) \<Longrightarrow> (unat v div 2 ^ 24 + 1) * unat block \<le> dlen"
    and len: "dlen < 2 ^ 64" "len < 2 ^ 64"
  shows "reads (thin_byte (unat block) t g) len (thin_piece block root meta data)"
  unfolding reads_def
proof (intro conjI allI impI)
  fix pos :: u64 and buf :: "u8 list"
  assume buf: "buf \<noteq> []"
  let ?b = "unat block" and ?x = "unat pos"
  define m where "m = min (unat (block - pos mod block)) (length buf)"
  have bz: "block \<noteq> 0" using b by auto
  have w: "?x mod ?b < ?b" using b by simp
  have m: "0 < m" "m \<le> length buf" "?x mod ?b + m \<le> ?b" using buf w unat_within [OF bz, of pos] by (auto simp: m_def)
  have vb: "pos div block = of_nat (?x div ?b)"
  proof -
    have "pos div block = of_nat (unat (pos div block))" by simp
    then show ?thesis by (simp only: unat_div_distrib)
  qed
  let ?e = "map_of (entries t) (of_nat (?x div ?b))"
  have look: "data_block (read_through meta) root (pos div block) = Ok (map_option (drop_bit 24) ?e)"
    using lookup_from_stored [OF t, of root "pos div block"]
    by (simp add: data_block_def thin_lookup_def MAX_DEPTH_def vb)
  have run: "thin_byte ?b t g (?x + i) = (case ?e of None \<Rightarrow> 0 | Some v \<Rightarrow> g (unat v div 2 ^ 24 * ?b + ?x mod ?b + i))" if "i < m" for i
    using same_chunk [OF that m(3)] by (simp add: thin_byte_def add.assoc split: option.split)
  have "thin_piece block root meta data pos buf = Ok (map (thin_byte ?b t g) [?x..<?x + m])"
  proof (cases ?e)
    case None
    then have "map (thin_byte ?b t g) [?x..<?x + m] = replicate m 0" using run by (intro nth_equalityI) simp_all
    then show ?thesis using None look by (simp add: thin_piece_def Let_def m_def)
  next
    case (Some v)
    let ?at = "unat v div 2 ^ 24 * ?b + ?x mod ?b"
    have fit: "(unat v div 2 ^ 24 + 1) * ?b \<le> dlen" using blocks [OF map_of_SomeD [OF Some]] .
    then have le: "?at + m \<le> dlen" using m(3) by simp
    have ud: "unat (drop_bit 24 v) = unat v div 2 ^ 24" by (simp add: unat_drop_bit)
    have 1: "checked_mul (drop_bit 24 v) block = Some (drop_bit 24 v * block)"
      and um: "unat (drop_bit 24 v * block) = unat v div 2 ^ 24 * ?b"
      using fit len(1) ud by (simp_all add: checked_mul_def unat_word_ariths(2))
    have 2: "checked_add (drop_bit 24 v * block) (pos mod block) = Some (drop_bit 24 v * block + pos mod block)"
      and ua: "unat (drop_bit 24 v * block + pos mod block) = ?at"
      using le m(1) len(1) um by (simp_all add: checked_add_def unat_plus_if' unat_mod_distrib)
    have "read_through data (drop_bit 24 v * block + pos mod block) (take m buf) = Ok (map g [?at..<?at + m])"
      using data [of "drop_bit 24 v * block + pos mod block" "take m buf"] ua le m(2) by simp
    moreover have "map g [?at..<?at + m] = map (thin_byte ?b t g) [?x..<?x + m]"
      using run Some by (intro nth_equalityI) simp_all
    ultimately show ?thesis using Some look 1 2 by (simp add: thin_piece_def Let_def m_def)
  qed
  then show "\<exists>n. 0 < n \<and> n \<le> length buf \<and> thin_piece block root meta data pos buf = Ok (map (thin_byte ?b t g) [?x..<?x + n])"
    using m by blast
qed (use len in simp)

text \<open>
  C16: A thin volume reads block by block what its pool's map says. When the pool's metadata
  holds a search tree from the volume's root on, and its data sub-volume the blocks that tree
  names, a read anywhere in the volume returns the bytes of the mapped blocks and zeros for
  the blocks that were never written.
\<close>

theorem lvm_thin_read:
  assumes "0 < unat block" and "stored (read_runs rd devices meta) root t" and "tree_ok t" and "height t \<le> 16"
    and "\<And>off b. unat off + length b \<le> dlen \<Longrightarrow> read_runs rd devices data off b = Ok (map g [unat off..<unat off + length b])"
    and "\<And>k v. (k, v) \<in> set (entries t) \<Longrightarrow> (unat v div 2 ^ 24 + 1) * unat block \<le> dlen" and "dlen < 2 ^ 64"
    and "unat pos + length buf \<le> unat len"
  shows "read_runs rd devices [Run 0 len (ThinMap block meta data root)] pos buf =
    Ok (map (thin_byte (unat block) t g) [unat pos..<unat pos + length buf])"
proof (rule read_one_run [OF _ assms(8)])
  show "reads (thin_byte (unat block) t g) (unat len) (map_reader (device_read rd devices) (ThinMap block meta data root))"
    unfolding map_reader.simps
    by (rule thin_reads [OF assms(1) assms(2) [unfolded read_runs_def] assms(3,4) assms(5) [unfolded read_runs_def] assms(6,7)])
      (use unat_lt [of len] in simp_all)
qed

text \<open>A pool with the metadata \<open>sample_leaf\<close>, which maps block 5 to data block 7.\<close>

theorem lvm_thin_read_witness:
  "read_runs memdev [sample_leaf, replicate 3584 1 @ replicate 512 2]
     [Run 0 10240 (ThinMap 512 [Run 0 4096 (Striped 0 [(0, 0)])] [Run 0 4096 (Striped 0 [(1, 0)])] 0)] 2559 [9, 9] = Ok [0, 2]"
proof -
  let ?devices = "[sample_leaf, replicate 3584 1 @ replicate 512 2]" and ?t = "Leaf [(5, 0x7000001)]"
  let ?meta = "[Run 0 4096 (Striped 0 [(0, 0)])]" and ?data = "[Run 0 4096 (Striped 0 [(1, 0)])]"
  let ?g = "\<lambda>i. (replicate 3584 1 @ replicate 512 (2 :: u8)) ! i"
  have l: "length sample_leaf = 4096" by (simp add: sample_leaf_def Let_def)
  have meta: "read_runs memdev ?devices ?meta 0 (replicate 4096 0) = Ok sample_leaf"
    using whole_device_reads [of 0 ?devices 0 "replicate 4096 0"] l map_nth [of sample_leaf] by simp
  have "thin_node (read_runs memdev ?devices ?meta) 0 = thin_node (\<lambda>_ _. Ok sample_leaf) 0"
    using meta by (simp add: thin_node_def thin_block_def checked_mul_def)
  moreover have "le64 sample_leaf 40 = 0x7000001" by (simp add: sample_leaf_def Let_def le64_def slice_of_def)
  ultimately have st: "stored (read_runs memdev ?devices ?meta) 0 ?t"
    using sample_leaf_node stored_leaf [of "read_runs memdev ?devices ?meta" 0 "[(5, 0x7000001)]" "\<lambda>i. le64 sample_leaf (40 + 8 * i)"] by simp
  have "read_runs memdev ?devices [Run 0 10240 (ThinMap 512 ?meta ?data 0)] 2559 [9, 9] =
      Ok (map (thin_byte (unat (512 :: u64)) ?t ?g) [unat (2559 :: u64)..<unat (2559 :: u64) + length [9, 9 :: u8]])"
  proof (rule lvm_thin_read [OF _ st, where dlen = 4096])
    show "read_runs memdev ?devices ?data off b = Ok (map ?g [unat off..<unat off + length b])"
      if "unat off + length b \<le> 4096" for off b
      using whole_device_reads [of 1 ?devices off b] that by simp
  qed auto
  then show ?thesis by (simp add: upt_rec thin_byte_def nth_append)
qed

end
