(* ===== verification/Stacking.thy ===== *)
theory Stacking
  imports Lvm_Read
begin

text \<open>
  Arrays and volumes as devices: the \<open>BlockRead\<close> implementations of \<open>MdArray\<close> (\<open>md.rs\<close>) and
  \<open>LogicalVolume\<close> (\<open>lvm.rs\<close>), and that both keep the contract \<open>block_reader\<close> when the devices
  under them do. What is proved over that contract thus holds on top of them: partition
  tables, filesystems and volume groups on an array, arrays on volumes, to any height.
\<close>

section \<open>The readers\<close>

text \<open>\<open>read_at\<close> fills a buffer; the model's readers return the bytes asked for.\<close>

definition md_reader :: "('d, 'x) block_read_scheme \<Rightarrow> 'd md_array block_read" where
  "md_reader rd = \<lparr>read_at = (\<lambda>a off n. md_read_at rd a off (replicate n 0)), size_bytes = md_size_bytes\<rparr>"

definition lvm_reader :: "('d, 'x) block_read_scheme \<Rightarrow> 'd logical_volume block_read" where
  "lvm_reader rd = \<lparr>read_at = (\<lambda>lv off n. lvm_read_at rd lv off (replicate n 0)), size_bytes = lvm_size_bytes\<rparr>"

lemma reader_simps [simp]:
  "read_at (md_reader rd) a off n = md_read_at rd a off (replicate n 0)"
  "size_bytes (md_reader rd) a = a_size a"
  "read_at (lvm_reader rd) lv off n = lvm_read_at rd lv off (replicate n 0)"
  "size_bytes (lvm_reader rd) lv = lvol_size lv"
  by (simp_all add: md_reader_def lvm_reader_def md_size_bytes_def lvm_size_bytes_def)

lemma slice_map_upt: "at + n \<le> k \<Longrightarrow> slice_of at n (map f [0..<k]) = map f [at..<at + n]"
  by (rule nth_equalityI) (simp_all add: slice_of_def)

lemma area_past: "n < 2 ^ 64 \<Longrightarrow> unat asize < unat off + n \<Longrightarrow> \<not> area_fits off (of_nat n) asize"
  by (simp add: area_fits_iff unat_of_nat)

section \<open>Arrays\<close>

text \<open>The byte an array of any level shows at a position, for the contents its slots should have.\<close>

definition array_byte :: "'d md_array \<Rightarrow> (nat \<Rightarrow> nat \<Rightarrow> u8) \<Rightarrow> nat \<Rightarrow> u8" where
  "array_byte a img pos =
     (if a_level a = LEVEL_RAID1 then img 0 pos
      else if a_level a \<in> {LEVEL_RAID0, LEVEL_LINEAR} then zoned_byte a img pos
      else if a_level a = LEVEL_RAID10 then raid10_byte a img pos
      else parity_byte a img pos)"

text \<open>What a level needs of the contents, and the sizes it is computed without wrapping for.\<close>

definition redundancy_ok :: "('d \<Rightarrow> u8 list) \<Rightarrow> 'd md_array \<Rightarrow> (nat \<Rightarrow> nat \<Rightarrow> u8) \<Rightarrow> bool" where
  "redundancy_ok contents a img \<longleftrightarrow>
     (let per_member = unat (component_size (a_superblock a)) in
      if a_level a = LEVEL_RAID1 then image_of contents a (unat (a_size a)) (\<lambda>_. img 0)
      else if a_level a \<in> {LEVEL_RAID0, LEVEL_LINEAR} then
        area_image contents a img \<and>
        (a_level a = LEVEL_RAID0 \<longrightarrow> sum_list (map (\<lambda>m. unat (m_data_size m)) (List.map_filter id (a_slots a))) < 2 ^ 64)
      else if a_level a = LEVEL_RAID10 then
        image_of contents a per_member img \<and> raid10_mirrored a img \<and> per_member < 2 ^ 62
      else
        image_of contents a per_member img \<and>
        (\<forall>off < per_member div unat (a_chunk a) * unat (a_chunk a). parity_row_ok a img off) \<and>
        (a_level a = LEVEL_RAID6 \<longrightarrow> length (a_slots a) \<le> 255))"

definition array_ok ::
    "('d, 'x) block_read_scheme \<Rightarrow> ('d \<Rightarrow> u8 list) \<Rightarrow> ('d \<Rightarrow> bool) \<Rightarrow> ('d md_array \<Rightarrow> nat \<Rightarrow> nat \<Rightarrow> u8)
      \<Rightarrow> 'd md_array \<Rightarrow> bool" where
  "array_ok rd contents invar img a \<longleftrightarrow>
     md_wf rd a \<and> (\<forall>m. Some m \<in> set (a_slots a) \<longrightarrow> invar (m_dev m)) \<and> redundancy_ok contents a (img a)"

definition array_contents :: "('d md_array \<Rightarrow> nat \<Rightarrow> nat \<Rightarrow> u8) \<Rightarrow> 'd md_array \<Rightarrow> u8 list" where
  "array_contents img a = map (array_byte a (img a)) [0..<unat (a_size a)]"

lemma md_wf_level:
  "md_wf rd a \<Longrightarrow> a_level a \<in> {LEVEL_RAID1, LEVEL_RAID0, LEVEL_LINEAR, LEVEL_RAID10, LEVEL_RAID4, LEVEL_RAID5, LEVEL_RAID6}"
  by (auto simp: md_wf_def array_shape_of_def Let_def split: if_splits)

lemma raid1_present: "md_wf rd a \<Longrightarrow> a_level a = LEVEL_RAID1 \<Longrightarrow> \<exists>m. Some m \<in> set (a_slots a)"
proof (rule ccontr)
  assume wf: "md_wf rd a" "a_level a = LEVEL_RAID1" and "\<nexists>m. Some m \<in> set (a_slots a)"
  then have "s = None" if "s \<in> set (a_slots a)" for s using that by (cases s) auto
  then have "present_count (a_slots a) = 0" by (auto simp: present_count_def filter_empty_conv)
  then show False using wf by (auto simp: md_wf_def array_shape_of_def need_members_def Let_def split: if_splits)
qed

lemma md_past: "n < 2 ^ 64 \<Longrightarrow> unat (a_size a) < unat pos + n \<Longrightarrow> \<exists>e. md_read_at rd a pos (replicate n 0) = Err e \<and> past_the_end e"
  by (simp add: md_read_at_def area_past past_the_end_def)

locale md_stack = block_reader rd contents invar
  for rd :: "('d, 'x) block_read_scheme" and contents :: "'d \<Rightarrow> u8 list" and invar :: "'d \<Rightarrow> bool" +
  fixes img :: "'d md_array \<Rightarrow> nat \<Rightarrow> nat \<Rightarrow> u8"
begin

lemma mirrored_read:
  assumes wf: "md_wf rd a" and inv: "\<forall>m. Some m \<in> set (a_slots a) \<longrightarrow> invar (m_dev m)" and l: "a_level a = LEVEL_RAID1"
    and im: "image_of contents a (unat (a_size a)) (\<lambda>_. f)" and fit: "unat pos + length buf \<le> unat (a_size a)"
  shows "md_read_at rd a pos buf = Ok (map f [unat pos..<unat pos + length buf])"
proof -
  have r: "read_at rd (m_dev m) (m_data_offset m + pos) (length buf) = Ok (map f [unat pos..<unat pos + length buf])"
    if m: "Some m \<in> set (a_slots a)" for m
  proof -
    obtain slot where s: "slot < length (a_slots a)" "a_slots a ! slot = Some m" using m by (auto simp: in_set_conv_nth)
    have span: "member_span (a_level a) (a_size a) (component_size (a_superblock a)) = a_size a" using l by (simp add: member_span_def)
    note on = members_on_devices [OF wf inv s, unfolded span]
    have u: "unat (m_data_offset m + pos) = unat (m_data_offset m) + unat pos"
      using on(2) contents_fit [OF on(1)] fit by (intro unat_add_lem [THEN iffD1]) simp
    have "slice_of (unat (m_data_offset m) + unat pos) (length buf) (contents (m_dev m)) = map f [unat pos..<unat pos + length buf]"
      using on(2) fit image_ofD [OF im s] by (intro nth_equalityI) (simp_all add: slice_of_def add.assoc)
    then show ?thesis using read_within [OF on(1), of "m_data_offset m + pos" "length buf"] on(2) fit u by simp
  qed
  obtain m where m: "Some m \<in> set (a_slots a)" using raid1_present [OF wf l] by blast
  show ?thesis by (rule raid1_read [OF l fit _ m r [OF m]]) (use r in auto)
qed

lemma array_read:
  assumes "array_ok rd contents invar img a" and fit: "unat pos + length buf \<le> unat (a_size a)"
  shows "md_read_at rd a pos buf = Ok (map (array_byte a (img a)) [unat pos..<unat pos + length buf])"
proof -
  have wf: "md_wf rd a" and inv: "\<forall>m. Some m \<in> set (a_slots a) \<longrightarrow> invar (m_dev m)" and red: "redundancy_ok contents a (img a)"
    using assms(1) by (simp_all add: array_ok_def)
  consider "a_level a = LEVEL_RAID1" | "a_level a \<in> {LEVEL_RAID0, LEVEL_LINEAR}" | "a_level a = LEVEL_RAID10"
    | "a_level a \<in> {LEVEL_RAID4, LEVEL_RAID5, LEVEL_RAID6}"
    using md_wf_level [OF wf] by blast
  then show ?thesis
  proof cases
    case 1
    then show ?thesis using mirrored_read [OF wf inv 1 _ fit, of "img a 0"] red by (simp add: redundancy_ok_def array_byte_def)
  next
    case 2
    then show ?thesis using zoned_read [OF wf inv 2 _ _ fit, of "img a"] red
      by (auto simp: redundancy_ok_def array_byte_def Let_def)
  next
    case 3
    then show ?thesis using raid10_read [OF wf inv 3 _ _ _ fit, of "img a"] red
      by (simp add: redundancy_ok_def array_byte_def Let_def)
  next
    case 4
    then show ?thesis using parity_read [OF wf inv 4 _ _ _ fit, of "img a"] red
      by (auto simp: redundancy_ok_def array_byte_def Let_def)
  qed
qed

lemma array_device: "block_reader (md_reader rd) (array_contents img) (array_ok rd contents invar img)"
proof
  fix a off n
  assume ok: "array_ok rd contents invar img a"
  show "unat (size_bytes (md_reader rd) a) = length (array_contents img a)" by (simp add: array_contents_def)
  show "read_at (md_reader rd) a off n = Ok (slice_of (unat off) n (array_contents img a))"
    if "unat off + n \<le> length (array_contents img a)"
    using that array_read [OF ok, of off "replicate n 0"] by (simp add: array_contents_def slice_map_upt)
  show "\<exists>e. read_at (md_reader rd) a off n = Err e \<and> past_the_end e"
    if "n < 2 ^ 64" "length (array_contents img a) < unat off + n"
    using that md_past [of n a off] by (simp add: array_contents_def)
qed

end

sublocale md_stack \<subseteq> array: block_reader "md_reader rd" "array_contents img" "array_ok rd contents invar img"
  by (rule array_device)

section \<open>Volumes\<close>

definition lv_contents :: "('d, 'x) block_read_scheme \<Rightarrow> ('d \<Rightarrow> u8 list) \<Rightarrow> 'd logical_volume \<Rightarrow> u8 list" where
  "lv_contents rd contents lv =
     (case read_volume_group rd (lvol_devices lv) of
        Inr vg \<Rightarrow> map (lv_byte rd contents (lvol_devices lv) vg (lv_segments (lvol_info lv))) [0..<unat (lvol_size lv)]
      | Inl _ \<Rightarrow> [])"

text \<open>A volume of linear and striped segments, as \<open>LogicalVolume::open\<close> gave it.\<close>

definition lv_ok :: "('d, 'x) block_read_scheme \<Rightarrow> ('d \<Rightarrow> bool) \<Rightarrow> 'd logical_volume \<Rightarrow> bool" where
  "lv_ok rd invar lv \<longleftrightarrow>
     (\<forall>d \<in> set (lvol_devices lv). invar d) \<and> (\<exists>name. lvm_open rd (lvol_devices lv) name = Ok lv) \<and>
     list_all plain (lv_segments (lvol_info lv)) \<and>
     (\<forall>vg. read_volume_group rd (lvol_devices lv) = Ok vg \<longrightarrow>
        extents (lv_segments (lvol_info lv)) * unat (extent_size vg) < 2 ^ 64)"

lemma lvm_past: "n < 2 ^ 64 \<Longrightarrow> unat (lvol_size lv) < unat pos + n \<Longrightarrow> \<exists>e. lvm_read_at rd lv pos (replicate n 0) = Err e \<and> past_the_end e"
  by (simp add: lvm_read_at_def area_past past_the_end_def)

locale lvm_stack = block_reader rd contents invar
  for rd :: "('d, 'x) block_read_scheme" and contents :: "'d \<Rightarrow> u8 list" and invar :: "'d \<Rightarrow> bool"
begin

lemma volume_read:
  assumes "lv_ok rd invar lv" and fit: "unat pos + length buf \<le> unat (lvol_size lv)"
  shows "length (lv_contents rd contents lv) = unat (lvol_size lv)"
    and "lvm_read_at rd lv pos buf = Ok (slice_of (unat pos) (length buf) (lv_contents rd contents lv))"
proof -
  obtain name where op: "lvm_open rd (lvol_devices lv) name = Ok lv" using assms(1) by (auto simp: lv_ok_def)
  then obtain vg where vg: "read_volume_group rd (lvol_devices lv) = Ok vg" by (auto simp: lvm_open_def)
  show "length (lv_contents rd contents lv) = unat (lvol_size lv)" by (simp add: lv_contents_def vg)
  have "lvm_read_at rd lv pos buf =
      Ok (map (lv_byte rd contents (lvol_devices lv) vg (lv_segments (lvol_info lv))) [unat pos..<unat pos + length buf])"
    by (rule chain_volume_read [OF plain_volume_chain(2,3) [OF block_reader_axioms _ vg op] fit])
      (use assms(1) vg in \<open>auto simp: lv_ok_def\<close>)
  then show "lvm_read_at rd lv pos buf = Ok (slice_of (unat pos) (length buf) (lv_contents rd contents lv))"
    using fit by (simp add: lv_contents_def vg slice_map_upt)
qed

lemma volume_device: "block_reader (lvm_reader rd) (lv_contents rd contents) (lv_ok rd invar)"
proof
  fix lv off n
  assume ok: "lv_ok rd invar lv"
  have len: "length (lv_contents rd contents lv) = unat (lvol_size lv)" using volume_read(1) [OF ok, of 0 "[]"] by simp
  then show "unat (size_bytes (lvm_reader rd) lv) = length (lv_contents rd contents lv)" by simp
  show "read_at (lvm_reader rd) lv off n = Ok (slice_of (unat off) n (lv_contents rd contents lv))"
    if "unat off + n \<le> length (lv_contents rd contents lv)"
    using that volume_read(2) [OF ok, of off "replicate n 0"] by (simp add: len)
  show "\<exists>e. read_at (lvm_reader rd) lv off n = Err e \<and> past_the_end e"
    if "n < 2 ^ 64" "length (lv_contents rd contents lv) < unat off + n"
    using that lvm_past [of n lv off] by (simp add: len)
qed

end

sublocale lvm_stack \<subseteq> volume: block_reader "lvm_reader rd" "lv_contents rd contents" "lv_ok rd invar"
  by (rule volume_device)

section \<open>Stacks\<close>

text \<open>What the slots of an array hold, a missing one the XOR of the others.\<close>

definition held_image :: "('d \<Rightarrow> u8 list) \<Rightarrow> 'd md_array \<Rightarrow> nat \<Rightarrow> nat \<Rightarrow> u8" where
  "held_image contents a slot off =
     (case a_slots a ! slot of
        Some m \<Rightarrow> contents (m_dev m) ! (unat (m_data_offset m) + off)
      | None \<Rightarrow> foldr (\<lambda>m x. contents (m_dev m) ! (unat (m_data_offset m) + off) XOR x) (List.map_filter id (a_slots a)) 0)"

text \<open>Arrays on memory, and volumes on those arrays.\<close>

interpretation mem_md: md_stack memdev "\<lambda>b. b" memdev_invar "held_image (\<lambda>b. b)"
  by (rule md_stack.intro) (rule memdev.block_reader_axioms)

interpretation md_lvm: lvm_stack "md_reader memdev" "array_contents (held_image (\<lambda>b. b))"
    "array_ok memdev (\<lambda>b. b) memdev_invar (held_image (\<lambda>b. b))"
  by (rule lvm_stack.intro) (rule mem_md.array.block_reader_axioms)

text \<open>
  C14: Arrays and volumes are devices. On devices that keep the block layer's contract, an
  assembled array of any level keeps it too, with the bytes its layout gives and whichever
  members its level can do without missing; so does a logical volume of linear and striped
  segments; and so, therefore, does a volume whose physical volumes are arrays. Reads within
  return the bytes there, reads past the end fail and say so, and the size is the number of bytes.
\<close>

theorem containers_are_devices:
  assumes "block_reader rd contents invar"
  shows "block_reader (md_reader rd) (array_contents img) (array_ok rd contents invar img) \<and>
    block_reader (lvm_reader rd) (lv_contents rd contents) (lv_ok rd invar) \<and>
    block_reader (lvm_reader (md_reader rd)) (lv_contents (md_reader rd) (array_contents img))
      (lv_ok (md_reader rd) (array_ok rd contents invar img))"
proof -
  have md: "block_reader (md_reader rd) (array_contents img) (array_ok rd contents invar img)"
    by (rule md_stack.array_device [OF md_stack.intro [OF assms]])
  show ?thesis
    using md lvm_stack.volume_device [OF lvm_stack.intro [OF assms]]
      lvm_stack.volume_device [OF lvm_stack.intro [OF md]] by blast
qed

text \<open>A RAID1 array with one member lost and the other the sample disk, and the volume on it.\<close>

definition disk_array :: "u8 list md_array" where
  "disk_array = \<lparr>a_slots = [Some \<lparr>m_dev = disk, m_data_offset = 0, m_data_size = 2560\<rparr>, None],
     a_level = 1, a_layout = 0, a_chunk = 0, a_size = 2560, a_zones = [], a_raid10 = None,
     a_superblock = raid5_lead\<lparr>sb_level := 1, sb_layout := 0, chunk_bytes := 0, raid_disks := 2,
       component_size := 2560, data_size := 2560\<rparr>\<rparr>"

lemma disk_array_ok: "array_ok memdev (\<lambda>b. b) memdev_invar (held_image (\<lambda>b. b)) disk_array"
proof -
  have "image_of (\<lambda>b. b) disk_array 2560 (\<lambda>_. held_image (\<lambda>b. b) disk_array 0)"
    by (auto simp: image_of_def disk_array_def held_image_def less_Suc_eq numeral_2_eq_2)
  moreover have "md_wf memdev disk_array"
    by (simp add: disk_array_def md_wf_def raid5_lead_def array_shape_of_def need_members_def present_count_def
        member_span_def Let_def)
  ultimately show ?thesis by (simp add: array_ok_def redundancy_ok_def disk_array_def memdev_invar_def)
qed

lemma disk_array_contents: "array_contents (held_image (\<lambda>b. b)) disk_array = disk"
  by (rule nth_equalityI) (simp_all add: array_contents_def disk_array_def array_byte_def held_image_def)

theorem containers_are_devices_witness:
  "read_at (lvm_reader (md_reader memdev)) (disk_lv disk_array) 255 2 = Ok [7, 9]"
proof -
  note d = containers_are_devices [OF memdev.block_reader_axioms, of "held_image (\<lambda>b. b)"]
  note md = d [THEN conjunct1] and lvm = d [THEN conjunct2, THEN conjunct2]
  have sd: "shows_disk (md_reader memdev) disk_array"
    by (rule contents_show_disk [OF md disk_array_ok disk_array_contents])
  have ok: "lv_ok (md_reader memdev) (array_ok memdev (\<lambda>b. b) memdev_invar (held_image (\<lambda>b. b))) (disk_lv disk_array)"
    unfolding lv_ok_def using disk_opens [OF sd] disk_volume_group [OF sd] disk_array_ok disk_lv_plain [of disk_array]
    by (auto simp: disk_lv_def)
  let ?f = "lv_byte (md_reader memdev) (array_contents (held_image (\<lambda>b. b))) [disk_array] disk_group (lv_segments (lvol_info (disk_lv disk_array)))"
  have c: "lv_contents (md_reader memdev) (array_contents (held_image (\<lambda>b. b))) (disk_lv disk_array) = map ?f [0..<512]"
    using disk_volume_group [OF sd] by (simp add: lv_contents_def disk_lv_def)
  have "read_at (lvm_reader (md_reader memdev)) (disk_lv disk_array) 255 2 = Ok (slice_of 255 2 (map ?f [0..<512]))"
    using block_reader.read_within [OF lvm ok, of 255 2] unfolding c by simp
  also have "slice_of 255 2 (map ?f [0..<512]) = map ?f [255..<257]" by (simp add: slice_map_upt)
  also have "\<dots> = [7, 9]" by (simp add: upt_rec disk_lv_byte [OF sd] disk_array_contents disk_nth)
  finally show ?thesis .
qed

end
