(* ===== verification/Sniff.thy ===== *)
theory Sniff
  imports Partition
begin

text \<open>
  The filesystem sniffer (\<open>sniff.rs\<close>): which filesystem a partition's first bytes look like.
  The window that is read is shown to be all the classifier ever looks at.
\<close>

datatype ext_version = Ext2OrAny | Ext3 | Ext4

datatype fs_kind =
    Ext ext_version | Ntfs | ExFat | Fat32 | Fat16 | HfsPlus | Apfs | LinuxSwap | Iso9660 | Squashfs | UnknownFs

definition ISO9660_END :: nat where [simp]: "ISO9660_END = 0x8006"

definition SWAP_PAGES :: "nat list" where [simp]: "SWAP_PAGES = [4096, 8192, 16384, 32768, 65536]"

definition WINDOW :: u64 where
  "WINDOW = (let largest_page = SWAP_PAGES ! (length SWAP_PAGES - 1) in
     if largest_page > ISO9660_END then of_nat largest_page else of_nat ISO9660_END)"

text \<open>A byte string literal.\<close>

definition lit :: "string \<Rightarrow> u8 list" where
  "lit s = map (\<lambda>c. of_nat (of_char c)) s"

definition EXT3_FEATURE_COMPAT_HAS_JOURNAL :: u32 where "EXT3_FEATURE_COMPAT_HAS_JOURNAL = 4"

definition EXT4_INCOMPAT_MASK :: u32 where
  "EXT4_INCOMPAT_MASK =
     0x040 OR 0x080 OR 0x100 OR 0x200 OR 0x400 OR 0x1000 OR 0x2000 OR 0x4000 OR 0x8000"

definition classify_ext :: "u8 list \<Rightarrow> ext_version" where
  "classify_ext buf =
     (let sb = 1024 in
      if length buf < sb + 0x68 then Ext2OrAny
      else let feature_compat = le32 buf (sb + 0x5C);
               feature_incompat = le32 buf (sb + 0x60)
           in if (feature_incompat AND EXT4_INCOMPAT_MASK) \<noteq> 0 then Ext4
              else if (feature_compat AND EXT3_FEATURE_COMPAT_HAS_JOURNAL) \<noteq> 0 then Ext3
              else Ext2OrAny)"

text \<open>The boot-sector filesystems, when the signature of a boot sector is there.\<close>

definition classify_boot :: "u8 list \<Rightarrow> fs_kind option" where
  "classify_boot buf =
     (if length buf \<ge> 512 \<and> buf ! 510 = 0x55 \<and> buf ! 511 = 0xAA then
        let oem = slice_of 3 8 buf in
        if oem = lit ''NTFS    '' then Some Ntfs
        else if oem = lit ''EXFAT   '' then Some ExFat
        else if length buf \<ge> 0x5A \<and> slice_of 0x52 8 buf = lit ''FAT32   '' then Some Fat32
        else if length buf \<ge> 0x3E \<and> (slice_of 0x36 8 buf = lit ''FAT16   '' \<or> slice_of 0x36 8 buf = lit ''FAT12   '')
        then Some Fat16 else None
      else None)"

fun swap_at :: "u8 list \<Rightarrow> nat list \<Rightarrow> bool" where
  "swap_at buf [] = False"
| "swap_at buf (page # pages) =
     (if length buf \<ge> page \<and> slice_of (page - 10) 10 buf = lit ''SWAPSPACE2'' then True else swap_at buf pages)"

definition classify :: "u8 list \<Rightarrow> fs_kind" where
  "classify buf =
     (if length buf \<ge> 4 \<and> slice_of 0 4 buf = lit ''hsqs'' then Squashfs
      else case classify_boot buf of
        Some k \<Rightarrow> k
      | None \<Rightarrow>
          if length buf \<ge> 1082 \<and> le16 buf 1080 = 0xEF53 then Ext (classify_ext buf)
          else if length buf \<ge> 1026 \<and> (slice_of 1024 2 buf = lit ''H+'' \<or> slice_of 1024 2 buf = lit ''HX'') then HfsPlus
          else if length buf \<ge> 36 \<and> slice_of 32 4 buf = lit ''NXSB'' then Apfs
          else if swap_at buf SWAP_PAGES then LinuxSwap
          else if length buf \<ge> ISO9660_END \<and> slice_of 0x8001 5 buf = lit ''CD001'' then Iso9660
          else UnknownFs)"

definition sniff :: "('d, 'x) block_read_scheme \<Rightarrow> 'd \<Rightarrow> partition \<Rightarrow> error + fs_kind" where
  "sniff rd d p =
     (let device_size = size_bytes rd d in
      if p_start p \<ge> device_size
      then Err (Block (ShortRead (p_start p) (unat (min WINDOW (p_length p))) 0))
      else let want = min WINDOW (p_length p);
               available = device_size - p_start p
           in map_ok classify (lift_fs (read_at rd d (p_start p) (unat (min want available)))))"

section \<open>The window is enough\<close>

lemma unat_WINDOW: "unat WINDOW = 65536"
  by (simp add: WINDOW_def)

lemma slice_take: "at + n \<le> m \<Longrightarrow> slice_of at n (take m buf) = slice_of at n buf"
  by (simp add: slice_of_def drop_take min_def)

lemma le_take [simp]:
  "at + 4 \<le> m \<Longrightarrow> le32 (take m buf) at = le32 buf at"
  "at + 2 \<le> m \<Longrightarrow> le16 (take m buf) at = le16 buf at"
  by (simp_all add: le32_def le16_def slice_take)

lemma length_take_iff:
  "k \<le> m \<Longrightarrow> k \<le> length (take m buf) \<longleftrightarrow> k \<le> length buf"
  "k \<le> m \<Longrightarrow> length (take m buf) < k \<longleftrightarrow> length buf < k"
  by auto

lemmas window_simps = length_take_iff slice_take nth_take le_take

lemma classify_boot_window: "classify_boot (take 65536 buf) = classify_boot buf"
  by (simp only: classify_boot_def) (simp add: window_simps Let_def del: length_take cong: if_cong conj_cong)

lemma swap_at_window: "\<forall>p \<in> set pages. 10 \<le> p \<and> p \<le> 65536 \<Longrightarrow> swap_at (take 65536 buf) pages = swap_at buf pages"
  by (induction pages) (auto simp: slice_take)

lemma classify_ext_window: "classify_ext (take 65536 buf) = classify_ext buf"
  by (simp add: classify_ext_def window_simps Let_def del: length_take)

lemma classify_window: "classify (take 65536 buf) = classify buf"
  by (simp add: classify_def classify_ext_window classify_boot_window swap_at_window window_simps
      cong: option.case_cong if_cong del: length_take swap_at.simps)

text \<open>
  C37: The sniffer's window loses nothing. On a device that keeps the block layer's contract,
  sniffing a partition that begins on the device always succeeds, and the answer is what
  classifying every byte of the partition that exists on the device would give; a partition
  that begins at or past the end is an error and never an unrecognised filesystem.
\<close>

theorem sniff_sees_everything:
  assumes "block_reader rd contents invar" and "invar d"
  shows "sniff rd d p =
    (if unat (p_start p) < length (contents d)
     then Ok (classify (take (unat (p_length p)) (drop (unat (p_start p)) (contents d))))
     else Err (Block (ShortRead (p_start p) (min 65536 (unat (p_length p))) 0)))"
proof -
  note sz = block_reader.size_contents [OF assms]
  let ?s = "unat (p_start p)" and ?l = "unat (p_length p)" and ?c = "contents d"
  have um: "unat (min WINDOW x) = min 65536 (unat x)" for x
    using unat_WINDOW by (simp add: min_def word_le_nat_alt)
  show ?thesis
  proof (cases "?s < length ?c")
    case True
    have ua: "unat (size_bytes rd d - p_start p) = length ?c - ?s"
      using True sz by (simp add: unat_sub word_le_nat_alt)
    let ?n = "unat (min (min WINDOW (p_length p)) (size_bytes rd d - p_start p))"
    have n: "?n = min (min 65536 ?l) (length ?c - ?s)"
      using ua um [of "p_length p"] by (simp add: min_def word_le_nat_alt)
    have "read_at rd d (p_start p) ?n = Ok (slice_of ?s ?n ?c)"
      using True n by (intro block_reader.read_within [OF assms]) simp
    moreover have "slice_of ?s ?n ?c = take 65536 (take ?l (drop ?s ?c))"
      unfolding n by (simp add: slice_of_def min_def)
    ultimately have "sniff rd d p = Ok (classify (take 65536 (take ?l (drop ?s ?c))))"
      using True sz by (simp add: sniff_def Let_def word_le_nat_alt)
    then show ?thesis using True classify_window [of "take ?l (drop ?s ?c)"] by (simp del: take_take)
  next
    case False
    then show ?thesis using sz um [of "p_length p"] by (simp add: sniff_def Let_def word_le_nat_alt)
  qed
qed


text \<open>A partition that claims 100 sectors of a device that ends after its first 600 bytes.\<close>

theorem sniff_sees_everything_witness:
  "sniff memdev (lit ''hsqs'' @ replicate 596 0)
     \<lparr>p_start = 0, p_length = 51200, p_kind = Whole, p_label = None, p_uuid = None, p_slot = None, p_issues = 0,
      p_available_length = 600\<rparr> = Ok Squashfs"
  using sniff_sees_everything [OF memdev.block_reader_axioms, of "lit ''hsqs'' @ replicate 596 0"
    "\<lparr>p_start = 0, p_length = 51200, p_kind = Whole, p_label = None, p_uuid = None, p_slot = None, p_issues = 0,
      p_available_length = 600\<rparr>"]
  by (simp add: memdev_invar_def lit_def classify_def slice_of_def)

end
