(* ===== verification/Container.thy ===== *)
theory Container
  imports Md_Superblock Lvm_Group
begin

text \<open>
  What a device is a piece of (\<open>container.rs\<close>): a member of an md array, a physical volume of
  LVM2, or neither. \<open>detect\<close> asks the two readers of \<open>Md_Superblock\<close> and \<open>Lvm_Group\<close> in turn.
\<close>

datatype container = MdMember "u8 list" int | LvmPv ustring

datatype container_error = ContainerMd md_error | ContainerLvm lvm_error

definition detect :: "('d, 'x) block_read_scheme \<Rightarrow> 'd \<Rightarrow> container_error + container option" where
  "detect rd d =
     rbind (map_err ContainerMd (read_superblock rd d)) (\<lambda>sb.
       case sb of
         Some sb \<Rightarrow> Ok (Some (MdMember (array_uuid sb) (sb_level sb)))
       | None \<Rightarrow>
           rbind (map_err ContainerLvm (read_pv_label rd d)) (\<lambda>label.
             case label of
               Some label \<Rightarrow> Ok (Some (LvmPv (label_uuid label)))
             | None \<Rightarrow> Ok None))"

text \<open>The same device alone in a scan.\<close>

lemma md_scan_single:
  "md_scan_devices rd [d] =
     (case read_superblock rd d of
        Inr None \<Rightarrow> \<lparr>scan_arrays = [], scan_others = [d], scan_refused = []\<rparr>
      | Inl e \<Rightarrow> \<lparr>scan_arrays = [], scan_others = [], scan_refused = [(d, e)]\<rparr>
      | Inr (Some sb) \<Rightarrow> \<lparr>scan_arrays = [\<lparr>g_uuid = array_uuid sb, g_superblock = sb, g_members = [d]\<rparr>],
          scan_others = [], scan_refused = []\<rparr>)"
  by (simp add: md_scan_devices_def scan_step_def read_superblock_def split: sum.split option.split)

lemma lvm_scan_others_single: "ls_others (lvm_scan_devices rd [d]) = [d] \<longleftrightarrow> read_pv_label rd d = Ok None"
  by (auto simp: lvm_scan_devices_def sort_step_def read_pv_label_def Let_def split: prod.splits sum.splits option.splits)

text \<open>
  What a device is said to be is what the scans make of it. It is said to be a member of
  an array exactly when a scan of it alone forms that array at that level, whatever else it
  shows; a physical volume only when the array scan sets it aside; and neither exactly when
  both scans do, so a device with a damaged superblock or label is never taken for a blank one.
\<close>

theorem detect_agrees_with_scans:
  "(detect rd d = Ok (Some (MdMember u l)) \<longleftrightarrow>
      (\<exists>sb. scan_arrays (md_scan_devices rd [d]) = [\<lparr>g_uuid = u, g_superblock = sb, g_members = [d]\<rparr>] \<and> sb_level sb = l)) \<and>
   (detect rd d = Ok (Some (LvmPv v)) \<longleftrightarrow>
      scan_others (md_scan_devices rd [d]) = [d] \<and>
      (\<exists>label. read_pv_label rd d = Ok (Some label) \<and> label_uuid label = v)) \<and>
   (detect rd d = Ok None \<longleftrightarrow>
      scan_others (md_scan_devices rd [d]) = [d] \<and> ls_others (lvm_scan_devices rd [d]) = [d])"
  unfolding lvm_scan_others_single md_scan_single
  by (auto simp: detect_def split: sum.splits option.splits)

end
