(* ===== verification/Display.thy ===== *)
theory Display
  imports Partition Container Lvm_Volume
begin

text \<open>
  What the crate's errors say: \<open>Display\<close> and \<open>source\<close> of \<open>Error\<close> (\<open>error.rs\<close>), \<open>MdError\<close>
  (\<open>md.rs\<close>), \<open>LvmError\<close> (\<open>lvm.rs\<close>) and \<open>ContainerError\<close> (\<open>container.rs\<close>). The text of an error of
  the block layer is \<open>fs_core\<close>'s and an argument.
\<close>

section \<open>Texts\<close>

fun error_text :: "(fs_error \<Rightarrow> string) \<Rightarrow> error \<Rightarrow> string" where
  "error_text fs_text (Block e) = fs_text e"
| "error_text fs_text (Io s) = ''io: '' @ s"
| "error_text fs_text NoPartitionTable = ''no GPT or MBR signature found''"
| "error_text fs_text GptHeaderCrc = ''GPT header CRC32 mismatch''"
| "error_text fs_text GptEntriesCrc = ''GPT partition-entry array CRC32 mismatch''"
| "error_text fs_text (GptCorrupt s) = ''GPT corrupt: '' @ s"
| "error_text fs_text (MbrCorrupt s) = ''MBR corrupt: '' @ s"
| "error_text fs_text (GptBackupMismatch s) = ''GPT backup mismatch: '' @ s"
| "error_text fs_text (Invalid s) = ''invalid argument: '' @ s"
| "error_text fs_text DeviceTooSmall = ''device too small for the requested table''"
| "error_text fs_text (UnsupportedSectorSize s) = ''unsupported sector size: '' @ s"

text \<open>The format \<open>{:#010x}\<close>: the prefix and at least eight digits.\<close>

definition show_hex8 :: "u32 \<Rightarrow> string" where
  "show_hex8 v = (let ds = show_base 16 (unat v) in ''0x'' @ replicate (8 - length ds) (CHR ''0'') @ ds)"

fun md_error_text :: "(fs_error \<Rightarrow> string) \<Rightarrow> md_error \<Rightarrow> string" where
  "md_error_text fs_text (MdBlock e) = fs_text e"
| "md_error_text fs_text (NoSuperblock member) = ''member '' @ show_nat member @ '': no md superblock''"
| "md_error_text fs_text (BadChecksum member found computed) =
     ''member '' @ show_nat member @ '': superblock checksum '' @ show_hex8 found @ '', computed '' @ show_hex8 computed"
| "md_error_text fs_text (MdCorrupt member reason) = ''member '' @ show_nat member @ '': '' @ reason"
| "md_error_text fs_text (MixedArrays member) = ''member '' @ show_nat member @ '' belongs to a different array''"
| "md_error_text fs_text (DuplicateRole slot) = ''two members claim slot '' @ show_nat (unat slot)"
| "md_error_text fs_text (TooFewMembers level present needed) =
     ''RAID'' @ show_int level @ '' needs '' @ show_nat (unat needed) @ '' usable members, '' @ show_nat (unat present) @ '' present''"
| "md_error_text fs_text (NoCopyLeft slots) = ''every copy of some data is on missing slots '' @ debug_nats (map unat slots)"
| "md_error_text fs_text (MdUnsupported s) = ''unsupported: '' @ s"
| "md_error_text fs_text MdEmpty = ''no members given''"

text \<open>An LVM error may name a volume in any characters: its text is a list of pieces.\<close>

definition lvm_error_text :: "(fs_error \<Rightarrow> string) \<Rightarrow> lvm_error \<Rightarrow> message" where
  "lvm_error_text fs_text e = (case e of LvmBlock b \<Rightarrow> [S (fs_text b)] | _ \<Rightarrow> lvm_message e)"

fun container_error_text :: "(fs_error \<Rightarrow> string) \<Rightarrow> container_error \<Rightarrow> message" where
  "container_error_text fs_text (ContainerMd e) = [S ''md: '', S (md_error_text fs_text e)]"
| "container_error_text fs_text (ContainerLvm e) = S ''lvm: '' # lvm_error_text fs_text e"

section \<open>Sources\<close>

text \<open>The error under an error: one of the block layer, or of the input and output layer by its text.\<close>

definition error_source :: "error \<Rightarrow> (fs_error + string) option" where
  "error_source e = (case e of Block b \<Rightarrow> Some (Inl b) | Io s \<Rightarrow> Some (Inr s) | _ \<Rightarrow> None)"

definition md_error_source :: "md_error \<Rightarrow> fs_error option" where
  "md_error_source e = (case e of MdBlock b \<Rightarrow> Some b | _ \<Rightarrow> None)"

definition lvm_error_source :: "lvm_error \<Rightarrow> fs_error option" where
  "lvm_error_source e = (case e of LvmBlock b \<Rightarrow> Some b | _ \<Rightarrow> None)"

definition container_error_source :: "container_error \<Rightarrow> md_error + lvm_error" where
  "container_error_source e = (case e of ContainerMd e \<Rightarrow> Inl e | ContainerLvm e \<Rightarrow> Inr e)"

text \<open>An error that wraps one of the block layer is shown as that one is.\<close>

lemma block_errors_shown:
  "error_source e = Some (Inl b) \<Longrightarrow> error_text fs_text e = fs_text b"
  "md_error_source m = Some b \<Longrightarrow> md_error_text fs_text m = fs_text b"
  "lvm_error_source l = Some b \<Longrightarrow> lvm_error_text fs_text l = [S (fs_text b)]"
  by (auto simp: error_source_def md_error_source_def lvm_error_source_def lvm_error_text_def
      split: error.splits md_error.splits lvm_error.splits)

end
