(* ===== verification/Capi.thy ===== *)
theory Capi
  imports Probe Sniff Lvm_Volume Md_Read Display
begin

text \<open>
  The C interface (\<open>capi.rs\<close>). A pointer that may be NULL is an option; what a call writes
  through an out pointer is part of its result, with \<open>None\<close> for a pointer it does not write
  through. A handle is the value behind it. The thread-local message a call leaves is part of
  its result too, \<open>None\<close> when it sets none. \<open>fs_core::ffi\<close> is another crate: \<open>ffi_guard\<close>, which turns
  a result into its code and message, is a parameter; a panic inside it is the error \<open>Panicked\<close>.
\<close>

section \<open>Codes\<close>

datatype ffi_code = FfiOk | FfiNullArg | FfiOutOfBounds | FfiCustom | FfiPanic | FfiOther nat

type_synonym last_error = "string option"
type_synonym ffi_guard = "fs_error + unit \<Rightarrow> ffi_code \<times> last_error"

datatype fs_kind_code =
    KUnknown | KExt2 | KExt3 | KExt4 | KNtfs | KExFat | KFat32 | KFat16 | KHfsPlus | KApfs | KLinuxSwap | KIso9660 | KSquashfs

fun fs_kind_number :: "fs_kind_code \<Rightarrow> int" where
  "fs_kind_number KUnknown = 0" | "fs_kind_number KExt2 = 1" | "fs_kind_number KExt3 = 2"
| "fs_kind_number KExt4 = 3" | "fs_kind_number KNtfs = 4" | "fs_kind_number KExFat = 5"
| "fs_kind_number KFat32 = 6" | "fs_kind_number KFat16 = 7" | "fs_kind_number KHfsPlus = 8"
| "fs_kind_number KApfs = 9" | "fs_kind_number KLinuxSwap = 10" | "fs_kind_number KIso9660 = 11"
| "fs_kind_number KSquashfs = 12"

fun code_of_fs_kind :: "fs_kind \<Rightarrow> fs_kind_code" where
  "code_of_fs_kind UnknownFs = KUnknown"
| "code_of_fs_kind (Ext Ext2OrAny) = KExt2"
| "code_of_fs_kind (Ext Ext3) = KExt3"
| "code_of_fs_kind (Ext Ext4) = KExt4"
| "code_of_fs_kind Ntfs = KNtfs"
| "code_of_fs_kind ExFat = KExFat"
| "code_of_fs_kind Fat32 = KFat32"
| "code_of_fs_kind Fat16 = KFat16"
| "code_of_fs_kind HfsPlus = KHfsPlus"
| "code_of_fs_kind Apfs = KApfs"
| "code_of_fs_kind LinuxSwap = KLinuxSwap"
| "code_of_fs_kind Iso9660 = KIso9660"
| "code_of_fs_kind Squashfs = KSquashfs"

datatype table_kind_code = KindNone | KindGpt | KindMbr

fun table_kind_number :: "table_kind_code \<Rightarrow> int" where
  "table_kind_number KindNone = 0" | "table_kind_number KindGpt = 1" | "table_kind_number KindMbr = 2"

fun code_of_table_kind :: "table_kind \<Rightarrow> table_kind_code" where
  "code_of_table_kind TkGpt = KindGpt" | "code_of_table_kind TkMbr = KindMbr"

datatype table_source_code = SrcNone | SrcMbr | SrcGptPrimary | SrcGptPrimaryBackupStale | SrcGptRecoveredFromBackup

fun table_source_number :: "table_source_code \<Rightarrow> int" where
  "table_source_number SrcNone = 0" | "table_source_number SrcMbr = 1" | "table_source_number SrcGptPrimary = 2"
| "table_source_number SrcGptPrimaryBackupStale = 3" | "table_source_number SrcGptRecoveredFromBackup = 4"

fun code_of_table_source :: "table_source \<Rightarrow> table_source_code" where
  "code_of_table_source FromMbr = SrcMbr"
| "code_of_table_source Primary = SrcGptPrimary"
| "code_of_table_source (PrimaryBackupStale _) = SrcGptPrimaryBackupStale"
| "code_of_table_source RecoveredFromBackup = SrcGptRecoveredFromBackup"

section \<open>Partition lists\<close>

text \<open>The padding of the struct is left out; its label pointer is the bytes before the NUL.\<close>

record partition_info =
  i_start :: u64
  i_length :: u64
  i_fs_kind :: int
  i_table_kind :: int
  i_type_guid :: "u8 list"
  i_type_byte :: u8
  i_label :: "u8 list option"
  i_label_len :: nat
  i_bootable :: u8
  i_attributes :: u64
  i_slot :: int
  i_issues :: u32
  i_available_length :: u64

record partition_entry =
  e_info :: partition_info
  e_raw :: partition

record 'd partition_list =
  l_table :: table_kind_code
  l_source :: table_source_code
  l_parent :: 'd
  l_entries :: "partition_entry list"

definition make_label_string :: "ustring option \<Rightarrow> u8 list option \<times> nat" where
  "make_label_string label =
     (case label of
        Some s \<Rightarrow>
          if s \<noteq> [] then (let cs = as_bytes (map (\<lambda>c. if c = 0 then 63 else c) s) in (Some cs, length cs))
          else (None, 0)
      | None \<Rightarrow> (None, 0))"

definition build_info :: "partition \<Rightarrow> table_kind_code \<Rightarrow> partition_info" where
  "build_info p table =
     (let (guid, byte, attrs) =
        (case p_kind p of
           Gpt guid attrs \<Rightarrow> (guid, 0, attrs)
         | Mbr byte _ \<Rightarrow> (replicate 16 0, byte, 0)
         | Whole \<Rightarrow> (replicate 16 0, 0, 0))
      in \<lparr>i_start = p_start p, i_length = p_length p, i_fs_kind = fs_kind_number KUnknown,
          i_table_kind = table_kind_number table, i_type_guid = guid, i_type_byte = byte,
          i_label = None, i_label_len = 0, i_bootable = (if is_bootable p then 1 else 0), i_attributes = attrs,
          i_slot = (case p_slot p of None \<Rightarrow> - 1 | Some s \<Rightarrow> i32 s), i_issues = p_issues p,
          i_available_length = p_available_length p\<rparr>)"

definition list_entry :: "table_kind_code \<Rightarrow> partition \<Rightarrow> partition_entry" where
  "list_entry table raw =
     (let (label, len) = make_label_string (p_label raw)
      in \<lparr>e_info = (build_info raw table)\<lparr>i_label := label, i_label_len := len\<rparr>, e_raw = raw\<rparr>)"

text \<open>A panic that came up through a call, with its message.\<close>

definition panic_in :: "error \<Rightarrow> string option" where
  "panic_in e = (case e of Block (Panicked m) \<Rightarrow> Some m | _ \<Rightarrow> None)"

definition partitions_probe ::
    "(u8 list \<Rightarrow> u32) \<Rightarrow> ('d, 'x) block_read_scheme \<Rightarrow> ffi_guard \<Rightarrow> (fs_error \<Rightarrow> string)
      \<Rightarrow> 'd option \<Rightarrow> bool \<Rightarrow> (ffi_code \<times> last_error) \<times> 'd partition_list option option" where
  "partitions_probe crc rd ffi_guard fs_text device list_out =
     (case device of
        None \<Rightarrow> ((FfiNullArg, None), None)
      | Some d \<Rightarrow>
          if \<not> list_out then ((FfiNullArg, None), None)
          else case probe_with_status crc rd d of
            Inl e \<Rightarrow>
              (case panic_in e of
                 Some m \<Rightarrow> (ffi_guard (Err (Panicked m)), Some None)
               | None \<Rightarrow> (ffi_guard (Err (Custom (error_text fs_text e))), Some None))
          | Inr (table, parts, source) \<Rightarrow>
              (ffi_guard (Ok ()),
               Some (Some \<lparr>l_table = code_of_table_kind table, l_source = code_of_table_source source, l_parent = d,
                           l_entries = map (list_entry (code_of_table_kind table)) parts\<rparr>)))"

definition partitions_count :: "'d partition_list option \<Rightarrow> nat" where
  "partitions_count list = (case list of None \<Rightarrow> 0 | Some l \<Rightarrow> length (l_entries l))"

definition partitions_table_source :: "'d partition_list option \<Rightarrow> int" where
  "partitions_table_source list =
     (case list of None \<Rightarrow> table_source_number SrcNone | Some l \<Rightarrow> table_source_number (l_source l))"

definition partitions_table_kind :: "'d partition_list option \<Rightarrow> int" where
  "partitions_table_kind list =
     (case list of None \<Rightarrow> table_kind_number KindNone | Some l \<Rightarrow> table_kind_number (l_table l))"

definition partitions_get ::
    "'d partition_list option \<Rightarrow> nat \<Rightarrow> bool \<Rightarrow> ffi_code \<times> partition_info option" where
  "partitions_get list index out =
     (case list of
        None \<Rightarrow> (FfiNullArg, None)
      | Some l \<Rightarrow>
          if \<not> out then (FfiNullArg, None)
          else if index \<ge> length (l_entries l) then (FfiOutOfBounds, None)
          else (FfiOk, Some (e_info (l_entries l ! index))))"

text \<open>What a failed sniff leaves: the panic under the call's name, or the error.\<close>

definition sniff_failed :: "string \<Rightarrow> (fs_error \<Rightarrow> string) \<Rightarrow> error \<Rightarrow> string" where
  "sniff_failed call fs_text e =
     (case panic_in e of Some m \<Rightarrow> ''panic in '' @ call @ '': '' @ m | None \<Rightarrow> error_text fs_text e)"

definition partitions_sniff ::
    "('d, 'x) block_read_scheme \<Rightarrow> (fs_error \<Rightarrow> string) \<Rightarrow> 'd partition_list option \<Rightarrow> nat \<Rightarrow> int \<times> last_error" where
  "partitions_sniff rd fs_text list index =
     (case list of
        None \<Rightarrow> (- 1, Some ''partitions_sniff: list is null'')
      | Some l \<Rightarrow>
          if index \<ge> length (l_entries l) then (- 1, Some ''partitions_sniff: index out of bounds'')
          else case sniff rd (l_parent l) (e_raw (l_entries l ! index)) of
            Inr kind \<Rightarrow> (fs_kind_number (code_of_fs_kind kind), None)
          | Inl e \<Rightarrow> (- 1, Some (sniff_failed ''partitions_sniff'' fs_text e)))"

definition partitions_sniff_device ::
    "('d, 'x) block_read_scheme \<Rightarrow> (fs_error \<Rightarrow> string) \<Rightarrow> 'd option \<Rightarrow> u64 \<Rightarrow> int \<times> last_error" where
  "partitions_sniff_device rd fs_text device device_size_bytes =
     (case device of
        None \<Rightarrow> (- 1, Some ''partitions_sniff_device: device is null'')
      | Some d \<Rightarrow>
          if device_size_bytes = 0 then (- 1, Some ''partitions_sniff_device: device_size_bytes is zero'')
          else case sniff rd d \<lparr>p_start = 0, p_length = device_size_bytes, p_kind = Whole, p_label = None,
                 p_uuid = None, p_slot = None, p_issues = 0, p_available_length = device_size_bytes\<rparr> of
            Inr kind \<Rightarrow>
              if kind = UnknownFs \<and> device_size_bytes < WINDOW \<and> device_size_bytes < size_bytes rd d
              then (- 1, Some (''partitions_sniff_device: nothing recognised in the first '' @ show_nat (unat device_size_bytes)
                     @ '' bytes, but the device has '' @ show_nat (unat (size_bytes rd d))
                     @ '' and sniffing reads up to '' @ show_nat (unat WINDOW)
                     @ ''; pass the device's size to get an answer''))
              else (fs_kind_number (code_of_fs_kind kind), None)
          | Inl e \<Rightarrow> (- 1, Some (sniff_failed ''partitions_sniff_device'' fs_text e)))"

definition slice_on_device :: "u64 \<Rightarrow> u64 \<Rightarrow> u64 \<Rightarrow> u64 option" where
  "slice_on_device parent_size start len =
     (if start \<ge> parent_size then None else Some (available_on_device start len parent_size))"

text \<open>\<open>OwnedSlice\<close> of \<open>fs_core\<close>: its parent, start and length, as it was made.\<close>

record 'd owned_slice =
  os_parent :: 'd
  os_start :: u64
  os_length :: u64

definition partitions_open_slice ::
    "('d, 'x) block_read_scheme \<Rightarrow> 'd partition_list option \<Rightarrow> nat \<Rightarrow> 'd owned_slice option \<times> last_error" where
  "partitions_open_slice rd list index =
     (case list of
        None \<Rightarrow> (None, Some ''partitions_open_slice: list is null'')
      | Some l \<Rightarrow>
          if index \<ge> length (l_entries l) then (None, Some ''partitions_open_slice: index out of bounds'')
          else let raw = e_raw (l_entries l ! index) in
            if p_issues raw \<noteq> ISSUE_NONE
            then (None, Some (''partitions_open_slice: the entry at index '' @ show_nat index @ '' '' @ describe (p_issues raw)
                   @ ''; read its `issues` field and decide before opening it''))
            else case slice_on_device (size_bytes rd (l_parent l)) (p_start raw) (p_length raw) of
              None \<Rightarrow> (None, Some ''partitions_open_slice: the partition begins past the end of the device'')
            | Some len \<Rightarrow> (Some \<lparr>os_parent = l_parent l, os_start = p_start raw, os_length = len\<rparr>, None))"

text \<open>
  Freeing a list: the heap holds the lists that were handed out and not freed yet, by their
  address. Freeing NULL does nothing.
\<close>

definition partitions_list_free :: "(nat \<rightharpoonup> 'd partition_list) \<Rightarrow> nat option \<Rightarrow> (nat \<rightharpoonup> 'd partition_list)" where
  "partitions_list_free heap list = (case list of None \<Rightarrow> heap | Some at \<Rightarrow> heap(at := None))"

section \<open>Arrays and volumes\<close>

datatype array_error_code =
    ANone | AIo | ANoMetadata | ABadChecksum | ACorrupt | AMixedArrays | ADuplicateMember | ATooFewMembers
  | ANoSuchVolume | AUnsupported | ANoMembers

text \<open>The numbers C sees, \<open>repr(i32)\<close>.\<close>

fun array_error_number :: "array_error_code \<Rightarrow> int" where
  "array_error_number ANone = 0"
| "array_error_number AIo = 1"
| "array_error_number ANoMetadata = 2"
| "array_error_number ABadChecksum = 3"
| "array_error_number ACorrupt = 4"
| "array_error_number AMixedArrays = 5"
| "array_error_number ADuplicateMember = 6"
| "array_error_number ATooFewMembers = 7"
| "array_error_number ANoSuchVolume = 8"
| "array_error_number AUnsupported = 9"
| "array_error_number ANoMembers = 10"

fun md_error_code :: "md_error \<Rightarrow> array_error_code" where
  "md_error_code (MdBlock _) = AIo"
| "md_error_code (NoSuperblock _) = ANoMetadata"
| "md_error_code (BadChecksum _ _ _) = ABadChecksum"
| "md_error_code (MdCorrupt _ _) = ACorrupt"
| "md_error_code (MixedArrays _) = AMixedArrays"
| "md_error_code (DuplicateRole _) = ADuplicateMember"
| "md_error_code (TooFewMembers _ _ _) = ATooFewMembers"
| "md_error_code (NoCopyLeft _) = ATooFewMembers"
| "md_error_code (MdUnsupported _) = AUnsupported"
| "md_error_code MdEmpty = ANoMembers"

fun lvm_error_code :: "lvm_error \<Rightarrow> array_error_code" where
  "lvm_error_code (LvmBlock _) = AIo"
| "lvm_error_code (NoLabel _) = ANoMetadata"
| "lvm_error_code (LvmBadChecksum _ _) = ABadChecksum"
| "lvm_error_code (LvmCorrupt _) = ACorrupt"
| "lvm_error_code (Syntax _ _) = ACorrupt"
| "lvm_error_code (NoSuchVolume _) = ANoSuchVolume"
| "lvm_error_code (MissingPv _) = ATooFewMembers"
| "lvm_error_code (LvmUnsupported _) = AUnsupported"

definition md_take_block :: "md_error \<Rightarrow> fs_error option" where
  "md_take_block e = (case e of MdBlock b \<Rightarrow> Some b | _ \<Rightarrow> None)"

definition lvm_take_block :: "lvm_error \<Rightarrow> fs_error option" where
  "lvm_take_block e = (case e of LvmBlock b \<Rightarrow> Some b | _ \<Rightarrow> None)"

text \<open>The member handles: \<open>None\<close> when the array or one of them is NULL.\<close>

definition member_arcs :: "'d option list option \<Rightarrow> nat \<Rightarrow> 'd list option" where
  "member_arcs members n_members =
     (if n_members = 0 then Some []
      else case members of
        None \<Rightarrow> None
      | Some hs \<Rightarrow> if list_all (\<lambda>h. h \<noteq> None) (take n_members hs) then Some (map the (take n_members hs)) else None)"

text \<open>
  \<open>open_array\<close>: the code, what is written to the out handle and to the reason. What opens the
  members, an error's code and the device error inside it are its arguments.
\<close>

definition open_array ::
    "ffi_guard \<Rightarrow> ('e \<Rightarrow> array_error_code) \<Rightarrow> ('e \<Rightarrow> fs_error option) \<Rightarrow> ('e \<Rightarrow> string)
      \<Rightarrow> 'd option list option \<Rightarrow> nat \<Rightarrow> bool \<Rightarrow> bool \<Rightarrow> ('d list \<Rightarrow> 'e + 'a)
      \<Rightarrow> (ffi_code \<times> last_error) \<times> 'a option option \<times> array_error_code option" where
  "open_array ffi_guard error_code take_block to_string members n_members out reason_out open_members =
     (if \<not> out then ((FfiNullArg, None), None, None)
      else case member_arcs members n_members of
        None \<Rightarrow> ((FfiNullArg, Some ''a member pointer is NULL''), Some None, None)
      | Some devices \<Rightarrow>
          if devices = []
          then ((FfiCustom, Some ''no members given''), Some None, if reason_out then Some ANoMembers else None)
          else let (rc, handle, reason) =
                 (case open_members devices of
                    Inr dev \<Rightarrow> (ffi_guard (Ok ()), Some dev, ANone)
                  | Inl e \<Rightarrow> (ffi_guard (Err (case take_block e of Some b \<Rightarrow> b | None \<Rightarrow> Custom (to_string e))),
                              None, error_code e));
                 reason = (if fst rc = FfiPanic then ACorrupt else reason)
               in (rc, Some handle, if reason_out then Some reason else None))"

definition partitions_md_assemble ::
    "('d, 'x) block_read_scheme \<Rightarrow> ffi_guard \<Rightarrow> (fs_error \<Rightarrow> string) \<Rightarrow> 'd option list option \<Rightarrow> nat \<Rightarrow> bool \<Rightarrow> bool
      \<Rightarrow> (ffi_code \<times> last_error) \<times> 'd md_array option option \<times> array_error_code option" where
  "partitions_md_assemble rd ffi_guard fs_text members n_members array_out reason_out =
     open_array ffi_guard md_error_code md_take_block (md_error_text fs_text) members n_members array_out reason_out
       (assemble rd)"

text \<open>How the pieces of a message are written as text is an argument here, \<open>write\<close>.\<close>

definition partitions_lvm_open ::
    "('d, 'x) block_read_scheme \<Rightarrow> ffi_guard \<Rightarrow> (fs_error \<Rightarrow> string) \<Rightarrow> (message \<Rightarrow> string) \<Rightarrow> 'd option list option \<Rightarrow> nat
      \<Rightarrow> u8 list option \<Rightarrow> bool \<Rightarrow> bool
      \<Rightarrow> (ffi_code \<times> last_error) \<times> 'd logical_volume option option \<times> array_error_code option" where
  "partitions_lvm_open rd ffi_guard fs_text write devices n_members name volume_out reason_out =
     (case name of
        None \<Rightarrow> ((FfiNullArg, None), if volume_out then Some None else None, None)
      | Some cname \<Rightarrow>
          open_array ffi_guard lvm_error_code lvm_take_block (\<lambda>e. write (lvm_error_text fs_text e)) devices n_members
            volume_out reason_out (\<lambda>devices. lvm_open rd devices (from_utf8_lossy cname)))"

section \<open>What a list says of the device\<close>

definition says_what_is_there :: "u64 \<Rightarrow> partition \<Rightarrow> bool" where
  "says_what_is_there dev p \<longleftrightarrow> p_available_length p = available_on_device (p_start p) (p_length p) dev"

lemma entry_array_available:
  assumes "parse_entry_array crc rd d h = Ok (parts, arr)"
  shows "list_all (says_what_is_there (size_bytes rd d)) parts"
proof -
  obtain found where f: "\<And>p a b. (p, a, b) \<in> set found \<Longrightarrow> \<exists>i < unat (num_partition_entries h).
       parse_gpt_entry arr (unat (partition_entry_size h)) (size_bytes rd d) i = Ok (Some (p, a, b))"
    and parts: "parts = flag_overlaps (mark_overlaps (map snd found)) (flag_ranges h found)"
    using parse_entry_array_Ok [OF assms] by blast
  have "\<forall>p \<in> set (flag_ranges h found). says_what_is_there (size_bytes rd d) p"
    using f by (fastforce simp: flag_ranges_def says_what_is_there_def dest: parse_gpt_entry_Ok(8))
  then show ?thesis
    by (auto simp: parts flag_overlaps_def list_all_iff says_what_is_there_def dest!: set_zip_leftD)
qed

lemma recovered_parts: "recover_from_backup crc rd d e = Ok (table, parts, source) \<Longrightarrow> parse_backup crc rd d = Ok parts"
  by (auto simp: recover_from_backup_def split: sum.splits)

lemma probe_parts:
  assumes "probe_with_status crc rd d = Ok (table, parts, source)"
  shows "(\<exists>lba1. gpt_parse crc rd d lba1 = Ok parts) \<or> parse_backup crc rd d = Ok parts \<or>
    (\<exists>lba0. mbr_parse lba0 (size_bytes rd d) = Ok parts)"
proof -
  obtain lba0 lba1 where r: "read_at rd d 0 512 = Ok lba0" "read_lba1 rd d = Ok lba1"
    using assms by (auto simp: probe_with_status_def probe_inner_def)
  note p = assms [unfolded probe_with_status_def probe_inner_def, simplified r Let_def, simplified]
  show ?thesis
  proof (cases "slice_of 0 8 lba1 = SIGNATURE")
    case True
    then show ?thesis using p r by (cases "gpt_parse crc rd d lba1") (auto dest: recovered_parts)
  next
    case False
    then show ?thesis using p r by (auto dest: recovered_parts split: if_splits option.splits)
  qed
qed

lemma probe_available:
  assumes "probe_with_status crc rd d = Ok (table, parts, source)"
  shows "list_all (says_what_is_there (size_bytes rd d)) parts"
proof -
  have mbr: "list_all (says_what_is_there dev) ps" if "mbr_parse lba0 dev = Ok ps" for lba0 dev ps
    using that by (auto simp: mbr_parse_def parse_all_entries_def list_all_iff set_map_filter parse_slot_def Let_def
        says_what_is_there_def split: if_splits)
  have gpt: "list_all (says_what_is_there (size_bytes rd d)) ps" if "gpt_parse crc rd d lba1 = Ok ps" for lba1 ps
    using that by (auto simp: gpt_parse_def entry_array_available split: if_splits)
  have bak: "list_all (says_what_is_there (size_bytes rd d)) ps" if "parse_backup crc rd d = Ok ps" for ps
    using that by (auto simp: parse_backup_def Let_def entry_array_available split: if_splits)
  show ?thesis using probe_parts [OF assms] mbr gpt bak by blast
qed

text \<open>
  C38: The slice a C caller is handed is the one it was told about. For a list made by a probe,
  the slice of an entry starts where the entry's info says, is exactly as long as the bytes
  the info says are available, lies within the device, and is only made for an entry that
  breaks no rule of its table; and such an entry that begins on the device gets a slice.
\<close>

theorem capi_slice_as_reported:
  assumes "partitions_probe crc rd ffi_guard fs_text (Some d) True = (rc, Some (Some l))"
    and "partitions_get (Some l) i True = (FfiOk, Some info)"
  shows "case fst (partitions_open_slice rd (Some l) i) of
      None \<Rightarrow> i_issues info \<noteq> 0 \<or> size_bytes rd d \<le> i_start info
    | Some s \<Rightarrow> os_parent s = d \<and> os_start s = i_start info \<and> os_length s = i_available_length info \<and>
        i_issues info = 0 \<and> unat (os_start s) + unat (os_length s) \<le> unat (size_bytes rd d) \<and>
        os_length s \<le> i_length info"
proof -
  obtain table parts source where p: "probe_with_status crc rd d = Ok (table, parts, source)"
    and l: "l_parent l = d" "l_entries l = map (list_entry (code_of_table_kind table)) parts"
    using assms(1) by (auto simp: partitions_probe_def split: sum.splits option.splits)
  have i: "i < length parts" "info = e_info (list_entry (code_of_table_kind table) (parts ! i))"
    using assms(2) l by (auto simp: partitions_get_def split: if_splits)
  have e: "e_raw (list_entry t q) = q" "i_start (e_info (list_entry t q)) = p_start q" "i_length (e_info (list_entry t q)) = p_length q"
    "i_issues (e_info (list_entry t q)) = p_issues q" "i_available_length (e_info (list_entry t q)) = p_available_length q" for t q
    by (simp_all add: list_entry_def build_info_def split: prod.split)
  have a: "p_available_length (parts ! i) = available_on_device (p_start (parts ! i)) (p_length (parts ! i)) (size_bytes rd d)"
    using probe_available [OF p] i(1) by (simp add: list_all_length says_what_is_there_def)
  have fit: "unat s + unat (available_on_device s n z) \<le> unat z \<and> available_on_device s n z \<le> n" if "s < z" for s n z :: u64
    using that by (auto simp: available_on_device_def min_def word_le_nat_alt word_less_nat_alt unat_saturating_sub)
  show ?thesis using i l a e fit [of "p_start (parts ! i)" "size_bytes rd d" "p_length (parts ! i)"]
    by (auto simp: partitions_open_slice_def slice_on_device_def Let_def not_le split: if_splits)
qed


text \<open>A disk cut short: its one partition claims four sectors, of which the device has one.\<close>

definition short_disk :: "u8 list" where
  "short_disk = replicate 446 0 @ [0, 0, 0, 0, 0x83, 0, 0, 0, 1, 0, 0, 0, 4, 0, 0, 0] @ replicate 48 0 @ [0x55, 0xAA] @ replicate 512 0"

definition short_partition :: partition where
  "short_partition = \<lparr>p_start = 512, p_length = 2048, p_kind = Mbr 0x83 False, p_label = None, p_uuid = None,
     p_slot = Some 0, p_issues = 0, p_available_length = 512\<rparr>"

definition short_list :: "u8 list partition_list" where
  "short_list = \<lparr>l_table = KindMbr, l_source = SrcMbr, l_parent = short_disk, l_entries = [list_entry KindMbr short_partition]\<rparr>"

lemma short_disk_probe: "probe_with_status (\<lambda>_. 0) memdev short_disk = Ok (TkMbr, [short_partition], FromMbr)"
proof -
  have len: "length short_disk = 1024" by (simp add: short_disk_def)
  have r: "read_at memdev short_disk 0 512 = Ok (take 512 short_disk)" "read_lba1 memdev short_disk = Ok (replicate 512 0)"
    by (simp_all add: memdev_read_def len read_lba1_def slice_of_def) (simp add: short_disk_def)
  have m: "mbr_parse (take 512 short_disk) 1024 = Ok [short_partition]"
    by (simp add: mbr_parse_def parse_all_entries_def upt_rec List.map_filter_simps parse_slot_def entry_at_def short_disk_def
        nth_append le32_def slice_of_def Let_def short_partition_def is_volume_def entry_role_def available_on_device_def
        saturating_sub_def min_def)
  have t: "map (entry_type (take 512 short_disk)) [0..<4] = [0x83, 0, 0, 0]"
    by (simp add: upt_rec entry_type_def entry_at_def short_disk_def nth_append)
  then have "\<not> is_protective (take 512 short_disk)" "\<not> has_gpt_marker (take 512 short_disk)"
    by (simp_all add: is_protective_def has_gpt_marker_def upt_rec)
  moreover have "short_disk ! 510 = 0x55" "short_disk ! 511 = 0xAA" by (simp_all add: short_disk_def nth_append)
  moreover have "replicate 8 0 \<noteq> SIGNATURE"
  proof
    assume "replicate 8 0 = SIGNATURE"
    then have "hd (replicate 8 (0 :: u8)) = hd SIGNATURE" by simp
    then show False by (simp add: SIGNATURE_def)
  qed
  ultimately show ?thesis unfolding probe_with_status_def probe_inner_def using r m len by (simp add: Let_def)
qed

theorem capi_slice_as_reported_witness:
  "fst (partitions_open_slice memdev (Some short_list) 0) = Some \<lparr>os_parent = short_disk, os_start = 512, os_length = 512\<rparr>"
proof -
  let ?info = "e_info (list_entry KindMbr short_partition)"
  have "partitions_probe (\<lambda>_. 0) memdev (\<lambda>_. (FfiOk, None)) (\<lambda>_. []) (Some short_disk) True = ((FfiOk, None), Some (Some short_list))"
    by (simp add: partitions_probe_def short_disk_probe short_list_def)
  moreover have "partitions_get (Some short_list) 0 True = (FfiOk, Some ?info)" by (simp add: partitions_get_def short_list_def)
  ultimately have *: "case fst (partitions_open_slice memdev (Some short_list) 0) of
      None \<Rightarrow> i_issues ?info \<noteq> 0 \<or> size_bytes memdev short_disk \<le> i_start ?info
    | Some s \<Rightarrow> os_parent s = short_disk \<and> os_start s = i_start ?info \<and> os_length s = i_available_length ?info \<and>
        i_issues ?info = 0 \<and> unat (os_start s) + unat (os_length s) \<le> unat (size_bytes memdev short_disk) \<and>
        os_length s \<le> i_length ?info" by (rule capi_slice_as_reported)
  have "i_issues ?info = 0" "i_start ?info = 512" "i_available_length ?info = 512" "length short_disk = 1024"
    by (simp_all add: list_entry_def build_info_def short_partition_def make_label_string_def short_disk_def)
  then show ?thesis using * by (cases "fst (partitions_open_slice memdev (Some short_list) 0)") auto
qed

text \<open>
  A sniff answers -1, and a slice is NULL, just when the call leaves a message: C never has a
  failure without one, nor a message from a call that succeeded.
\<close>

lemma fs_kind_number_nonneg: "0 \<le> fs_kind_number k"
  by (cases k) simp_all

lemma failures_explained:
  "fst (partitions_sniff rd fs_text list i) = - 1 \<longleftrightarrow> snd (partitions_sniff rd fs_text list i) \<noteq> None"
  "fst (partitions_sniff_device rd fs_text dev n) = - 1 \<longleftrightarrow> snd (partitions_sniff_device rd fs_text dev n) \<noteq> None"
  "fst (partitions_open_slice rd list i) = None \<longleftrightarrow> snd (partitions_open_slice rd list i) \<noteq> None"
  using fs_kind_number_nonneg
  by (auto simp: partitions_sniff_def partitions_sniff_device_def partitions_open_slice_def Let_def
      dest: order.trans [OF fs_kind_number_nonneg eq_refl] split: option.splits sum.splits if_splits)

text \<open>Freeing a list leaves every other list as it was, and a freed one is gone.\<close>

lemma list_free_others: "at \<noteq> other \<Longrightarrow> partitions_list_free heap (Some at) other = heap other"
  and list_free_gone: "partitions_list_free heap (Some at) at = None"
  and list_free_null: "partitions_list_free heap None = heap"
  by (simp_all add: partitions_list_free_def)

section \<open>Opening arrays and volumes\<close>

text \<open>
  What \<open>ffi_guard\<close> promises: success has the code of success, an error another, a panic its own, and
  an error with a text of its own the code \<open>Custom\<close>.
\<close>

definition guard_ok :: "ffi_guard \<Rightarrow> bool" where
  "guard_ok g \<longleftrightarrow> fst (g (Ok ())) = FfiOk \<and> (\<forall>e. fst (g (Err e)) \<noteq> FfiOk) \<and> (\<forall>m. fst (g (Err (Panicked m))) = FfiPanic) \<and>
     (\<forall>m. fst (g (Err (Custom m))) = FfiCustom)"

text \<open>
  What each reason says failed, as the enumeration \<open>PartitionsArrayError\<close> of the C header documents it:
  1 a member failed to read, 2 no superblock or label, 3 a checksum, 4 a malformed structure or text,
  5 members of several arrays, 6 two members in one slot, 7 too many members missing, 8 no volume of that
  name, 9 something that is not read, 10 no members. 0 is no failure.
\<close>

definition md_reason :: "int \<Rightarrow> md_error \<Rightarrow> bool" where
  "md_reason n e \<longleftrightarrow>
     (n = 1 \<longleftrightarrow> (\<exists>b. e = MdBlock b)) \<and> (n = 2 \<longleftrightarrow> (\<exists>m. e = NoSuperblock m)) \<and>
     (n = 3 \<longleftrightarrow> (\<exists>m stored computed. e = BadChecksum m stored computed)) \<and> (n = 4 \<longleftrightarrow> (\<exists>m why. e = MdCorrupt m why)) \<and>
     (n = 5 \<longleftrightarrow> (\<exists>m. e = MixedArrays m)) \<and> (n = 6 \<longleftrightarrow> (\<exists>slot. e = DuplicateRole slot)) \<and>
     (n = 7 \<longleftrightarrow> (\<exists>level present needed. e = TooFewMembers level present needed) \<or> (\<exists>slots. e = NoCopyLeft slots)) \<and>
     (n = 9 \<longleftrightarrow> (\<exists>what. e = MdUnsupported what)) \<and> (n = 10 \<longleftrightarrow> e = MdEmpty) \<and> n \<in> {1, 2, 3, 4, 5, 6, 7, 9, 10}"

definition lvm_reason :: "int \<Rightarrow> lvm_error \<Rightarrow> bool" where
  "lvm_reason n e \<longleftrightarrow>
     (n = 1 \<longleftrightarrow> (\<exists>b. e = LvmBlock b)) \<and> (n = 2 \<longleftrightarrow> (\<exists>m. e = NoLabel m)) \<and>
     (n = 3 \<longleftrightarrow> (\<exists>m what. e = LvmBadChecksum m what)) \<and>
     (n = 4 \<longleftrightarrow> (\<exists>why. e = LvmCorrupt why) \<or> (\<exists>line why. e = Syntax line why)) \<and>
     (n = 7 \<longleftrightarrow> (\<exists>pv. e = MissingPv pv)) \<and> (n = 8 \<longleftrightarrow> (\<exists>name. e = NoSuchVolume name)) \<and>
     (n = 9 \<longleftrightarrow> (\<exists>what. e = LvmUnsupported what)) \<and> n \<in> {1, 2, 3, 4, 7, 8, 9}"

text \<open>The devices behind the handles: all of them, unless the array of handles or one of its first \<open>n\<close> is NULL.\<close>

definition handles_of :: "'d option list option \<Rightarrow> nat \<Rightarrow> 'd list option \<Rightarrow> bool" where
  "handles_of members n devices \<longleftrightarrow>
     (case devices of
        Some ds \<Rightarrow> n = 0 \<and> ds = [] \<or> 0 < n \<and> (\<exists>ps. members = Some ps \<and> map Some ds = take n ps)
      | None \<Rightarrow> 0 < n \<and> (members = None \<or> (\<exists>ps. members = Some ps \<and> None \<in> set (take n ps))))"

text \<open>
  What opening the members with \<open>f\<close> comes to in C, both out pointers given: the code, the handle and
  the number written through the reason pointer. \<open>dev\<close> is the device error inside an error of \<open>f\<close>.
\<close>

definition outcome_ok ::
    "ffi_guard \<Rightarrow> (int \<Rightarrow> 'e \<Rightarrow> bool) \<Rightarrow> ('e \<Rightarrow> fs_error option) \<Rightarrow> 'd option list option \<Rightarrow> nat \<Rightarrow> ('d list \<Rightarrow> 'e + 'a)
      \<Rightarrow> (ffi_code \<times> last_error) \<times> 'a option option \<times> array_error_code option \<Rightarrow> bool" where
  "outcome_ok g means dev members n f = (\<lambda>((rc, _), out, reason). \<exists>devices. handles_of members n devices \<and>
     (case devices of
        None \<Rightarrow> rc = FfiNullArg \<and> out = Some None \<and> reason = None
      | Some ds \<Rightarrow>
          if ds = [] then rc = FfiCustom \<and> out = Some None \<and> map_option array_error_number reason = Some 10
          else case f ds of
            Inr a \<Rightarrow> rc = FfiOk \<and> out = Some (Some a) \<and> map_option array_error_number reason = Some 0
          | Inl e \<Rightarrow> rc \<noteq> FfiOk \<and> out = Some None \<and>
              rc = (case dev e of Some b \<Rightarrow> fst (g (Err b)) | None \<Rightarrow> FfiCustom) \<and>
              (case reason of None \<Rightarrow> False
               | Some r \<Rightarrow> if rc = FfiPanic then array_error_number r = 4 else means (array_error_number r) e)))"

lemma handles_member_arcs: "handles_of members n (member_arcs members n)"
proof (cases members)
  case (Some ps)
  have "map Some (map the (take n ps)) = take n ps" if "list_all (\<lambda>h. h \<noteq> None) (take n ps)"
    using that by (auto simp: list_all_iff intro!: map_idI)
  then show ?thesis using Some by (auto simp: handles_of_def member_arcs_def list_all_iff split: option.splits)
qed (simp add: handles_of_def member_arcs_def)

lemma open_array_outcome:
  assumes "guard_ok g" and "\<And>e. means (array_error_number (code e)) e"
  shows "outcome_ok g means blk members n f (open_array g code blk ts members n True True f)"
proof -
  let ?r = "open_array g code blk ts members n True True f"
  have "case member_arcs members n of
      None \<Rightarrow> fst (fst ?r) = FfiNullArg \<and> fst (snd ?r) = Some None \<and> snd (snd ?r) = None
    | Some ds \<Rightarrow>
        if ds = [] then fst (fst ?r) = FfiCustom \<and> fst (snd ?r) = Some None \<and> map_option array_error_number (snd (snd ?r)) = Some 10
        else case f ds of
          Inr a \<Rightarrow> fst (fst ?r) = FfiOk \<and> fst (snd ?r) = Some (Some a) \<and> map_option array_error_number (snd (snd ?r)) = Some 0
        | Inl e \<Rightarrow> fst (fst ?r) \<noteq> FfiOk \<and> fst (snd ?r) = Some None \<and>
            fst (fst ?r) = (case blk e of Some b \<Rightarrow> fst (g (Err b)) | None \<Rightarrow> FfiCustom) \<and>
            (case snd (snd ?r) of None \<Rightarrow> False
             | Some r \<Rightarrow> if fst (fst ?r) = FfiPanic then array_error_number r = 4 else means (array_error_number r) e)"
    using assms by (auto simp: open_array_def guard_ok_def Let_def case_prod_unfold split: option.splits sum.splits)
  then show ?thesis
    unfolding outcome_ok_def case_prod_unfold using handles_member_arcs by blast
qed

text \<open>A NULL member is refused without a reason: nothing is written through the reason pointer.\<close>

lemma null_member_no_reason:
  "partitions_md_assemble rd g fs_text (Some [None]) 1 True True = ((FfiNullArg, Some ''a member pointer is NULL''), Some None, None)"
  "partitions_lvm_open rd g fs_text write (Some [None]) 1 (Some name) True True = ((FfiNullArg, Some ''a member pointer is NULL''), Some None, None)"
  by (simp_all add: partitions_md_assemble_def partitions_lvm_open_def open_array_def member_arcs_def)

lemma md_code_reason: "md_reason (array_error_number (md_error_code e)) e"
  by (cases e) (simp_all add: md_reason_def)

lemma lvm_code_reason: "lvm_reason (array_error_number (lvm_error_code e)) e"
  by (cases e) (simp_all add: lvm_reason_def)

text \<open>
  C39: An array or a volume is handed to C exactly when it was opened, and a refusal says what
  failed. With members given, none NULL, that can be opened, the code is success, the out handle
  holds what assembling the members, or opening the volume, gave and the reason is 0. When they
  cannot, the handle is NULL, the code is the device's own for a member that failed to read and
  \<open>Custom\<close> otherwise, and the reason is the number whose meaning in the C header fits the error, or
  4 when the code was a panic's. With no members the code is \<open>Custom\<close> and the reason 10. When the
  array of handles or one of them is NULL the code is \<open>NullArg\<close>, the handle is NULL and, unlike what
  the comments on both functions say, nothing is written through the reason pointer.
\<close>

theorem capi_open_outcome:
  assumes "guard_ok g"
  shows "outcome_ok g md_reason (\<lambda>e. case e of MdBlock b \<Rightarrow> Some b | _ \<Rightarrow> None) members n (assemble rd)
      (partitions_md_assemble rd g fs_text members n True True) \<and>
    outcome_ok g lvm_reason (\<lambda>e. case e of LvmBlock b \<Rightarrow> Some b | _ \<Rightarrow> None) members n
      (\<lambda>devices. lvm_open rd devices (from_utf8_lossy name))
      (partitions_lvm_open rd g fs_text write members n (Some name) True True)"
  unfolding partitions_md_assemble_def partitions_lvm_open_def option.case md_take_block_def [abs_def, symmetric]
    lvm_take_block_def [abs_def, symmetric]
  using open_array_outcome [OF assms, of md_reason md_error_code] md_code_reason
    open_array_outcome [OF assms, of lvm_reason lvm_error_code] lvm_code_reason by blast

text \<open>A guard with the codes the interface documents, on an empty device and on the only member of an array.\<close>

definition plain_guard :: ffi_guard where
  "plain_guard r = (case r of Inr _ \<Rightarrow> (FfiOk, None) | Inl (Panicked m) \<Rightarrow> (FfiPanic, Some m) | Inl _ \<Rightarrow> (FfiCustom, Some ''error''))"

lemma one_handle: "handles_of (Some [Some d]) 1 ds \<longleftrightarrow> ds = Some [d]"
  by (auto simp: handles_of_def split: option.splits)

lemma array_error_number_eq: "array_error_number c = 2 \<longleftrightarrow> c = ANoMetadata" "array_error_number c = 0 \<longleftrightarrow> c = ANone"
  by (cases c; simp)+

theorem capi_open_outcome_witness:
  "\<exists>msg msg' a. partitions_md_assemble memdev plain_guard (\<lambda>_. []) (Some [Some []]) 1 True True = ((FfiCustom, msg), Some None, Some ANoMetadata) \<and>
    partitions_md_assemble memdev plain_guard (\<lambda>_. []) (Some [Some v0_member]) 1 True True = ((FfiOk, msg'), Some (Some a), Some ANone) \<and>
    a_size a = 65536"
proof -
  let ?open = "\<lambda>d. partitions_md_assemble memdev plain_guard (\<lambda>_. []) (Some [Some d]) 1 True True"
  have e: "assemble memdev [[]] = Err (NoSuperblock 0)"
    by (simp add: assemble_def member_superblocks_def read_superblock_of_def sb_candidates_def checked_sub_def checked_add_def)
  obtain a where a: "assemble memdev [v0_member] = Ok a" "a_size a = 65536" using v0_assembles by blast
  have g: "guard_ok plain_guard" by (simp add: guard_ok_def plain_guard_def split: fs_error.splits)
  note out = capi_open_outcome [OF g, THEN conjunct1, of "Some [Some d]" 1 memdev "\<lambda>_. []" for d,
      unfolded outcome_ok_def one_handle case_prod_unfold]
  have "\<exists>msg. ?open [] = ((FfiCustom, msg), Some None, Some ANoMetadata)"
    using out [of "[]"] e
    by (cases "?open []") (auto simp: md_reason_def array_error_number_eq split: option.splits if_splits)
  moreover have "\<exists>msg. ?open v0_member = ((FfiOk, msg), Some (Some a), Some ANone)"
    using out [of v0_member] a by (cases "?open v0_member") (auto simp: array_error_number_eq)
  ultimately show ?thesis using a(2) by blast
qed

end
