(* ===== verification/Spec2Isabelle.thy ===== *)
theory Spec2Isabelle
  imports Mutation Stacking Capi
begin

text \<open>
  \<^bold>\<open>Partition tables and volume containers\<close>

  The crate reads, edits and writes partition tables (MBR and GPT), tells what a partition or a
  device holds, and assembles the containers that Linux builds from devices: \<open>md\<close> arrays and
  LVM2 volumes. All of it goes through the block layer of another crate, \<open>fs_core\<close>.

  \<^bold>\<open>The parts and how they interact.\<close> \<open>probe.rs\<close> reads LBA 0 and LBA 1 of a device and hands
  them to the readers in \<open>mbr.rs\<close> and \<open>gpt.rs\<close>, falling back to the backup table at the end of
  the device. \<open>mutation.rs\<close> keeps an editable set of partitions, made from a probe or empty, and
  commits it through the writers in \<open>gpt_write.rs\<close> and \<open>mbr.rs\<close>, which share the slot assignment
  of \<open>gpt_write.rs\<close>. \<open>sniff.rs\<close> tells what filesystem a partition holds. \<open>md.rs\<close> reads superblocks,
  groups devices into arrays, assembles an array and reads it, rebuilding what missing members
  held. \<open>lvm.rs\<close> reads the labels and metadata of physical volumes, resolves a logical volume of
  their group to runs on the devices and reads it; its raid segments go through the chunk reader
  of \<open>md.rs\<close>, its thin ones through the btrees of \<open>lvm/thin.rs\<close>. \<open>container.rs\<close> says whether a
  device is a piece of an array or of a group. \<open>capi.rs\<close> offers all of this to C.

  \<^bold>\<open>Theories.\<close>
  \<^item> \<open>Prelude\<close>: machine integers, results (\<open>Ok\<close>, \<open>Err\<close>, \<open>rbind\<close> for the \<open>?\<close> operator), checked and
    saturating arithmetic, slices of byte lists and little-endian numbers, with their lemmas.
  \<^item> \<open>Block_Device\<close>: the traits \<open>BlockRead\<close> and \<open>BlockDevice\<close> of \<open>fs_core\<close> as records of operations, the
    locales \<open>block_reader\<close> and \<open>block_store\<close> with what the crate relies on, and the in-memory device
    that keeps those promises.
  \<^item> \<open>Rust_Text\<close>, \<open>Utf16\<close>: the standard library's number formatting, lossy UTF-8, the UTF-8 encoder and
    UTF-16, and the GPT name field (\<open>parse_utf16_label\<close> and the label loop of
    \<open>write_gpt_assigning_slots\<close>).
  \<^item> \<open>Partition\<close>, \<open>Slots\<close>: the types of \<open>probe.rs\<close>, \<open>error.rs\<close> and \<open>lib.rs\<close>; \<open>assign_slots\<close> and
    \<open>assign_slots_with_taken\<close>, by the locale of what a slot assignment promises.
  \<^item> \<open>Mbr\<close>: \<open>mbr.rs\<close>. CHS addresses, \<open>parse\<close>, \<open>reserved_entries\<close>, \<open>write_mbr\<close> and its variants.
  \<^item> \<open>Gpt\<close>, \<open>Gpt_Write\<close>: \<open>gpt.rs\<close> and \<open>gpt_write.rs\<close>. Header and entry-array readers, issue flags,
    backup checks; geometry, entry array, headers, protective and hybrid LBA 0, the order of writes.
    The CRC-32 of \<open>crc32fast\<close> is a parameter.
  \<^item> \<open>Probe\<close>: \<open>probe.rs\<close>, detection and recovery from the backup table.
  \<^item> \<open>Mutation\<close>: \<open>mutation.rs\<close>. \<open>PartitionSet\<close> with \<open>add\<close>, \<open>remove\<close>, \<open>resize\<close>, \<open>commit\<close> and
    \<open>commit_mut\<close>, the search for free space, the UUID generator over the record \<open>entropy\<close> that
    stands for the random device, the clock and the process id.
  \<^item> \<open>Sniff\<close>: \<open>sniff.rs\<close>, the window read from a partition and its classification.
  \<^item> \<open>Gf256\<close>: the tables of GF(2^8) behind RAID6, by the locale of a byte field.
  \<^item> \<open>Md_Layout\<close>: where each RAID level puts its chunks (\<open>parity_map\<close>, \<open>raid6_map\<close>, \<open>q_exponent\<close>,
    \<open>raid0_zones\<close>, \<open>Raid10::copies\<close>).
  \<^item> \<open>Md_Superblock\<close>: superblock decoding, the search on a device, \<open>scan\<close>.
  \<^item> \<open>Md_Array\<close>, \<open>Md_Read\<close>, \<open>Md_Zoned\<close>: \<open>MdArray::assemble\<close> and the read path; what a read returns, at
    the levels with parity or copies and at RAID0 and linear, whose members may differ in size.
  \<^item> \<open>Lvm_Text\<close>: \<open>Parser\<close>, \<open>Value\<close> and \<open>Section\<close> of \<open>lvm.rs\<close>, with a printer of the same grammar.
  \<^item> \<open>Lvm_Group\<close>: labels, metadata areas, \<open>VolumeGroup::from_metadata\<close>, \<open>read_volume_group\<close>, \<open>scan\<close>.
  \<^item> \<open>Thin\<close>: \<open>lvm/thin.rs\<close>, the pool's superblock and the lookup in its btrees.
  \<^item> \<open>Lvm_Volume\<close>, \<open>Lvm_Read\<close>: \<open>Mapper\<close>, \<open>read_runs\<close> and \<open>LogicalVolume\<close>; what a read returns.
  \<^item> \<open>Stacking\<close>: \<open>BlockRead\<close> for \<open>MdArray\<close> and \<open>LogicalVolume\<close>, and the locales \<open>md_stack\<close> and \<open>lvm_stack\<close>
    whose sublocales say that arrays and volumes are block readers themselves.
  \<^item> \<open>Container\<close>: \<open>container.rs\<close>. \<open>Display\<close>: what errors say, and the errors under them.
  \<^item> \<open>Capi\<close>: \<open>capi.rs\<close>, with the message each call leaves.

  \<^bold>\<open>How the state corresponds.\<close> A struct is a record with the same fields, an enum a datatype with
  the same constructors, \<open>u8\<close> to \<open>u64\<close> are words of that width, so unchecked arithmetic wraps as
  a release build does; the layout functions of \<open>md.rs\<close> work on natural numbers where the source's
  \<open>u64\<close> values are bounded by the member count and the device size. \<open>Result\<close> is a sum with the
  error on the left. A function that writes returns the device it leaves behind. \<open>Panicked\<close> marks a
  call that would panic. A message of an LVM error is the list of its pieces, so that names of any
  characters can stand in it. A parser position is the bytes left and the line. The devices of a
  logical volume are a list and its runs name them by position, as in the source. A pointer of the
  C interface that may be NULL is an option, and what is written through an out pointer is part of
  the result.

  \<^bold>\<open>What is shown.\<close> Writers and readers agree: a planned GPT or MBR write succeeds on every device
  that keeps the block layer's contract and reads back as exactly the partitions written, in an MBR
  those with the type of a volume, with nothing else touched, and a refused one changes nothing; the
  exact acceptance conditions are stated. Edits keep the invariant of a partition set, and a set that satisfies it can be
  committed. Overlap marking and issue flags equal their pairwise definitions. Every RAID layout
  is a bijection between chunks and places, the arithmetic of Q is a field, and reads of degraded
  arrays return what the whole array would, at every level and for every number of missing
  members the level survives. The metadata parser reads back what is printed and answers on every
  text that its stack has the room for, which is told from how deep the lists of the text nest, and no
  stack has the room for all; of the copies of a group's metadata the newest good one is used, and a
  scan puts every device where its label and the groups' metadata say. A logical volume of linear and striped segments reads as its metadata describes it, a
  raid segment as the md array of its shape, a mirror as any image that can be read, a thin one as
  the tree of its pool maps it, by the refinement of a lookup to the map of a search tree. Arrays
  and such volumes keep the contract of the block layer when the devices under them do, so all of
  this holds on stacks of them; the example is a volume on a degraded mirror. What
  \<open>detect\<close> says is what the scans find, the sniffer's window hides nothing, and a C caller gets the
  slice it was told about, a handle exactly when something was opened and otherwise the reason the C
  header documents for what failed.

  \<^bold>\<open>Termination and fuel.\<close> Loops are structural recursions or have a measure. The walk of
  \<open>q_exponent\<close> has no bound of its own and is a partial function whose result is shown to exist for
  every known layout. The loops of \<open>MdArray::read_at\<close> and \<open>read_runs\<close> are one function on the rest of the
  buffer in which a piece of no bytes is an error, shown not to occur. The metadata parser has fuel:
  one more than the bytes of the text for the entries of sections, since an entry takes a byte at
  least, and twice the bytes left and two for a value, since a list takes a step for itself and one
  for each item; \<open>parse_metadata_ends\<close> shows that it is never used up. Apart from the fuel the
  parser has the room its stack leaves for nested values, as the source limits sections and not lists;
  \<open>parse_bytes\<close> has one more than the bytes of the text, which is always enough, and what it does with
  less is shown in the same theorem. The walk down a btree and the
  nesting of sub-volumes are bounded in the source, at 16 and 3 levels, and here by the same numbers.

  \<^bold>\<open>Not modelled.\<close> The byte layout of the C structs and the reference counts of the handles: a handle
  is the value behind it, and freeing a list takes it out of the heap of live ones. What \<open>fs_core\<close>
  does is a parameter: the devices, \<open>ffi_guard\<close>, and the text of a block-layer error. \<open>Debug\<close> texts,
  test code, examples and the C header are left out.
\<close>

end
